(* ===== verification/Prelude.thy ===== *)
theory Prelude
  imports Main
begin

text \<open>
  Shared vocabulary of the development: the errors and status codes the Go code returns and
  compares, durations, labelled machines with their runs, and the contracts (locales) the
  component theories interpret: a predicate every step keeps, an invariant of all runs, the
  ownership of channel references and the simulation of an abstract machine.
\<close>

section \<open>Errors, status codes, durations\<close>

text \<open>
  The status codes of gRPC the code builds (\<open>codes.X\<close>) and the error values it returns or
  compares with \<open>==\<close>: the sentinels of \<open>io\<close>, \<open>net\<close> and \<open>context\<close>, a gRPC status, and
  an error made by \<open>errors.New\<close> or coming from a library, told apart by its text.
\<close>

datatype grpc_code = NotFound | DeadlineExceeded | Unauthenticated | Unimplemented

datatype go_error =
    EOF
  | ErrClosedPipe
  | ErrNetClosed
  | CtxCanceled
  | CtxDeadline
  | Status grpc_code string
  | ErrNew string

text \<open>Durations are counted in nanoseconds, as \<open>time.Duration\<close> does.\<close>

type_synonym duration = nat

abbreviation millisecond :: duration where "millisecond \<equiv> 1000000"

abbreviation second :: duration where "second \<equiv> 1000 * millisecond"

section \<open>Hints and maps\<close>

lemma map_upd_SomeE:
  assumes "(m(k \<mapsto> v)) k' = Some w"
  obtains "k' = k" "w = v" | "k' \<noteq> k" "m k' = Some w"
  using assms by (auto split: if_splits)

lemma map_del_Some [simp]: "(m(k := None)) k' = Some w \<longleftrightarrow> k' \<noteq> k \<and> m k' = Some w"
  by auto

lemma ran_del_subset: "x \<in> ran (m(k := None)) \<Longrightarrow> x \<in> ran m"
  by (auto simp: ran_def split: if_splits)

lemma ran_upd_cases: "x \<in> ran (m(k \<mapsto> v)) \<Longrightarrow> x = v \<or> x \<in> ran m"
  by (auto simp: ran_def split: if_splits)

section \<open>Labelled machines and their runs\<close>

text \<open>
  A component is a step function on labels: the label names the goroutine that moves, what
  the environment supplies and which branch of a \<open>select\<close> is taken, so a run is a list of
  labels (an interleaving) and \<open>None\<close> says the step is not enabled there.
\<close>

fun exec :: "('l \<Rightarrow> 's \<Rightarrow> 's option) \<Rightarrow> 'l list \<Rightarrow> 's \<Rightarrow> 's option" where
  "exec step [] s = Some s"
| "exec step (l # ls) s = (case step l s of None \<Rightarrow> None | Some s' \<Rightarrow> exec step ls s')"

lemma exec_append:
  "exec step (xs @ ys) s = (case exec step xs s of None \<Rightarrow> None | Some s' \<Rightarrow> exec step ys s')"
  by (induction xs arbitrary: s) (auto split: option.splits)

lemma exec_snoc_Some:
  "exec step (ls @ [l]) s = Some t \<longleftrightarrow> (\<exists>s'. exec step ls s = Some s' \<and> step l s' = Some t)"
  by (auto simp: exec_append split: option.splits)

text \<open>An invariant that relates the labels so far with the state they have led to.\<close>

lemma exec_trace_induct [consumes 1, case_names start step]:
  assumes "exec step ls s0 = Some s"
    and "I [] s0"
    and "\<And>ls l t u. exec step ls s0 = Some t \<Longrightarrow> I ls t \<Longrightarrow> step l t = Some u \<Longrightarrow> I (ls @ [l]) u"
  shows "I ls s"
  using assms(1)
proof (induction ls arbitrary: s rule: rev_induct)
  case Nil
  with assms(2) show ?case by simp
next
  case (snoc l ls)
  then obtain t where t: "exec step ls s0 = Some t" "step l t = Some s"
    by (auto simp: exec_snoc_Some)
  show ?case by (rule assms(3) [OF t(1) snoc.IH [OF t(1)] t(2)])
qed

text \<open>The states some run leads to.\<close>

inductive reaches :: "('l \<Rightarrow> 's \<Rightarrow> 's option) \<Rightarrow> 's \<Rightarrow> 's \<Rightarrow> bool" for step s where
  here: "reaches step s s"
| move: "reaches step s t \<Longrightarrow> step l t = Some u \<Longrightarrow> reaches step s u"

lemma reaches_exec: "reaches step s t \<Longrightarrow> \<exists>ls. exec step ls s = Some t"
proof (induction rule: reaches.induct)
  case here
  have "exec step [] s = Some s" by simp
  then show ?case ..
next
  case (move t l u)
  then obtain ls where "exec step ls s = Some t" by blast
  with move.hyps have "exec step (ls @ [l]) s = Some u" by (simp add: exec_append)
  then show ?case ..
qed

lemma exec_reaches: "exec step ls s = Some t \<Longrightarrow> reaches step s t"
proof (induction ls arbitrary: t rule: rev_induct)
  case Nil
  then show ?case by (simp add: reaches.here)
next
  case (snoc l ls)
  then show ?case by (auto simp: exec_append split: option.splits intro: reaches.move)
qed

lemma reaches_iff_exec: "reaches step s t \<longleftrightarrow> (\<exists>ls. exec step ls s = Some t)"
  by (auto dest: reaches_exec exec_reaches)

section \<open>Contracts of machines\<close>

text \<open>
  A property that every step with an admitted label keeps. It is what every operation of a
  component promises; the consequence for runs is proved once, here.
\<close>

locale stable_property =
  fixes step :: "'l \<Rightarrow> 's \<Rightarrow> 's option"
    and admitted :: "'l \<Rightarrow> bool"
    and P :: "'s \<Rightarrow> bool"
  assumes step_keeps: "P s \<Longrightarrow> admitted l \<Longrightarrow> step l s = Some s' \<Longrightarrow> P s'"
begin

lemma exec_keeps: "exec step ls s = Some s' \<Longrightarrow> P s \<Longrightarrow> list_all admitted ls \<Longrightarrow> P s'"
proof (induction ls arbitrary: s)
  case Nil
  then show ?case by simp
next
  case (Cons l ls)
  then obtain t where "step l s = Some t" "exec step ls t = Some s'"
    by (auto split: option.splits)
  with Cons show ?case by (auto intro: step_keeps)
qed

end

text \<open>An invariant: it also holds at the start, so it holds wherever a run leads.\<close>

locale machine_invariant = stable_property +
  fixes start :: 's
  assumes start_holds: "P start"
begin

lemma exec_inv: "exec step ls start = Some s \<Longrightarrow> list_all admitted ls \<Longrightarrow> P s"
  using exec_keeps start_holds by blast

lemma reaches_inv: "reaches step start s \<Longrightarrow> (\<And>l. admitted l) \<Longrightarrow> P s"
proof (induction rule: reaches.induct)
  case here
  show ?case by (rule start_holds)
next
  case (move t l u)
  then show ?case by (blast intro: step_keeps)
qed

end

text \<open>
  A quantity no step ever decreases, such as the clock or the counter of allocated channels.
\<close>

locale monotone_counter =
  fixes step :: "'l \<Rightarrow> 's \<Rightarrow> 's option"
    and counter :: "'s \<Rightarrow> nat"
  assumes step_mono: "step l s = Some s' \<Longrightarrow> counter s \<le> counter s'"
begin

lemma exec_mono: "exec step ls s = Some s' \<Longrightarrow> counter s \<le> counter s'"
proof (induction ls arbitrary: s)
  case Nil
  then show ?case by simp
next
  case (Cons l ls)
  then obtain t where "step l s = Some t" "exec step ls t = Some s'"
    by (auto split: option.splits)
  with Cons.IH step_mono show ?case by (blast intro: le_trans)
qed

end

text \<open>
  Channel references. A goroutine that looked a channel up in a map keeps the reference after
  the map has changed. \<open>holds s c a\<close> says that in \<open>s\<close> some map entry or some goroutine
  associates the channel \<open>c\<close> with the identity \<open>a\<close>. If references are only copied, and
  new associations are made for newly allocated channels and one identity per step, then a
  channel never serves two identities.
\<close>

locale channel_ownership = monotone_counter +
  fixes good :: "'a \<Rightarrow> bool"
    and holds :: "'a \<Rightarrow> nat \<Rightarrow> 'i \<Rightarrow> bool"
    and new_id :: "'b \<Rightarrow> 'a \<Rightarrow> 'i"
    and start :: 'a
  assumes good_start: "good start"
    and good_step: "good s \<Longrightarrow> step l s = Some s' \<Longrightarrow> good s'"
    and start_unowned: "\<not> holds start c a"
    and step_holds: "good s \<Longrightarrow> step l s = Some s' \<Longrightarrow> holds s' c a \<Longrightarrow>
      holds s c a \<or> (counter s \<le> c \<and> c < counter s' \<and> a = new_id l s)"
begin

definition owned :: "'a \<Rightarrow> bool" where
  "owned s \<longleftrightarrow>
     good s \<and> (\<forall>c a. holds s c a \<longrightarrow> c < counter s \<and> (\<forall>b. holds s c b \<longrightarrow> b = a))"

sublocale machine_invariant step "\<lambda>_. True" owned start
proof unfold_locales
  show "owned start" by (simp add: owned_def start_unowned good_start)
next
  fix s l s' assume own: "owned s" and step: "step l s = Some s'"
  from own have g: "good s" and lt: "holds s c x \<Longrightarrow> c < counter s"
    and eq: "holds s c x \<Longrightarrow> holds s c y \<Longrightarrow> x = y" for c x y
    by (auto simp: owned_def)
  have "counter s \<le> counter s'" by (rule step_mono [OF step])
  then show "owned s'"
    using step_holds [OF g step] lt eq good_step [OF g step]
    unfolding owned_def by (metis leD less_le_trans)
qed

lemma exec_owned: "exec step ls start = Some s \<Longrightarrow> owned s"
  using exec_inv [of ls s] by (simp add: list_all_iff)

lemma exec_good: "exec step ls start = Some s \<Longrightarrow> good s"
  using exec_owned [of ls s] by (simp add: owned_def)

lemma reaches_good: "reaches step start s \<Longrightarrow> good s"
  using reaches_inv [of s] by (simp add: owned_def)

lemma exec_owner_unique:
  "exec step ls start = Some s \<Longrightarrow> holds s c a \<Longrightarrow> holds s c b \<Longrightarrow> a = b"
  using exec_owned [of ls s] by (auto simp: owned_def)

lemma exec_allocated: "exec step ls start = Some s \<Longrightarrow> holds s c a \<Longrightarrow> c < counter s"
  using exec_owned [of ls s] by (auto simp: owned_def)

end

text \<open>
  Functional simulation: each step of the detailed machine is matched by the abstract labels
  that \<open>alabels\<close> assigns to it (possibly none), between the abstractions of the two states;
  the run of the detailed machine is then matched by the concatenation of these labels.
\<close>

fun abstract_trace ::
  "('l \<Rightarrow> 's \<Rightarrow> 's option) \<Rightarrow> ('l \<Rightarrow> 's \<Rightarrow> 'k list) \<Rightarrow> 'l list \<Rightarrow> 's \<Rightarrow> 'k list" where
  "abstract_trace step alabels [] s = []"
| "abstract_trace step alabels (l # ls) s =
     alabels l s @ (case step l s of None \<Rightarrow> [] | Some s' \<Rightarrow> abstract_trace step alabels ls s')"

lemma abstract_trace_append:
  "exec step xs s = Some t \<Longrightarrow>
     abstract_trace step al (xs @ ys) s = abstract_trace step al xs s @ abstract_trace step al ys t"
  by (induction xs arbitrary: s) (auto split: option.splits)

lemma abstract_trace_hom:
  assumes "h [] = []" "\<And>xs ys. h (xs @ ys) = h xs @ h ys"
  shows "h (abstract_trace step al ls s) = abstract_trace step (\<lambda>l s. h (al l s)) ls s"
  by (induction ls arbitrary: s) (auto simp: assms split: option.splits)

lemma abstract_trace_cong:
  assumes "\<And>l s s'. step l s = Some s' \<Longrightarrow> f l s = f' l s"
  shows "exec step ls s = Some s' \<Longrightarrow> abstract_trace step f ls s = abstract_trace step f' ls s"
  by (induction ls arbitrary: s) (auto simp: assms split: option.splits)

lemma abstract_trace_mem:
  "x \<in> set (abstract_trace step al ls s) \<Longrightarrow> exec step ls s = Some s' \<Longrightarrow>
     \<exists>pre l post t. ls = pre @ l # post \<and> exec step pre s = Some t \<and> x \<in> set (al l t)"
proof (induction ls arbitrary: s)
  case Nil
  then show ?case by simp
next
  case (Cons l ls)
  then obtain t where t: "step l s = Some t" "exec step ls t = Some s'"
    by (auto split: option.splits)
  show ?case
  proof (cases "x \<in> set (al l s)")
    case True
    then have "l # ls = [] @ l # ls \<and> exec step [] s = Some s \<and> x \<in> set (al l s)" by simp
    then show ?thesis by blast
  next
    case False
    with Cons.prems(1) t(1) have "x \<in> set (abstract_trace step al ls t)" by simp
    with Cons.IH t(2) obtain pre k post u
      where "ls = pre @ k # post" "exec step pre t = Some u" "x \<in> set (al k u)"
      by blast
    with t(1) have "l # ls = (l # pre) @ k # post \<and> exec step (l # pre) s = Some u \<and> x \<in> set (al k u)"
      by simp
    then show ?thesis by blast
  qed
qed

locale simulation =
  fixes step :: "'l \<Rightarrow> 's \<Rightarrow> 's option"
    and astep :: "'k \<Rightarrow> 't \<Rightarrow> 't option"
    and absf :: "'s \<Rightarrow> 't"
    and alabels :: "'l \<Rightarrow> 's \<Rightarrow> 'k list"
    and good :: "'s \<Rightarrow> bool"
  assumes good_step: "good s \<Longrightarrow> step l s = Some s' \<Longrightarrow> good s'"
    and sim_step: "good s \<Longrightarrow> step l s = Some s' \<Longrightarrow>
      exec astep (alabels l s) (absf s) = Some (absf s')"
begin

lemma exec_sim:
  "exec step ls s = Some s' \<Longrightarrow> good s \<Longrightarrow>
     exec astep (abstract_trace step alabels ls s) (absf s) = Some (absf s')"
proof (induction ls arbitrary: s)
  case Nil
  then show ?case by simp
next
  case (Cons l ls)
  then obtain t where t: "step l s = Some t" "exec step ls t = Some s'"
    by (auto split: option.splits)
  have "good t" by (rule good_step [OF Cons.prems(2) t(1)])
  with t(2) have "exec astep (abstract_trace step alabels ls t) (absf t) = Some (absf s')"
    by (rule Cons.IH)
  with t(1) sim_step [OF Cons.prems(2) t(1)] show ?case by (simp add: exec_append)
qed

lemma exec_good: "exec step ls s = Some s' \<Longrightarrow> good s \<Longrightarrow> good s'"
proof (induction ls arbitrary: s)
  case Nil
  then show ?case by simp
next
  case (Cons l ls)
  then obtain t where t: "step l s = Some t" "exec step ls t = Some s'"
    by (auto split: option.splits)
  from Cons.IH [OF t(2) good_step [OF Cons.prems(2) t(1)]] show ?case .
qed

lemma trace_compose:
  "exec step ls s = Some s' \<Longrightarrow> good s \<Longrightarrow>
     abstract_trace astep f (abstract_trace step alabels ls s) (absf s) =
     abstract_trace step (\<lambda>l s. abstract_trace astep f (alabels l s) (absf s)) ls s"
proof (induction ls arbitrary: s)
  case Nil
  then show ?case by simp
next
  case (Cons l ls)
  then obtain t where t: "step l s = Some t" "exec step ls t = Some s'"
    by (auto split: option.splits)
  from Cons.IH [OF t(2) good_step [OF Cons.prems(2) t(1)]] t(1) show ?case
    by (simp add: abstract_trace_append [OF sim_step [OF Cons.prems(2) t(1)]])
qed

end

end
