(* ===== verification/ProtoMsg.thy ===== *)
theory ProtoMsg
  imports Prelude
begin

text \<open>
  The messages of \<^verbatim>\<open>proto/yampr.pb.go\<close>: one record per struct with its exported fields (the
  three bookkeeping fields \<open>state\<close>, \<open>sizeCache\<close> and \<open>unknownFields\<close> belong to the protobuf
  runtime and are left out), its \<open>Reset\<close>, and its getters. A Go pointer to a message is an
  \<open>option\<close>; the getters accept \<open>nil\<close> and then return the zero value, while a plain field
  access through a \<open>nil\<close> pointer panics, which the callers model. A message without fields
  is a one-value datatype. Strings are byte strings.
\<close>

record AuthToken =
  AuthToken_Token :: string

definition AuthToken_Reset :: "AuthToken \<Rightarrow> AuthToken" where
  "AuthToken_Reset x = \<lparr>AuthToken_Token = ''''\<rparr>"

definition AuthToken_GetToken :: "AuthToken option \<Rightarrow> string" where
  "AuthToken_GetToken x = (case x of Some m \<Rightarrow> AuthToken_Token m | None \<Rightarrow> '''')"

record UserLogin =
  UserLogin_Username :: string
  UserLogin_Password :: string

definition UserLogin_Reset :: "UserLogin \<Rightarrow> UserLogin" where
  "UserLogin_Reset x = \<lparr>UserLogin_Username = '''', UserLogin_Password = ''''\<rparr>"

definition UserLogin_GetUsername :: "UserLogin option \<Rightarrow> string" where
  "UserLogin_GetUsername x = (case x of Some m \<Rightarrow> UserLogin_Username m | None \<Rightarrow> '''')"

definition UserLogin_GetPassword :: "UserLogin option \<Rightarrow> string" where
  "UserLogin_GetPassword x = (case x of Some m \<Rightarrow> UserLogin_Password m | None \<Rightarrow> '''')"

record WaitForOfferRequest =
  WaitForOfferRequest_Token :: "AuthToken option"
  WaitForOfferRequest_HostId :: string

definition WaitForOfferRequest_Reset :: "WaitForOfferRequest \<Rightarrow> WaitForOfferRequest" where
  "WaitForOfferRequest_Reset x = \<lparr>WaitForOfferRequest_Token = None, WaitForOfferRequest_HostId = ''''\<rparr>"

definition WaitForOfferRequest_GetToken :: "WaitForOfferRequest option \<Rightarrow> AuthToken option" where
  "WaitForOfferRequest_GetToken x = (case x of Some m \<Rightarrow> WaitForOfferRequest_Token m | None \<Rightarrow> None)"

definition WaitForOfferRequest_GetHostId :: "WaitForOfferRequest option \<Rightarrow> string" where
  "WaitForOfferRequest_GetHostId x = (case x of Some m \<Rightarrow> WaitForOfferRequest_HostId m | None \<Rightarrow> '''')"

record WaitForOfferResponse =
  WaitForOfferResponse_AnswererId :: string
  WaitForOfferResponse_Offer :: string

definition WaitForOfferResponse_Reset :: "WaitForOfferResponse \<Rightarrow> WaitForOfferResponse" where
  "WaitForOfferResponse_Reset x = \<lparr>WaitForOfferResponse_AnswererId = '''', WaitForOfferResponse_Offer = ''''\<rparr>"

definition WaitForOfferResponse_GetAnswererId :: "WaitForOfferResponse option \<Rightarrow> string" where
  "WaitForOfferResponse_GetAnswererId x = (case x of Some m \<Rightarrow> WaitForOfferResponse_AnswererId m | None \<Rightarrow> '''')"

definition WaitForOfferResponse_GetOffer :: "WaitForOfferResponse option \<Rightarrow> string" where
  "WaitForOfferResponse_GetOffer x = (case x of Some m \<Rightarrow> WaitForOfferResponse_Offer m | None \<Rightarrow> '''')"

record ReplyToRequest =
  ReplyToRequest_Token :: "AuthToken option"
  ReplyToRequest_OffererId :: string
  ReplyToRequest_AnswererId :: string
  ReplyToRequest_Body :: string

definition ReplyToRequest_Reset :: "ReplyToRequest \<Rightarrow> ReplyToRequest" where
  "ReplyToRequest_Reset x = \<lparr>ReplyToRequest_Token = None, ReplyToRequest_OffererId = '''', ReplyToRequest_AnswererId = '''', ReplyToRequest_Body = ''''\<rparr>"

definition ReplyToRequest_GetToken :: "ReplyToRequest option \<Rightarrow> AuthToken option" where
  "ReplyToRequest_GetToken x = (case x of Some m \<Rightarrow> ReplyToRequest_Token m | None \<Rightarrow> None)"

definition ReplyToRequest_GetOffererId :: "ReplyToRequest option \<Rightarrow> string" where
  "ReplyToRequest_GetOffererId x = (case x of Some m \<Rightarrow> ReplyToRequest_OffererId m | None \<Rightarrow> '''')"

definition ReplyToRequest_GetAnswererId :: "ReplyToRequest option \<Rightarrow> string" where
  "ReplyToRequest_GetAnswererId x = (case x of Some m \<Rightarrow> ReplyToRequest_AnswererId m | None \<Rightarrow> '''')"

definition ReplyToRequest_GetBody :: "ReplyToRequest option \<Rightarrow> string" where
  "ReplyToRequest_GetBody x = (case x of Some m \<Rightarrow> ReplyToRequest_Body m | None \<Rightarrow> '''')"

record AnswerResponse =
  AnswerResponse_Answer :: string

definition AnswerResponse_Reset :: "AnswerResponse \<Rightarrow> AnswerResponse" where
  "AnswerResponse_Reset x = \<lparr>AnswerResponse_Answer = ''''\<rparr>"

definition AnswerResponse_GetAnswer :: "AnswerResponse option \<Rightarrow> string" where
  "AnswerResponse_GetAnswer x = (case x of Some m \<Rightarrow> AnswerResponse_Answer m | None \<Rightarrow> '''')"

record WaitForAnswerRequest =
  WaitForAnswerRequest_Token :: "AuthToken option"
  WaitForAnswerRequest_AnswererId :: string

definition WaitForAnswerRequest_Reset :: "WaitForAnswerRequest \<Rightarrow> WaitForAnswerRequest" where
  "WaitForAnswerRequest_Reset x = \<lparr>WaitForAnswerRequest_Token = None, WaitForAnswerRequest_AnswererId = ''''\<rparr>"

definition WaitForAnswerRequest_GetToken :: "WaitForAnswerRequest option \<Rightarrow> AuthToken option" where
  "WaitForAnswerRequest_GetToken x = (case x of Some m \<Rightarrow> WaitForAnswerRequest_Token m | None \<Rightarrow> None)"

definition WaitForAnswerRequest_GetAnswererId :: "WaitForAnswerRequest option \<Rightarrow> string" where
  "WaitForAnswerRequest_GetAnswererId x = (case x of Some m \<Rightarrow> WaitForAnswerRequest_AnswererId m | None \<Rightarrow> '''')"

record IceCandidate =
  IceCandidate_Candidate :: string

definition IceCandidate_Reset :: "IceCandidate \<Rightarrow> IceCandidate" where
  "IceCandidate_Reset x = \<lparr>IceCandidate_Candidate = ''''\<rparr>"

definition IceCandidate_GetCandidate :: "IceCandidate option \<Rightarrow> string" where
  "IceCandidate_GetCandidate x = (case x of Some m \<Rightarrow> IceCandidate_Candidate m | None \<Rightarrow> '''')"

datatype SendIceCandidateResponse = SendIceCandidateResponse

definition SendIceCandidateResponse_Reset :: "SendIceCandidateResponse \<Rightarrow> SendIceCandidateResponse" where
  "SendIceCandidateResponse_Reset x = SendIceCandidateResponse"

record SendOfferRequest =
  SendOfferRequest_Token :: "AuthToken option"
  SendOfferRequest_HostId :: string
  SendOfferRequest_Offer :: string

definition SendOfferRequest_Reset :: "SendOfferRequest \<Rightarrow> SendOfferRequest" where
  "SendOfferRequest_Reset x = \<lparr>SendOfferRequest_Token = None, SendOfferRequest_HostId = '''', SendOfferRequest_Offer = ''''\<rparr>"

definition SendOfferRequest_GetToken :: "SendOfferRequest option \<Rightarrow> AuthToken option" where
  "SendOfferRequest_GetToken x = (case x of Some m \<Rightarrow> SendOfferRequest_Token m | None \<Rightarrow> None)"

definition SendOfferRequest_GetHostId :: "SendOfferRequest option \<Rightarrow> string" where
  "SendOfferRequest_GetHostId x = (case x of Some m \<Rightarrow> SendOfferRequest_HostId m | None \<Rightarrow> '''')"

definition SendOfferRequest_GetOffer :: "SendOfferRequest option \<Rightarrow> string" where
  "SendOfferRequest_GetOffer x = (case x of Some m \<Rightarrow> SendOfferRequest_Offer m | None \<Rightarrow> '''')"

record OfferResponse =
  OfferResponse_OffererId :: string
  OfferResponse_AnswererId :: string
  OfferResponse_Body :: string

definition OfferResponse_Reset :: "OfferResponse \<Rightarrow> OfferResponse" where
  "OfferResponse_Reset x = \<lparr>OfferResponse_OffererId = '''', OfferResponse_AnswererId = '''', OfferResponse_Body = ''''\<rparr>"

definition OfferResponse_GetOffererId :: "OfferResponse option \<Rightarrow> string" where
  "OfferResponse_GetOffererId x = (case x of Some m \<Rightarrow> OfferResponse_OffererId m | None \<Rightarrow> '''')"

definition OfferResponse_GetAnswererId :: "OfferResponse option \<Rightarrow> string" where
  "OfferResponse_GetAnswererId x = (case x of Some m \<Rightarrow> OfferResponse_AnswererId m | None \<Rightarrow> '''')"

definition OfferResponse_GetBody :: "OfferResponse option \<Rightarrow> string" where
  "OfferResponse_GetBody x = (case x of Some m \<Rightarrow> OfferResponse_Body m | None \<Rightarrow> '''')"

record WaitForAnswerResponse =
  WaitForAnswerResponse_Answer :: string

definition WaitForAnswerResponse_Reset :: "WaitForAnswerResponse \<Rightarrow> WaitForAnswerResponse" where
  "WaitForAnswerResponse_Reset x = \<lparr>WaitForAnswerResponse_Answer = ''''\<rparr>"

definition WaitForAnswerResponse_GetAnswer :: "WaitForAnswerResponse option \<Rightarrow> string" where
  "WaitForAnswerResponse_GetAnswer x = (case x of Some m \<Rightarrow> WaitForAnswerResponse_Answer m | None \<Rightarrow> '''')"

record WaitForICECandidateRequest =
  WaitForICECandidateRequest_Token :: "AuthToken option"
  WaitForICECandidateRequest_AnswererId :: string

definition WaitForICECandidateRequest_Reset :: "WaitForICECandidateRequest \<Rightarrow> WaitForICECandidateRequest" where
  "WaitForICECandidateRequest_Reset x = \<lparr>WaitForICECandidateRequest_Token = None, WaitForICECandidateRequest_AnswererId = ''''\<rparr>"

definition WaitForICECandidateRequest_GetToken :: "WaitForICECandidateRequest option \<Rightarrow> AuthToken option" where
  "WaitForICECandidateRequest_GetToken x = (case x of Some m \<Rightarrow> WaitForICECandidateRequest_Token m | None \<Rightarrow> None)"

definition WaitForICECandidateRequest_GetAnswererId :: "WaitForICECandidateRequest option \<Rightarrow> string" where
  "WaitForICECandidateRequest_GetAnswererId x = (case x of Some m \<Rightarrow> WaitForICECandidateRequest_AnswererId m | None \<Rightarrow> '''')"

record InitHostRequest =
  InitHostRequest_UserLogin :: "UserLogin option"

definition InitHostRequest_Reset :: "InitHostRequest \<Rightarrow> InitHostRequest" where
  "InitHostRequest_Reset x = \<lparr>InitHostRequest_UserLogin = None\<rparr>"

definition InitHostRequest_GetUserLogin :: "InitHostRequest option \<Rightarrow> UserLogin option" where
  "InitHostRequest_GetUserLogin x = (case x of Some m \<Rightarrow> InitHostRequest_UserLogin m | None \<Rightarrow> None)"

record InitHostResponse =
  InitHostResponse_HostId :: string
  InitHostResponse_Token :: "AuthToken option"
  InitHostResponse_ClientSecret :: "AuthToken option"

definition InitHostResponse_Reset :: "InitHostResponse \<Rightarrow> InitHostResponse" where
  "InitHostResponse_Reset x = \<lparr>InitHostResponse_HostId = '''', InitHostResponse_Token = None, InitHostResponse_ClientSecret = None\<rparr>"

definition InitHostResponse_GetHostId :: "InitHostResponse option \<Rightarrow> string" where
  "InitHostResponse_GetHostId x = (case x of Some m \<Rightarrow> InitHostResponse_HostId m | None \<Rightarrow> '''')"

definition InitHostResponse_GetToken :: "InitHostResponse option \<Rightarrow> AuthToken option" where
  "InitHostResponse_GetToken x = (case x of Some m \<Rightarrow> InitHostResponse_Token m | None \<Rightarrow> None)"

definition InitHostResponse_GetClientSecret :: "InitHostResponse option \<Rightarrow> AuthToken option" where
  "InitHostResponse_GetClientSecret x = (case x of Some m \<Rightarrow> InitHostResponse_ClientSecret m | None \<Rightarrow> None)"

datatype Empty = Empty

definition Empty_Reset :: "Empty \<Rightarrow> Empty" where
  "Empty_Reset x = Empty"

record AnswerRequest =
  AnswerRequest_Token :: "AuthToken option"
  AnswerRequest_OffererId :: string
  AnswerRequest_AnswererId :: string
  AnswerRequest_Body :: string

definition AnswerRequest_Reset :: "AnswerRequest \<Rightarrow> AnswerRequest" where
  "AnswerRequest_Reset x = \<lparr>AnswerRequest_Token = None, AnswerRequest_OffererId = '''', AnswerRequest_AnswererId = '''', AnswerRequest_Body = ''''\<rparr>"

definition AnswerRequest_GetToken :: "AnswerRequest option \<Rightarrow> AuthToken option" where
  "AnswerRequest_GetToken x = (case x of Some m \<Rightarrow> AnswerRequest_Token m | None \<Rightarrow> None)"

definition AnswerRequest_GetOffererId :: "AnswerRequest option \<Rightarrow> string" where
  "AnswerRequest_GetOffererId x = (case x of Some m \<Rightarrow> AnswerRequest_OffererId m | None \<Rightarrow> '''')"

definition AnswerRequest_GetAnswererId :: "AnswerRequest option \<Rightarrow> string" where
  "AnswerRequest_GetAnswererId x = (case x of Some m \<Rightarrow> AnswerRequest_AnswererId m | None \<Rightarrow> '''')"

definition AnswerRequest_GetBody :: "AnswerRequest option \<Rightarrow> string" where
  "AnswerRequest_GetBody x = (case x of Some m \<Rightarrow> AnswerRequest_Body m | None \<Rightarrow> '''')"

section \<open>Facts about getters\<close>

text \<open>The definitions of all getters, and the values after \<open>Reset\<close>.\<close>

lemmas getter_defs =
  AuthToken_GetToken_def UserLogin_GetUsername_def UserLogin_GetPassword_def
  WaitForOfferRequest_GetToken_def WaitForOfferRequest_GetHostId_def WaitForOfferResponse_GetAnswererId_def
  WaitForOfferResponse_GetOffer_def ReplyToRequest_GetToken_def ReplyToRequest_GetOffererId_def
  ReplyToRequest_GetAnswererId_def ReplyToRequest_GetBody_def AnswerResponse_GetAnswer_def
  WaitForAnswerRequest_GetToken_def WaitForAnswerRequest_GetAnswererId_def IceCandidate_GetCandidate_def
  SendOfferRequest_GetToken_def SendOfferRequest_GetHostId_def SendOfferRequest_GetOffer_def
  OfferResponse_GetOffererId_def OfferResponse_GetAnswererId_def OfferResponse_GetBody_def
  WaitForAnswerResponse_GetAnswer_def WaitForICECandidateRequest_GetToken_def WaitForICECandidateRequest_GetAnswererId_def
  InitHostRequest_GetUserLogin_def InitHostResponse_GetHostId_def InitHostResponse_GetToken_def
  InitHostResponse_GetClientSecret_def AnswerRequest_GetToken_def AnswerRequest_GetOffererId_def
  AnswerRequest_GetAnswererId_def AnswerRequest_GetBody_def

lemmas reset_defs =
  AuthToken_Reset_def UserLogin_Reset_def WaitForOfferRequest_Reset_def
  WaitForOfferResponse_Reset_def ReplyToRequest_Reset_def AnswerResponse_Reset_def
  WaitForAnswerRequest_Reset_def IceCandidate_Reset_def SendIceCandidateResponse_Reset_def
  SendOfferRequest_Reset_def OfferResponse_Reset_def WaitForAnswerResponse_Reset_def
  WaitForICECandidateRequest_Reset_def InitHostRequest_Reset_def InitHostResponse_Reset_def
  Empty_Reset_def AnswerRequest_Reset_def

end
