(* ===== verification/GoChan.thy ===== *)
theory GoChan
  imports Prelude
begin

text \<open>
  Go channels as values: a buffer, a capacity and the closed flag, with the four operations
  the code uses on them (\<open>make\<close>, send, receive, \<open>close\<close>). A send on a closed channel and a
  second \<open>close\<close> panic; a receive from a closed, drained channel returns at once with
  \<open>ok = false\<close>. A send on a channel of capacity 0 never finds room: it completes only with a
  receiver, which the component theories model as a joint step of the two goroutines.
  The contract \<open>fifo\<close> collects what the other theories use of a buffered channel.
\<close>

section \<open>Channels\<close>

record 'a chan =
  chBuf :: "'a list"
  chCap :: nat
  chClosed :: bool

definition make_chan :: "nat \<Rightarrow> 'a chan" where
  "make_chan n = \<lparr>chBuf = [], chCap = n, chClosed = False\<rparr>"

datatype 'c send_result = Sent 'c | SendBlocks | SendPanics

definition chan_send :: "'a chan \<Rightarrow> 'a \<Rightarrow> 'a chan send_result" where
  "chan_send c v =
     (if chClosed c then SendPanics
      else if length (chBuf c) < chCap c then Sent (c\<lparr>chBuf := chBuf c @ [v]\<rparr>)
      else SendBlocks)"

datatype ('a, 'c) recv_result = Received 'a 'c | RecvClosed | RecvBlocks

definition chan_recv :: "'a chan \<Rightarrow> ('a, 'a chan) recv_result" where
  "chan_recv c =
     (case chBuf c of
        v # vs \<Rightarrow> Received v (c\<lparr>chBuf := vs\<rparr>)
      | [] \<Rightarrow> if chClosed c then RecvClosed else RecvBlocks)"

text \<open>\<open>None\<close> is the panic of closing a closed channel.\<close>

definition chan_close :: "'a chan \<Rightarrow> 'a chan option" where
  "chan_close c = (if chClosed c then None else Some (c\<lparr>chClosed := True\<rparr>))"

text \<open>The operations where only their success matters: \<open>None\<close> is "not now".\<close>

definition chan_put :: "'a chan \<Rightarrow> 'a \<Rightarrow> 'a chan option" where
  "chan_put c v = (case chan_send c v of Sent c' \<Rightarrow> Some c' | _ \<Rightarrow> None)"

definition chan_take :: "'a chan \<Rightarrow> ('a \<times> 'a chan) option" where
  "chan_take c = (case chan_recv c of Received v c' \<Rightarrow> Some (v, c') | _ \<Rightarrow> None)"

lemma make_chan_simps [simp]:
  "chBuf (make_chan n) = []" "chCap (make_chan n) = n" "\<not> chClosed (make_chan n)"
  by (simp_all add: make_chan_def)

lemma chan_put_Some_iff:
  "chan_put c v = Some c' \<longleftrightarrow>
     \<not> chClosed c \<and> length (chBuf c) < chCap c \<and> c' = c\<lparr>chBuf := chBuf c @ [v]\<rparr>"
  by (auto simp: chan_put_def chan_send_def)

lemma chan_take_Some_iff:
  "chan_take c = Some (v, c') \<longleftrightarrow> (\<exists>vs. chBuf c = v # vs \<and> c' = c\<lparr>chBuf := vs\<rparr>)"
  by (auto simp: chan_take_def chan_recv_def split: list.splits if_splits)

lemma chan_take_None_iff: "chan_take c = None \<longleftrightarrow> chBuf c = []"
  by (auto simp: chan_take_def chan_recv_def split: list.splits)

section \<open>The contract of a queue\<close>

text \<open>
  What the other theories use of a buffered channel: a value goes in at the end and comes out at the
  front. The proofs that data keep their order rest on these laws: the log of all values that went
  in is the log of those that came out followed by the contents.
\<close>

locale fifo =
  fixes put :: "'c \<Rightarrow> 'a \<Rightarrow> 'c option"
    and get :: "'c \<Rightarrow> ('a \<times> 'c) option"
    and contents :: "'c \<Rightarrow> 'a list"
  assumes put_contents: "put c v = Some c' \<Longrightarrow> contents c' = contents c @ [v]"
    and get_contents: "get c = Some (v, c') \<Longrightarrow> contents c = v # contents c'"
    and get_some: "contents c \<noteq> [] \<Longrightarrow> get c \<noteq> None"
begin

lemma put_log: "log = out @ contents c \<Longrightarrow> put c v = Some c' \<Longrightarrow> log @ [v] = out @ contents c'"
  using put_contents by simp

lemma get_ready: "contents c \<noteq> [] \<Longrightarrow> \<exists>v c'. get c = Some (v, c')"
  using get_some [of c] by auto

end

interpretation gochan: fifo chan_put chan_take chBuf
  by unfold_locales (auto simp: chan_put_Some_iff chan_take_Some_iff chan_take_None_iff)

end
