(* ===== verification/HostServer.thy ===== *)
theory HostServer
  imports Auth GoChan
begin

text \<open>
  The host registry, \<^verbatim>\<open>server/host.go\<close>. One goroutine, \<open>HostLifeManager\<close>, owns the map of
  registered hosts and serves five channels; the other goroutines are the idle timers started
  by \<open>registerHost\<close>, the notifiers started by \<open>handleNewOffer\<close>, and the callers of the RPC
  \<open>ListenNewOffer\<close>. A label names who moves and which branch of its \<open>select\<close> is taken; what
  arrives on the unbuffered inputs \<open>newHostCh\<close> and \<open>newOfferCh\<close>, the results of
  \<open>stream.Send\<close> and the passing of time are supplied by the label. Pointers to \<open>hostClient\<close>
  are references into \<open>hsHeap\<close>, because a caller of \<open>ListenNewOffer\<close> keeps its pointer after
  the manager has dropped the map entry. A timer may fire at any time from its deadline on.
  A step of the crashed server (a \<open>nil\<close> dereference in a goroutine ends the process) is not
  enabled.
\<close>

section \<open>State\<close>

datatype hostClientStatus = hostClientStatusIdle | hostClientStatusActive

definition HostClientIdleTimeout :: duration where
  "HostClientIdleTimeout = 5 * second"

record hostClient =
  hcStatus :: hostClientStatus
  offerSig :: "unit chan"
  stopListeningNewOffer :: "unit chan"

text \<open>A request names the goroutine whose \<open>returnChan\<close> (one slot) waits for the answer.\<close>

record hostClientRequest =
  reqID :: string
  returnChan :: nat

text \<open>A notifier: in its \<open>select\<close> with the deadline of \<open>time.After\<close>, or timed out and sending.\<close>

datatype notifier =
    NotifySelect nat string duration
  | NotifyClose string

datatype listen_pc =
    ListenRequesting string
  | ListenAwaiting string "nat option chan"
  | ListenActivating string nat
  | ListenLoop string nat
  | ListenSending string nat
  | ListenDone "go_error option"

record host_server =
  clients :: "string \<rightharpoonup> nat"
  hsHeap :: "nat \<rightharpoonup> hostClient"
  gcHostCh :: "string chan"
  closeHostCh :: "string chan"
  hostClientRequestChan :: "hostClientRequest chan"
  idleTimers :: "nat \<rightharpoonup> string \<times> duration"
  notifiers :: "nat \<rightharpoonup> notifier"
  listeners :: "nat \<rightharpoonup> listen_pc"
  hsNext :: nat
  hsNow :: duration
  hsCrashed :: bool

definition NewHostServer :: host_server where
  "NewHostServer =
     \<lparr>clients = Map.empty, hsHeap = Map.empty, gcHostCh = make_chan 1024,
      closeHostCh = make_chan 1024, hostClientRequestChan = make_chan 1024,
      idleTimers = Map.empty, notifiers = Map.empty, listeners = Map.empty,
      hsNext = 0, hsNow = 0, hsCrashed = False\<rparr>"

section \<open>The manager\<close>

text \<open>The new client gets the next reference, the timer goroutine the one after it.\<close>

definition registerHost :: "string \<Rightarrow> host_server \<Rightarrow> host_server" where
  "registerHost hostID hs =
     hs\<lparr>clients := (clients hs)(hostID \<mapsto> hsNext hs),
        hsHeap := (hsHeap hs)(hsNext hs \<mapsto>
          \<lparr>hcStatus = hostClientStatusIdle, offerSig = make_chan 1024,
           stopListeningNewOffer = make_chan 1\<rparr>),
        idleTimers := (idleTimers hs)(Suc (hsNext hs) \<mapsto>
          (hostID, hsNow hs + HostClientIdleTimeout)),
        hsNext := Suc (Suc (hsNext hs))\<rparr>"

text \<open>
  \<open>hs.clients[hostID].status\<close> on an absent key reads through the \<open>nil\<close> pointer and panics.
\<close>

definition chkHostIdle :: "string \<Rightarrow> host_server \<Rightarrow> host_server" where
  "chkHostIdle hostID hs =
     (case clients hs hostID of
        None \<Rightarrow> hs\<lparr>hsCrashed := True\<rparr>
      | Some r \<Rightarrow>
          (case hsHeap hs r of
             None \<Rightarrow> hs\<lparr>hsCrashed := True\<rparr>
           | Some c \<Rightarrow>
               if hcStatus c = hostClientStatusIdle
               then hs\<lparr>clients := (clients hs)(hostID := None)\<rparr>
               else hs))"

definition deleteHost :: "string \<Rightarrow> host_server \<Rightarrow> host_server" where
  "deleteHost hostID hs = hs\<lparr>clients := (clients hs)(hostID := None)\<rparr>"

text \<open>\<open>None\<close>: the return channel is full, so the manager would block.\<close>

definition handleHostClientRequest :: "hostClientRequest \<Rightarrow> host_server \<Rightarrow> host_server option" where
  "handleHostClientRequest req hs =
     (case listeners hs (returnChan req) of
        Some (ListenAwaiting h ch) \<Rightarrow>
          map_option
            (\<lambda>ch'. hs\<lparr>listeners := (listeners hs)(returnChan req \<mapsto> ListenAwaiting h ch')\<rparr>)
            (chan_put ch (clients hs (reqID req)))
      | _ \<Rightarrow> None)"

definition handleNewOffer :: "string \<Rightarrow> host_server \<Rightarrow> host_server" where
  "handleNewOffer hostID hs =
     (case clients hs hostID of
        Some r \<Rightarrow>
          hs\<lparr>notifiers := (notifiers hs)(hsNext hs \<mapsto>
               NotifySelect r hostID (hsNow hs + HostClientIdleTimeout)),
             hsNext := Suc (hsNext hs)\<rparr>
      | None \<Rightarrow> hs)"

datatype manager_event = NewHost string | GcHost | CloseHost | HostRequest | NewOffer string

text \<open>One round of the loop of \<open>HostLifeManager\<close>: the branch of its \<open>select\<close> is given.\<close>

fun HostLifeManager :: "manager_event \<Rightarrow> host_server \<Rightarrow> host_server option" where
  "HostLifeManager (NewHost hostID) hs = Some (registerHost hostID hs)"
| "HostLifeManager GcHost hs =
     (case chan_take (gcHostCh hs) of
        None \<Rightarrow> None
      | Some (hostID, ch) \<Rightarrow> Some (chkHostIdle hostID (hs\<lparr>gcHostCh := ch\<rparr>)))"
| "HostLifeManager CloseHost hs =
     (case chan_take (closeHostCh hs) of
        None \<Rightarrow> None
      | Some (hostID, ch) \<Rightarrow> Some (deleteHost hostID (hs\<lparr>closeHostCh := ch\<rparr>)))"
| "HostLifeManager HostRequest hs =
     (case chan_take (hostClientRequestChan hs) of
        None \<Rightarrow> None
      | Some (req, ch) \<Rightarrow> handleHostClientRequest req (hs\<lparr>hostClientRequestChan := ch\<rparr>))"
| "HostLifeManager (NewOffer hostID) hs = Some (handleNewOffer hostID hs)"

section \<open>The other goroutines\<close>

text \<open>The goroutine of \<open>registerHost\<close>: past its deadline it sends on \<open>gcHostCh\<close> and ends.\<close>

definition idle_timer :: "nat \<Rightarrow> host_server \<Rightarrow> host_server option" where
  "idle_timer i hs =
     (case idleTimers hs i of
        None \<Rightarrow> None
      | Some (hostID, deadline) \<Rightarrow>
          if deadline \<le> hsNow hs
          then map_option
            (\<lambda>ch. hs\<lparr>gcHostCh := ch, idleTimers := (idleTimers hs)(i := None)\<rparr>)
            (chan_put (gcHostCh hs) hostID)
          else None)"

text \<open>
  The goroutine of \<open>handleNewOffer\<close>: its three moves. The \<open>select\<close> sends at once, or as soon as there
  is room, so the branch of the timeout needs a buffer that is full when the time is up.
\<close>

definition notify_signal :: "nat \<Rightarrow> host_server \<Rightarrow> host_server option" where
  "notify_signal i hs =
     (case notifiers hs i of
        Some (NotifySelect r hostID deadline) \<Rightarrow>
          (case hsHeap hs r of
             None \<Rightarrow> None
           | Some c \<Rightarrow>
               map_option
                 (\<lambda>ch. hs\<lparr>hsHeap := (hsHeap hs)(r \<mapsto> c\<lparr>offerSig := ch\<rparr>),
                          notifiers := (notifiers hs)(i := None)\<rparr>)
                 (chan_put (offerSig c) ()))
      | _ \<Rightarrow> None)"

definition notify_timeout :: "nat \<Rightarrow> host_server \<Rightarrow> host_server option" where
  "notify_timeout i hs =
     (case notifiers hs i of
        Some (NotifySelect r hostID deadline) \<Rightarrow>
          (case hsHeap hs r of
             None \<Rightarrow> None
           | Some c \<Rightarrow>
               if deadline \<le> hsNow hs \<and> chan_put (offerSig c) () = None
               then Some (hs\<lparr>notifiers := (notifiers hs)(i \<mapsto> NotifyClose hostID)\<rparr>)
               else None)
      | _ \<Rightarrow> None)"

definition notify_close :: "nat \<Rightarrow> host_server \<Rightarrow> host_server option" where
  "notify_close i hs =
     (case notifiers hs i of
        Some (NotifyClose hostID) \<Rightarrow>
          map_option
            (\<lambda>ch. hs\<lparr>closeHostCh := ch, notifiers := (notifiers hs)(i := None)\<rparr>)
            (chan_put (closeHostCh hs) hostID)
      | _ \<Rightarrow> None)"

datatype listen_event =
    CallListen string
  | SendRequest
  | GetClient
  | Activate
  | RecvStop
  | RecvOffer
  | StreamSent "go_error option"

text \<open>
  The helper \<open>client\<close>: send the request (with a fresh one-slot return channel), then receive
  from the return channel.
\<close>

definition client_send :: "nat \<Rightarrow> string \<Rightarrow> host_server \<Rightarrow> host_server option" where
  "client_send g hostID hs =
     map_option
       (\<lambda>ch. hs\<lparr>hostClientRequestChan := ch,
                listeners := (listeners hs)(g \<mapsto> ListenAwaiting hostID (make_chan 1))\<rparr>)
       (chan_put (hostClientRequestChan hs) \<lparr>reqID = hostID, returnChan = g\<rparr>)"

definition client_recv :: "nat option chan \<Rightarrow> nat option option" where
  "client_recv ch = map_option fst (chan_take ch)"

text \<open>
  \<open>ListenNewOffer\<close> of goroutine \<open>g\<close>. Between receiving the client pointer and writing its
  status nothing is locked, so this is a step of its own.
\<close>

fun ListenNewOffer :: "nat \<Rightarrow> listen_event \<Rightarrow> host_server \<Rightarrow> host_server option" where
  "ListenNewOffer g ev hs =
     (case (ev, listeners hs g) of
        (CallListen hostID, None) \<Rightarrow>
          Some (hs\<lparr>listeners := (listeners hs)(g \<mapsto> ListenRequesting hostID)\<rparr>)
      | (SendRequest, Some (ListenRequesting hostID)) \<Rightarrow> client_send g hostID hs
      | (GetClient, Some (ListenAwaiting hostID ch)) \<Rightarrow>
          (case client_recv ch of
             None \<Rightarrow> None
           | Some None \<Rightarrow>
               Some (hs\<lparr>listeners := (listeners hs)(g \<mapsto>
                 ListenDone (Some (Status NotFound ''host not found'')))\<rparr>)
           | Some (Some r) \<Rightarrow>
               Some (hs\<lparr>listeners := (listeners hs)(g \<mapsto> ListenActivating hostID r)\<rparr>))
      | (Activate, Some (ListenActivating hostID r)) \<Rightarrow>
          (case hsHeap hs r of
             None \<Rightarrow> None
           | Some c \<Rightarrow>
               Some (hs\<lparr>hsHeap := (hsHeap hs)(r \<mapsto> c\<lparr>hcStatus := hostClientStatusActive\<rparr>),
                        listeners := (listeners hs)(g \<mapsto> ListenLoop hostID r)\<rparr>))
      | (RecvStop, Some (ListenLoop hostID r)) \<Rightarrow>
          (case hsHeap hs r of
             None \<Rightarrow> None
           | Some c \<Rightarrow>
               (case chan_take (stopListeningNewOffer c) of
                  None \<Rightarrow> None
                | Some (_, ch) \<Rightarrow>
                    Some (hs\<lparr>hsHeap := (hsHeap hs)(r \<mapsto> c\<lparr>stopListeningNewOffer := ch\<rparr>),
                             listeners := (listeners hs)(g \<mapsto> ListenDone None)\<rparr>)))
      | (RecvOffer, Some (ListenLoop hostID r)) \<Rightarrow>
          (case hsHeap hs r of
             None \<Rightarrow> None
           | Some c \<Rightarrow>
               (case chan_take (offerSig c) of
                  None \<Rightarrow> None
                | Some (_, ch) \<Rightarrow>
                    Some (hs\<lparr>hsHeap := (hsHeap hs)(r \<mapsto> c\<lparr>offerSig := ch\<rparr>),
                             listeners := (listeners hs)(g \<mapsto> ListenSending hostID r)\<rparr>)))
      | (StreamSent err, Some (ListenSending hostID r)) \<Rightarrow>
          Some (hs\<lparr>listeners := (listeners hs)(g \<mapsto>
            (case err of None \<Rightarrow> ListenLoop hostID r | Some e \<Rightarrow> ListenDone (Some e)))\<rparr>)
      | _ \<Rightarrow> None)"

declare ListenNewOffer.simps [simp del]

datatype hs_label =
    Manager manager_event
  | IdleTimer nat
  | NotifySignal nat
  | NotifyTimeout nat
  | NotifyCloses nat
  | Listen nat listen_event
  | HostTick duration

definition hs_step :: "hs_label \<Rightarrow> host_server \<Rightarrow> host_server option" where
  "hs_step l hs =
     (if hsCrashed hs then None
      else case l of
        Manager ev \<Rightarrow> HostLifeManager ev hs
      | IdleTimer i \<Rightarrow> idle_timer i hs
      | NotifySignal i \<Rightarrow> notify_signal i hs
      | NotifyTimeout i \<Rightarrow> notify_timeout i hs
      | NotifyCloses i \<Rightarrow> notify_close i hs
      | Listen g ev \<Rightarrow> ListenNewOffer g ev hs
      | HostTick d \<Rightarrow> Some (hs\<lparr>hsNow := hsNow hs + d\<rparr>))"

section \<open>One step, case by case\<close>

lemma ListenNewOffer_cases:
  assumes "ListenNewOffer g ev hs = Some hs'"
  obtains (call) h where "ev = CallListen h" "listeners hs g = None"
      "hs' = hs\<lparr>listeners := (listeners hs)(g \<mapsto> ListenRequesting h)\<rparr>"
  | (send) h ch where "ev = SendRequest" "listeners hs g = Some (ListenRequesting h)"
      "chan_put (hostClientRequestChan hs) \<lparr>reqID = h, returnChan = g\<rparr> = Some ch"
      "hs' = hs\<lparr>hostClientRequestChan := ch,
         listeners := (listeners hs)(g \<mapsto> ListenAwaiting h (make_chan 1))\<rparr>"
  | (notfound) h ch ch' where "ev = GetClient" "listeners hs g = Some (ListenAwaiting h ch)"
      "chan_take ch = Some (None, ch')"
      "hs' = hs\<lparr>listeners := (listeners hs)(g \<mapsto>
         ListenDone (Some (Status NotFound ''host not found'')))\<rparr>"
  | (found) h ch ch' r where "ev = GetClient" "listeners hs g = Some (ListenAwaiting h ch)"
      "chan_take ch = Some (Some r, ch')"
      "hs' = hs\<lparr>listeners := (listeners hs)(g \<mapsto> ListenActivating h r)\<rparr>"
  | (activate) h r c where "ev = Activate" "listeners hs g = Some (ListenActivating h r)"
      "hsHeap hs r = Some c"
      "hs' = hs\<lparr>hsHeap := (hsHeap hs)(r \<mapsto> c\<lparr>hcStatus := hostClientStatusActive\<rparr>),
         listeners := (listeners hs)(g \<mapsto> ListenLoop h r)\<rparr>"
  | (stop) h r c ch where "ev = RecvStop" "listeners hs g = Some (ListenLoop h r)"
      "hsHeap hs r = Some c" "chan_take (stopListeningNewOffer c) = Some ((), ch)"
      "hs' = hs\<lparr>hsHeap := (hsHeap hs)(r \<mapsto> c\<lparr>stopListeningNewOffer := ch\<rparr>),
         listeners := (listeners hs)(g \<mapsto> ListenDone None)\<rparr>"
  | (offer) h r c ch where "ev = RecvOffer" "listeners hs g = Some (ListenLoop h r)"
      "hsHeap hs r = Some c" "chan_take (offerSig c) = Some ((), ch)"
      "hs' = hs\<lparr>hsHeap := (hsHeap hs)(r \<mapsto> c\<lparr>offerSig := ch\<rparr>),
         listeners := (listeners hs)(g \<mapsto> ListenSending h r)\<rparr>"
  | (sent) err h r where "ev = StreamSent err" "listeners hs g = Some (ListenSending h r)"
      "hs' = hs\<lparr>listeners := (listeners hs)(g \<mapsto>
         (case err of None \<Rightarrow> ListenLoop h r | Some e \<Rightarrow> ListenDone (Some e)))\<rparr>"
proof (cases ev)
  case (CallListen h)
  with assms show thesis
    by (auto simp: ListenNewOffer.simps client_send_def client_recv_def
        intro: call split: listen_pc.splits option.splits)
next
  case SendRequest
  with assms show thesis
    by (auto simp: ListenNewOffer.simps client_send_def client_recv_def
        intro: send split: listen_pc.splits option.splits)
next
  case GetClient
  with assms show thesis
    by (auto simp: ListenNewOffer.simps client_send_def client_recv_def
        intro: notfound found split: listen_pc.splits option.splits)
next
  case Activate
  with assms show thesis
    by (auto simp: ListenNewOffer.simps client_send_def client_recv_def
        intro: activate split: listen_pc.splits option.splits)
next
  case RecvStop
  with assms show thesis
    by (auto simp: ListenNewOffer.simps client_send_def client_recv_def
        intro: stop split: listen_pc.splits option.splits)
next
  case RecvOffer
  with assms show thesis
    by (auto simp: ListenNewOffer.simps client_send_def client_recv_def
        intro: offer split: listen_pc.splits option.splits)
next
  case (StreamSent err)
  with assms show thesis
    by (auto simp: ListenNewOffer.simps client_send_def client_recv_def
        intro: sent split: listen_pc.splits option.splits)
qed

lemma hs_stepE:
  assumes "hs_step l hs = Some hs'"
  obtains (new_host) h where "l = Manager (NewHost h)" "hs' = registerHost h hs"
  | (gc) h ch where "l = Manager GcHost" "chan_take (gcHostCh hs) = Some (h, ch)"
      "hs' = chkHostIdle h (hs\<lparr>gcHostCh := ch\<rparr>)"
  | (closed) h ch where "l = Manager CloseHost" "chan_take (closeHostCh hs) = Some (h, ch)"
      "hs' = deleteHost h (hs\<lparr>closeHostCh := ch\<rparr>)"
  | (request) req ch h rc rc' where "l = Manager HostRequest"
      "chan_take (hostClientRequestChan hs) = Some (req, ch)"
      "listeners hs (returnChan req) = Some (ListenAwaiting h rc)"
      "chan_put rc (clients hs (reqID req)) = Some rc'"
      "hs' = hs\<lparr>hostClientRequestChan := ch,
         listeners := (listeners hs)(returnChan req \<mapsto> ListenAwaiting h rc')\<rparr>"
  | (new_offer) h where "l = Manager (NewOffer h)" "hs' = handleNewOffer h hs"
  | (timer) i h d ch where "l = IdleTimer i" "idleTimers hs i = Some (h, d)" "d \<le> hsNow hs"
      "chan_put (gcHostCh hs) h = Some ch"
      "hs' = hs\<lparr>gcHostCh := ch, idleTimers := (idleTimers hs)(i := None)\<rparr>"
  | (signal) i r h d c ch where "l = NotifySignal i"
      "notifiers hs i = Some (NotifySelect r h d)" "hsHeap hs r = Some c"
      "chan_put (offerSig c) () = Some ch"
      "hs' = hs\<lparr>hsHeap := (hsHeap hs)(r \<mapsto> c\<lparr>offerSig := ch\<rparr>),
         notifiers := (notifiers hs)(i := None)\<rparr>"
  | (timeout) i r h d c where "l = NotifyTimeout i"
      "notifiers hs i = Some (NotifySelect r h d)" "d \<le> hsNow hs"
      "hsHeap hs r = Some c" "chan_put (offerSig c) () = None"
      "hs' = hs\<lparr>notifiers := (notifiers hs)(i \<mapsto> NotifyClose h)\<rparr>"
  | (closing) i h ch where "l = NotifyCloses i" "notifiers hs i = Some (NotifyClose h)"
      "chan_put (closeHostCh hs) h = Some ch"
      "hs' = hs\<lparr>closeHostCh := ch, notifiers := (notifiers hs)(i := None)\<rparr>"
  | (listen) g ev where "l = Listen g ev" "ListenNewOffer g ev hs = Some hs'"
  | (tick) d where "l = HostTick d" "hs' = hs\<lparr>hsNow := hsNow hs + d\<rparr>"
proof (cases l)
  case (Manager ev)
  with assms show thesis
    by (cases ev)
      (auto simp: hs_step_def handleHostClientRequest_def
        intro: new_host gc closed request new_offer split: if_splits option.splits listen_pc.splits)
next
  case (IdleTimer i)
  with assms show thesis
    by (auto simp: hs_step_def idle_timer_def intro: timer split: if_splits option.splits)
next
  case (NotifySignal i)
  with assms show thesis
    by (auto simp: hs_step_def notify_signal_def intro: signal
        split: if_splits option.splits notifier.splits)
next
  case (NotifyTimeout i)
  with assms show thesis
    by (auto simp: hs_step_def notify_timeout_def intro: timeout
        split: if_splits option.splits notifier.splits)
next
  case (NotifyCloses i)
  with assms show thesis
    by (auto simp: hs_step_def notify_close_def intro: closing
        split: if_splits option.splits notifier.splits)
next
  case (Listen g ev)
  with assms listen show thesis by (auto simp: hs_step_def split: if_splits)
next
  case (HostTick d)
  with assms tick show thesis by (auto simp: hs_step_def split: if_splits)
qed

lemma hs_step_running: "hs_step l hs = Some hs' \<Longrightarrow> \<not> hsCrashed hs"
  by (auto simp: hs_step_def split: if_splits)

lemma registerHost_simps [simp]:
  "clients (registerHost h hs) = (clients hs)(h \<mapsto> hsNext hs)"
  "gcHostCh (registerHost h hs) = gcHostCh hs"
  "closeHostCh (registerHost h hs) = closeHostCh hs"
  "hostClientRequestChan (registerHost h hs) = hostClientRequestChan hs"
  "notifiers (registerHost h hs) = notifiers hs"
  "listeners (registerHost h hs) = listeners hs"
  "hsNext (registerHost h hs) = Suc (Suc (hsNext hs))"
  "hsNow (registerHost h hs) = hsNow hs"
  "hsCrashed (registerHost h hs) = hsCrashed hs"
  by (simp_all add: registerHost_def)

lemma chkHostIdle_simps [simp]:
  "hsHeap (chkHostIdle h hs) = hsHeap hs"
  "gcHostCh (chkHostIdle h hs) = gcHostCh hs"
  "closeHostCh (chkHostIdle h hs) = closeHostCh hs"
  "hostClientRequestChan (chkHostIdle h hs) = hostClientRequestChan hs"
  "idleTimers (chkHostIdle h hs) = idleTimers hs"
  "notifiers (chkHostIdle h hs) = notifiers hs"
  "listeners (chkHostIdle h hs) = listeners hs"
  "hsNext (chkHostIdle h hs) = hsNext hs"
  "hsNow (chkHostIdle h hs) = hsNow hs"
  by (simp_all add: chkHostIdle_def split: option.splits)

lemma chkHostIdle_clients: "clients (chkHostIdle h hs) k = Some r \<Longrightarrow> clients hs k = Some r"
  by (auto simp: chkHostIdle_def split: option.splits if_splits)

lemma deleteHost_simps [simp]:
  "clients (deleteHost h hs) = (clients hs)(h := None)"
  "hsHeap (deleteHost h hs) = hsHeap hs"
  "gcHostCh (deleteHost h hs) = gcHostCh hs"
  "closeHostCh (deleteHost h hs) = closeHostCh hs"
  "hostClientRequestChan (deleteHost h hs) = hostClientRequestChan hs"
  "idleTimers (deleteHost h hs) = idleTimers hs"
  "notifiers (deleteHost h hs) = notifiers hs"
  "listeners (deleteHost h hs) = listeners hs"
  "hsNext (deleteHost h hs) = hsNext hs"
  "hsNow (deleteHost h hs) = hsNow hs"
  "hsCrashed (deleteHost h hs) = hsCrashed hs"
  by (simp_all add: deleteHost_def)

lemma handleNewOffer_simps [simp]:
  "clients (handleNewOffer h hs) = clients hs"
  "hsHeap (handleNewOffer h hs) = hsHeap hs"
  "gcHostCh (handleNewOffer h hs) = gcHostCh hs"
  "closeHostCh (handleNewOffer h hs) = closeHostCh hs"
  "hostClientRequestChan (handleNewOffer h hs) = hostClientRequestChan hs"
  "idleTimers (handleNewOffer h hs) = idleTimers hs"
  "listeners (handleNewOffer h hs) = listeners hs"
  "hsNow (handleNewOffer h hs) = hsNow hs"
  "hsCrashed (handleNewOffer h hs) = hsCrashed hs"
  by (simp_all add: handleNewOffer_def split: option.splits)

section \<open>The invariant\<close>

text \<open>
  The goroutines and map entries that have a reference to the client of a host: the map, the
  answers on their way to a caller, the callers and the notifiers.
\<close>

definition hs_holds :: "host_server \<Rightarrow> nat \<Rightarrow> string \<Rightarrow> bool" where
  "hs_holds hs r h \<longleftrightarrow>
     clients hs h = Some r \<or>
     (\<exists>i d. notifiers hs i = Some (NotifySelect r h d)) \<or>
     (\<exists>g ch. listeners hs g = Some (ListenAwaiting h ch) \<and> Some r \<in> set (chBuf ch)) \<or>
     (\<exists>g. listeners hs g \<in>
        {Some (ListenActivating h r), Some (ListenLoop h r), Some (ListenSending h r)})"

text \<open>
  Requests: every queued one belongs to a different waiting caller, asks for that caller's
  host and finds its return channel empty.
\<close>

definition requests_wf :: "host_server \<Rightarrow> bool" where
  "requests_wf hs \<longleftrightarrow>
     distinct (map returnChan (chBuf (hostClientRequestChan hs))) \<and>
     (\<forall>req\<in>set (chBuf (hostClientRequestChan hs)). \<exists>ch.
        listeners hs (returnChan req) = Some (ListenAwaiting (reqID req) ch) \<and> chBuf ch = []) \<and>
     (\<forall>g h ch. listeners hs g = Some (ListenAwaiting h ch) \<longrightarrow> chCap ch = 1 \<and> \<not> chClosed ch)"

definition client_wf :: "hostClient \<Rightarrow> bool" where
  "client_wf c \<longleftrightarrow>
     chCap (offerSig c) = 1024 \<and> \<not> chClosed (offerSig c) \<and>
     length (chBuf (offerSig c)) \<le> 1024 \<and> chBuf (stopListeningNewOffer c) = []"

definition heap_wf :: "host_server \<Rightarrow> bool" where
  "heap_wf hs \<longleftrightarrow>
     (\<forall>r h. hs_holds hs r h \<longrightarrow> r \<in> dom (hsHeap hs)) \<and>
     (\<forall>r c. hsHeap hs r = Some c \<longrightarrow> r < hsNext hs \<and> client_wf c)"

lemmas host_inv_defs = hs_holds_def requests_wf_def client_wf_def heap_wf_def

lemma requests_wf_step:
  assumes "requests_wf hs" and "hs_step l hs = Some hs'"
  shows "requests_wf hs'"
  using assms(2)
proof (cases rule: hs_stepE)
  case (request req ch h rc rc')
  with assms(1) show ?thesis
    by (auto simp: requests_wf_def chan_take_Some_iff chan_put_Some_iff) (metis image_eqI)+
next
  case (listen g ev)
  from listen(2) show ?thesis
  proof (cases rule: ListenNewOffer_cases)
    case (send h ch)
    with assms(1) show ?thesis
      by (fastforce simp: requests_wf_def chan_put_Some_iff)
  qed (use assms(1) in \<open>fastforce simp: requests_wf_def chan_take_Some_iff split: option.splits\<close>)+
qed (use assms(1) in \<open>auto simp: requests_wf_def\<close>)

lemma hs_holds_step:
  assumes wf: "requests_wf hs" and step: "hs_step l hs = Some hs'" and new: "hs_holds hs' r h"
  shows "hs_holds hs r h \<or> (r = hsNext hs \<and> l = Manager (NewHost h))"
  using step
proof (cases rule: hs_stepE)
  case (new_host k)
  with new show ?thesis by (auto simp: hs_holds_def split: if_splits)
next
  case (gc k ch)
  with new show ?thesis by (auto simp: hs_holds_def dest: chkHostIdle_clients)
next
  case (request req ch k rc rc')
  with wf have "reqID req = k" by (auto simp: requests_wf_def chan_take_Some_iff)
  with request new show ?thesis
    by (auto simp: hs_holds_def chan_put_Some_iff split: if_splits)
next
  case (new_offer k)
  with new show ?thesis
    by (auto simp: hs_holds_def handleNewOffer_def split: if_splits option.splits)
next
  case (listen g ev)
  from listen(2) show ?thesis
  proof (cases rule: ListenNewOffer_cases)
    case (found k ch ch' q)
    then have "Some q \<in> set (chBuf ch)" by (auto simp: chan_take_Some_iff)
    with found new show ?thesis by (auto simp: hs_holds_def split: if_splits)
  qed (use new in \<open>auto simp: hs_holds_def split: if_splits option.splits\<close>)
qed (use new in \<open>auto simp: hs_holds_def split: if_splits\<close>)

lemma hsNext_mono:
  assumes "hs_step l hs = Some hs'"
  shows "hsNext hs \<le> hsNext hs'"
  using assms
proof (cases rule: hs_stepE)
  case (listen g ev)
  from listen(2) show ?thesis by (cases rule: ListenNewOffer_cases) auto
qed (auto simp: handleNewOffer_def split: option.splits)

interpretation hsown: channel_ownership hs_step hsNext requests_wf hs_holds
  "\<lambda>l _. case l of Manager (NewHost h) \<Rightarrow> h | _ \<Rightarrow> ''''" NewHostServer
proof unfold_locales
  show "requests_wf NewHostServer" by (simp add: requests_wf_def NewHostServer_def)
  show "\<not> hs_holds NewHostServer c a" for c a by (simp add: hs_holds_def NewHostServer_def)
next
  fix l s s' c a
  assume "requests_wf s" and step: "hs_step l s = Some s'" and "hs_holds s' c a"
  then have "hs_holds s c a \<or> (c = hsNext s \<and> l = Manager (NewHost a))" by (rule hs_holds_step)
  moreover have "l = Manager (NewHost a) \<Longrightarrow> hsNext s < hsNext s'"
    using step by (cases rule: hs_stepE) auto
  ultimately show "hs_holds s c a \<or> (hsNext s \<le> c \<and> c < hsNext s' \<and>
      a = (case l of Manager (NewHost h) \<Rightarrow> h | _ \<Rightarrow> ''''))"
    by auto
qed (auto intro: hsNext_mono requests_wf_step)

lemma heap_wf_step:
  assumes req: "requests_wf hs" and wf: "heap_wf hs" and step: "hs_step l hs = Some hs'"
  shows "heap_wf hs'"
proof -
  have refs: "r \<in> dom (hsHeap hs')" if "hs_holds hs' r h" for r h
  proof -
    have "hs_holds hs r h \<or> (r = hsNext hs \<and> l = Manager (NewHost h))"
      by (rule hs_holds_step [OF req step that])
    moreover have "dom (hsHeap hs) \<subseteq> dom (hsHeap hs')"
      using step
    proof (cases rule: hs_stepE)
      case (listen g ev)
      from listen(2) show ?thesis by (cases rule: ListenNewOffer_cases) auto
    qed (auto simp: registerHost_def)
    moreover have "hsHeap hs' (hsNext hs) \<noteq> None" if "l = Manager (NewHost h)"
      using step that by (auto simp: hs_step_def registerHost_def split: if_splits)
    ultimately show ?thesis using wf unfolding heap_wf_def by blast
  qed
  have cell: "r < hsNext hs' \<and> client_wf c" if c: "hsHeap hs' r = Some c" for r c
    using step
  proof (cases rule: hs_stepE)
    case (new_host h)
    with wf c show ?thesis
      by (auto simp: heap_wf_def registerHost_def client_wf_def less_Suc_eq split: if_splits)
  next
    case (new_offer h)
    with wf c show ?thesis
      by (auto simp: heap_wf_def handleNewOffer_def less_Suc_eq split: option.splits)
  next
    case (signal i q h d e ch)
    with wf c show ?thesis
      by (auto simp: heap_wf_def client_wf_def chan_put_Some_iff split: if_splits)
  next
    case (listen g ev)
    from listen(2) show ?thesis
    proof (cases rule: ListenNewOffer_cases)
      case (activate h q e)
      with wf c show ?thesis by (auto simp: heap_wf_def client_wf_def split: if_splits)
    next
      case (stop h q e ch)
      with wf c show ?thesis
        by (auto simp: heap_wf_def client_wf_def chan_take_Some_iff split: if_splits)
    next
      case (offer h q e ch)
      with wf have "client_wf e" by (auto simp: heap_wf_def)
      with offer have "client_wf (e\<lparr>offerSig := ch\<rparr>)"
        by (auto simp: client_wf_def chan_take_Some_iff)
      with offer wf c show ?thesis by (auto simp: heap_wf_def split: if_splits)
    qed (use wf c in \<open>auto simp: heap_wf_def\<close>)
  qed (use wf c in \<open>auto simp: heap_wf_def\<close>)
  from refs cell show ?thesis by (auto simp: heap_wf_def)
qed

text \<open>The reachable states.\<close>

definition hs_inv :: "host_server \<Rightarrow> bool" where
  "hs_inv hs \<longleftrightarrow> hsown.owned hs \<and> heap_wf hs"

interpretation hsinv: machine_invariant hs_step "\<lambda>_. True" hs_inv NewHostServer
proof unfold_locales
  show "hs_inv NewHostServer"
    using hsown.start_holds
    by (simp add: hs_inv_def heap_wf_def hs_holds_def NewHostServer_def)
next
  fix hs l hs' assume inv: "hs_inv hs" and step: "hs_step l hs = Some hs'"
  then have "hsown.owned hs'" using hsown.step_keeps [of hs l hs'] by (simp add: hs_inv_def)
  moreover have "requests_wf hs" using inv by (simp add: hs_inv_def hsown.owned_def)
  then have "heap_wf hs'" using inv step by (auto simp: hs_inv_def intro: heap_wf_step)
  ultimately show "hs_inv hs'" by (simp add: hs_inv_def)
qed

lemma hs_run_inv: "exec hs_step ls NewHostServer = Some hs \<Longrightarrow> hs_inv hs"
  using hsinv.exec_inv [of ls hs] by (simp add: list_all_iff)

lemma hs_inv_requests: "hs_inv hs \<Longrightarrow> requests_wf hs"
  by (simp add: hs_inv_def hsown.owned_def)

lemma hs_inv_same_host: "hs_inv hs \<Longrightarrow> hs_holds hs r h \<Longrightarrow> hs_holds hs r k \<Longrightarrow> h = k"
  by (auto simp: hs_inv_def hsown.owned_def)

lemma hs_inv_client:
  "hs_inv hs \<Longrightarrow> hs_holds hs r h \<Longrightarrow> \<exists>c. hsHeap hs r = Some c \<and> client_wf c \<and> r < hsNext hs"
  unfolding hs_inv_def heap_wf_def by blast

lemma hs_inv_registered:
  "hs_inv hs \<Longrightarrow> clients hs h = Some r \<Longrightarrow> \<exists>c. hsHeap hs r = Some c \<and> r < hsNext hs"
  using hs_inv_client [of hs r h] by (auto simp: hs_holds_def)

end
