(* ===== verification/HostServerProps.thy ===== *)
theory HostServerProps
  imports HostServer
begin

text \<open>
  What the host registry of \<^verbatim>\<open>server/host.go\<close> guarantees and where it fails: the manager never
  blocks, hosts are isolated from each other, idle hosts live at least as long as the timeout,
  active ones are never collected, the registry refines a small abstract one; but a late
  caller of \<open>ListenNewOffer\<close> can wait for ever.
\<close>

section \<open>Counting registrations and pending collections\<close>

definition registrations :: "hs_label list \<Rightarrow> string list" where
  "registrations ls =
     concat (map (\<lambda>l. case l of Manager (NewHost h) \<Rightarrow> [h] | _ \<Rightarrow> []) ls)"

lemma registrations_simps [simp]:
  "registrations [] = []"
  "registrations (ls @ ks) = registrations ls @ registrations ks"
  "registrations (l # ls) =
     (case l of Manager (NewHost h) \<Rightarrow> [h] | _ \<Rightarrow> []) @ registrations ls"
  by (simp_all add: registrations_def)

text \<open>An idle check of the host is in the queue, or a timer that will send one is running.\<close>

definition gc_pending :: "host_server \<Rightarrow> string \<Rightarrow> bool" where
  "gc_pending hs h \<longleftrightarrow>
     h \<in> set (chBuf (gcHostCh hs)) \<or> (\<exists>i d. idleTimers hs i = Some (h, d))"

text \<open>One idle check per host at most, and only for registered hosts.\<close>

definition gc_safe :: "host_server \<Rightarrow> bool" where
  "gc_safe hs \<longleftrightarrow>
     distinct (chBuf (gcHostCh hs)) \<and>
     (\<forall>i j h d e. idleTimers hs i = Some (h, d) \<longrightarrow> idleTimers hs j = Some (h, e) \<longrightarrow> i = j) \<and>
     (\<forall>i h d. idleTimers hs i = Some (h, d) \<longrightarrow> h \<notin> set (chBuf (gcHostCh hs))) \<and>
     (\<forall>h. gc_pending hs h \<longrightarrow> (\<exists>r. clients hs h = Some r))"

lemmas gc_defs = gc_pending_def gc_safe_def

lemma gc_pending_step:
  assumes "hs_step l hs = Some hs'" and "gc_pending hs' h"
  shows "gc_pending hs h \<or> l = Manager (NewHost h)"
  using assms(1)
proof (cases rule: hs_stepE)
  case (listen g ev)
  from listen(2) assms(2) show ?thesis
    by (cases rule: ListenNewOffer_cases) (auto simp: gc_pending_def)
qed (use assms(2) in \<open>auto simp: gc_pending_def registerHost_def handleNewOffer_def
      chan_take_Some_iff chan_put_Some_iff split: if_splits option.splits\<close>)

lemma gc_safe_step:
  assumes inv: "hs_inv hs" and safe: "gc_safe hs" and step: "hs_step l hs = Some hs'"
    and fresh: "\<And>h. l = Manager (NewHost h) \<Longrightarrow> \<not> gc_pending hs h"
    and noclose: "l \<noteq> Manager CloseHost"
  shows "gc_safe hs' \<and> \<not> hsCrashed hs'"
proof -
  have run: "\<not> hsCrashed hs" by (rule hs_step_running [OF step])
  show ?thesis
    using step
  proof (cases rule: hs_stepE)
    case (new_host h)
    with fresh [of h] safe run show ?thesis
      by (auto simp: gc_defs registerHost_def split: if_splits) blast
  next
    case (gc h ch)
    then obtain r where r: "clients hs h = Some r"
      using safe by (fastforce simp: gc_defs chan_take_Some_iff)
    moreover obtain c where "hsHeap hs r = Some c"
      using hs_inv_registered [OF inv r] by blast
    ultimately show ?thesis
      using gc safe run
      by (auto simp: gc_defs chkHostIdle_def chan_take_Some_iff split: if_splits) blast
  next
    case (timer i h d ch)
    with safe run show ?thesis
      by (auto simp: gc_defs chan_put_Some_iff split: if_splits) blast+
  next
    case (listen g ev)
    from listen(2) safe run show ?thesis
      by (cases rule: ListenNewOffer_cases) (auto simp: gc_defs)
  qed (use safe run noclose in \<open>auto simp: gc_defs handleNewOffer_def split: option.splits\<close>)
qed

lemma registry_run_safe:
  "exec hs_step ls NewHostServer = Some hs \<Longrightarrow> distinct (registrations ls) \<Longrightarrow>
     Manager CloseHost \<notin> set ls \<Longrightarrow>
     gc_safe hs \<and> \<not> hsCrashed hs \<and> (\<forall>h. gc_pending hs h \<longrightarrow> h \<in> set (registrations ls))"
proof (induction rule: exec_trace_induct)
  case start
  show ?case by (auto simp: gc_defs NewHostServer_def)
next
  case (step ls l t u)
  then have IH: "gc_safe t" "\<forall>h. gc_pending t h \<longrightarrow> h \<in> set (registrations ls)"
    by auto
  have "gc_safe u \<and> \<not> hsCrashed u"
    using hs_run_inv [OF step.hyps(1)] IH(1) step.hyps(2)
  proof (rule gc_safe_step)
    show "\<not> gc_pending t h" if "l = Manager (NewHost h)" for h
      using step.prems(1) IH(2) that by auto
    show "l \<noteq> Manager CloseHost" using step.prems(2) by auto
  qed
  moreover have "\<forall>h. gc_pending u h \<longrightarrow> h \<in> set (registrations (ls @ [l]))"
    using IH(2) gc_pending_step [OF step.hyps(2)] by auto
  ultimately show ?case by blast
qed

section \<open>Properties\<close>

text \<open>
  C23: no crash in ordinary runs. As long as every host id is registered at most once (ids are
  fresh uuids) and no host is deleted through \<open>closeHostCh\<close>, \<open>chkHostIdle\<close> always finds the
  host it is asked about, so the manager's unchecked map access never panics, in any
  interleaving of registrations, timers, offers and listeners.
\<close>

theorem registry_never_crashes:
  assumes "exec hs_step ls NewHostServer = Some hs"
    and "distinct (registrations ls)" and "Manager CloseHost \<notin> set ls"
  shows "\<not> hsCrashed hs"
  using registry_run_safe [OF assms] by blast

theorem registry_never_crashes_witness:
  "\<exists>hs. exec hs_step [Manager (NewHost ''h''), Manager (NewHost ''k''), HostTick (5 * second),
       IdleTimer 1, Manager GcHost, IdleTimer 3] NewHostServer = Some hs \<and> \<not> hsCrashed hs"
proof -
  let ?ls = "[Manager (NewHost ''h''), Manager (NewHost ''k''), HostTick (5 * second),
       IdleTimer 1, Manager GcHost, IdleTimer 3]"
  obtain hs where hs: "exec hs_step ?ls NewHostServer = Some hs"
    by (simp add: hs_step_def NewHostServer_def registerHost_def idle_timer_def chkHostIdle_def
        HostClientIdleTimeout_def chan_put_def chan_send_def chan_take_def chan_recv_def make_chan_def)
  moreover have "\<not> hsCrashed hs" by (rule registry_never_crashes [OF hs]) simp_all
  ultimately show ?thesis by blast
qed

text \<open>
  The manager never blocks. In every reachable state it can serve each of its channels
  that has something to offer; in particular the answer to a client request always fits into
  the caller's return channel.
\<close>

theorem manager_never_blocks:
  assumes "reaches hs_step NewHostServer hs"
  shows "HostLifeManager (NewHost h) hs \<noteq> None \<and> HostLifeManager (NewOffer h) hs \<noteq> None \<and>
    (HostLifeManager GcHost hs = None \<longleftrightarrow> chBuf (gcHostCh hs) = []) \<and>
    (HostLifeManager CloseHost hs = None \<longleftrightarrow> chBuf (closeHostCh hs) = []) \<and>
    (HostLifeManager HostRequest hs = None \<longleftrightarrow> chBuf (hostClientRequestChan hs) = [])"
proof -
  have "hs_inv hs" by (rule hsinv.reaches_inv [OF assms]) simp
  then have wf: "requests_wf hs" by (rule hs_inv_requests)
  have "HostLifeManager HostRequest hs \<noteq> None" if req: "chBuf (hostClientRequestChan hs) = req # reqs" for req reqs
  proof -
    from wf req obtain ch where "listeners hs (returnChan req) = Some (ListenAwaiting (reqID req) ch)"
      "chBuf ch = []" "chCap ch = 1" "\<not> chClosed ch"
      by (fastforce simp: requests_wf_def)
    then show ?thesis
      using req by (simp add: handleHostClientRequest_def chan_take_def chan_recv_def
          chan_put_def chan_send_def)
  qed
  then show ?thesis
    by (cases "chBuf (hostClientRequestChan hs)")
      (auto simp: chan_take_None_iff chan_take_Some_iff split: option.splits)
qed

theorem manager_never_blocks_witness:
  "HostLifeManager GcHost NewHostServer = None \<longleftrightarrow> chBuf (gcHostCh NewHostServer) = []"
  using manager_never_blocks [OF reaches.here, of "''h''"] by simp

section \<open>Listeners that come too late\<close>

text \<open>
  A client that is no longer registered, has no notifier and no signal left: nothing can wake
  its listeners.
\<close>

definition orphaned :: "host_server \<Rightarrow> nat \<Rightarrow> bool" where
  "orphaned hs r \<longleftrightarrow>
     r < hsNext hs \<and> (\<forall>h. clients hs h \<noteq> Some r) \<and>
     (\<forall>i h d. notifiers hs i \<noteq> Some (NotifySelect r h d)) \<and>
     (\<forall>c. hsHeap hs r = Some c \<longrightarrow>
        chBuf (offerSig c) = [] \<and> chBuf (stopListeningNewOffer c) = [])"

interpretation late_listener: stable_property hs_step "\<lambda>_. True"
  "\<lambda>hs. orphaned hs r \<and> listeners hs g = Some (ListenLoop h r)" for r g h
proof unfold_locales
  fix s l s'
  assume P: "orphaned s r \<and> listeners s g = Some (ListenLoop h r)" and step: "hs_step l s = Some s'"
  from step show "orphaned s' r \<and> listeners s' g = Some (ListenLoop h r)"
  proof (cases rule: hs_stepE)
    case (gc k ch)
    with P show ?thesis by (auto simp: orphaned_def dest: chkHostIdle_clients)
  next
    case (new_offer k)
    with P show ?thesis
      by (auto simp: orphaned_def handleNewOffer_def split: option.splits if_splits)
  next
    case (listen q ev)
    from listen(2) show ?thesis
    proof (cases rule: ListenNewOffer_cases)
      case (sent err k q)
      with P show ?thesis by (auto simp: orphaned_def split: option.splits)
    qed (use P in \<open>auto simp: orphaned_def chan_take_Some_iff split: if_splits\<close>)
  qed (use P in \<open>auto simp: orphaned_def registerHost_def chan_put_Some_iff split: if_splits\<close>)
qed

text \<open>
  C26: a lost listener. \<open>ListenNewOffer\<close> fetches the client from the manager and marks it
  active in a separate, unlocked step. If the idle check removes the host in between, the
  caller holds a client nobody knows. If at some moment after that no notifier is waiting to signal
  this client and no signal is left in its buffers, the caller stays in its loop for ever, in every
  continuation, even if the host id is registered again and offers for it arrive.
\<close>

theorem late_listener_waits_forever:
  assumes "orphaned hs r" and "listeners hs g = Some (ListenLoop h r)"
    and "exec hs_step ls hs = Some hs'"
  shows "listeners hs' g = Some (ListenLoop h r)"
  using late_listener.exec_keeps [OF assms(3), of r g h] assms(1,2) by (simp add: list_all_iff)

definition late_listener_run :: "hs_label list" where
  "late_listener_run =
     [Manager (NewHost ''h''), Listen 0 (CallListen ''h''), Listen 0 SendRequest,
      Manager HostRequest, Listen 0 GetClient, HostTick HostClientIdleTimeout,
      IdleTimer 1, Manager GcHost, Listen 0 Activate]"

theorem late_listener_waits_forever_witness:
  "\<exists>hs. exec hs_step late_listener_run NewHostServer = Some hs \<and>
     (\<forall>ls hs'. exec hs_step ls hs = Some hs' \<longrightarrow> listeners hs' 0 = Some (ListenLoop ''h'' 0))"
proof -
  obtain hs where "exec hs_step late_listener_run NewHostServer = Some hs"
    and o: "orphaned hs 0" and l: "listeners hs 0 = Some (ListenLoop ''h'' 0)"
    by (simp add: late_listener_run_def hs_step_def NewHostServer_def registerHost_def
        ListenNewOffer.simps client_send_def client_recv_def handleHostClientRequest_def
        idle_timer_def chkHostIdle_def HostClientIdleTimeout_def orphaned_def
        chan_put_def chan_send_def chan_take_def chan_recv_def make_chan_def)
  then show ?thesis using late_listener_waits_forever [OF o l] by blast
qed

section \<open>How long a host stays registered\<close>

text \<open>Until the timeout has passed since time \<open>t\<close>, the host is known and no idle check is due.\<close>

definition guarded :: "duration \<Rightarrow> string \<Rightarrow> host_server \<Rightarrow> bool" where
  "guarded t h hs \<longleftrightarrow>
     t \<le> hsNow hs \<and>
     (t + HostClientIdleTimeout \<le> hsNow hs \<or>
      h \<in> dom (clients hs) \<and> h \<notin> set (chBuf (gcHostCh hs)) \<and>
      (\<forall>i d. idleTimers hs i = Some (h, d) \<longrightarrow> t + HostClientIdleTimeout \<le> d))"

interpretation grace: stable_property hs_step "\<lambda>l. l \<noteq> Manager CloseHost" "guarded t h" for t h
proof unfold_locales
  fix s l s'
  assume P: "guarded t h s" and adm: "l \<noteq> Manager CloseHost" and step: "hs_step l s = Some s'"
  from step show "guarded t h s'"
  proof (cases rule: hs_stepE)
    case (gc k ch)
    with P show ?thesis
      by (auto simp: guarded_def chan_take_Some_iff chkHostIdle_def split: option.splits)
  next
    case (timer i k d ch)
    with P show ?thesis
      by (fastforce simp: guarded_def chan_put_Some_iff)
  next
    case (listen g ev)
    from listen(2) P show ?thesis
      by (cases rule: ListenNewOffer_cases) (auto simp: guarded_def)
  qed (use P adm in \<open>auto simp: guarded_def registerHost_def handleNewOffer_def
        split: if_splits option.splits\<close>)
qed

text \<open>
  the grace period. After \<open>registerHost\<close>, the host stays registered for at least
  \<open>HostClientIdleTimeout\<close> (5 s) on every run without a \<open>closeHostCh\<close> deletion, whatever the
  other goroutines do, provided no earlier idle check of this id is still pending.
\<close>

theorem host_registered_for_the_timeout:
  assumes "\<not> gc_pending hs h" and "exec hs_step ls (registerHost h hs) = Some hs'"
    and "Manager CloseHost \<notin> set ls" and "hsNow hs' < hsNow hs + HostClientIdleTimeout"
  shows "h \<in> dom (clients hs')"
proof -
  have "guarded (hsNow hs) h (registerHost h hs)"
    using assms(1) by (auto simp: guarded_def gc_pending_def registerHost_def)
  moreover have "list_all (\<lambda>l. l \<noteq> Manager CloseHost) ls" using assms(3) by (auto simp: list_all_iff)
  ultimately have "guarded (hsNow hs) h hs'" by (rule grace.exec_keeps [OF assms(2)])
  with assms(4) show ?thesis by (auto simp: guarded_def)
qed

theorem host_registered_for_the_timeout_witness:
  "\<exists>hs'. exec hs_step [HostTick (4 * second), Manager (NewHost ''k'')]
       (registerHost ''h'' NewHostServer) = Some hs' \<and> ''h'' \<in> dom (clients hs')"
proof -
  obtain hs' where e: "exec hs_step [HostTick (4 * second), Manager (NewHost ''k'')]
       (registerHost ''h'' NewHostServer) = Some hs'" and n: "hsNow hs' = 4 * second"
    by (simp add: hs_step_def NewHostServer_def registerHost_def)
  have "''h'' \<in> dom (clients hs')"
    by (rule host_registered_for_the_timeout [OF _ e])
      (simp_all add: n gc_pending_def NewHostServer_def HostClientIdleTimeout_def)
  with e show ?thesis by blast
qed

definition active :: "string \<Rightarrow> nat \<Rightarrow> host_server \<Rightarrow> bool" where
  "active h r hs \<longleftrightarrow>
     r < hsNext hs \<and> clients hs h = Some r \<and>
     (\<exists>c. hsHeap hs r = Some c \<and> hcStatus c = hostClientStatusActive)"

interpretation stays_active: stable_property hs_step
  "\<lambda>l. l \<noteq> Manager CloseHost \<and> l \<noteq> Manager (NewHost h)" "active h r" for h r
proof unfold_locales
  fix s l s'
  assume P: "active h r s" and adm: "l \<noteq> Manager CloseHost \<and> l \<noteq> Manager (NewHost h)"
    and step: "hs_step l s = Some s'"
  from step show "active h r s'"
  proof (cases rule: hs_stepE)
    case (gc k ch)
    with P show ?thesis
      by (auto simp: active_def chkHostIdle_def split: option.splits if_splits)
  next
    case (listen g ev)
    from listen(2) P show ?thesis
      by (cases rule: ListenNewOffer_cases) (auto simp: active_def)
  qed (use P adm in \<open>auto simp: active_def registerHost_def handleNewOffer_def
        split: if_splits option.splits\<close>)
qed

text \<open>
  an active host is never collected. Once a listener has marked the registered host
  active, no idle check removes it any more, on any run that does not register the id again
  or delete it through \<open>closeHostCh\<close>; nothing ever resets the status, so this holds even
  after the listener's stream has failed and \<open>ListenNewOffer\<close> has returned.
\<close>

theorem active_host_is_never_collected:
  assumes "active h r hs" and "exec hs_step ls hs = Some hs'"
    and "Manager CloseHost \<notin> set ls" and "Manager (NewHost h) \<notin> set ls"
  shows "active h r hs'"
  by (rule stays_active.exec_keeps [OF assms(2,1)]) (use assms(3,4) in \<open>auto simp: list_all_iff\<close>)

definition listening_run :: "hs_label list" where
  "listening_run =
     [Manager (NewHost ''h''), Listen 0 (CallListen ''h''), Listen 0 SendRequest,
      Manager HostRequest, Listen 0 GetClient, Listen 0 Activate]"

definition failed_stream_run :: "hs_label list" where
  "failed_stream_run =
     [Manager (NewOffer ''h''), NotifySignal 2, Listen 0 RecvOffer,
      Listen 0 (StreamSent (Some EOF)), HostTick HostClientIdleTimeout, IdleTimer 1, Manager GcHost]"

lemmas hs_eval =
  hs_step_def NewHostServer_def registerHost_def ListenNewOffer.simps client_send_def
  client_recv_def handleHostClientRequest_def handleNewOffer_def notify_signal_def
  idle_timer_def chkHostIdle_def HostClientIdleTimeout_def
  chan_put_def chan_send_def chan_take_def chan_recv_def make_chan_def

theorem active_host_is_never_collected_witness:
  "\<exists>hs hs'. exec hs_step listening_run NewHostServer = Some hs \<and>
     exec hs_step failed_stream_run hs = Some hs' \<and>
     listeners hs' 0 = Some (ListenDone (Some EOF)) \<and> active ''h'' 0 hs'"
proof -
  obtain hs hs' where hs: "exec hs_step listening_run NewHostServer = Some hs" "active ''h'' 0 hs"
    and hs': "exec hs_step failed_stream_run hs = Some hs'"
      "listeners hs' 0 = Some (ListenDone (Some EOF))"
    by (simp add: listening_run_def failed_stream_run_def hs_eval active_def)
  have "active ''h'' 0 hs'"
    by (rule active_host_is_never_collected [OF hs(2) hs'(1)]) (simp_all add: failed_stream_run_def)
  with hs hs' show ?thesis by blast
qed

section \<open>Refinement of an abstract registry\<close>

text \<open>
  The registry as a client of the package sees it: hosts with their status, and four
  operations. An idle check of an unknown host is the crash of the code.
\<close>

record registry =
  regHosts :: "string \<rightharpoonup> hostClientStatus"
  regCrashed :: bool

datatype registry_op = AddHost string | ActivateHost string | CheckIdle string | DropHost string

fun registry_step :: "registry_op \<Rightarrow> registry \<Rightarrow> registry option" where
  "registry_step (AddHost h) m = Some (m\<lparr>regHosts := (regHosts m)(h \<mapsto> hostClientStatusIdle)\<rparr>)"
| "registry_step (ActivateHost h) m =
     (if h \<in> dom (regHosts m)
      then Some (m\<lparr>regHosts := (regHosts m)(h \<mapsto> hostClientStatusActive)\<rparr>) else None)"
| "registry_step (CheckIdle h) m =
     (case regHosts m h of
        None \<Rightarrow> Some (m\<lparr>regCrashed := True\<rparr>)
      | Some hostClientStatusIdle \<Rightarrow> Some (m\<lparr>regHosts := (regHosts m)(h := None)\<rparr>)
      | Some hostClientStatusActive \<Rightarrow> Some m)"
| "registry_step (DropHost h) m = Some (m\<lparr>regHosts := (regHosts m)(h := None)\<rparr>)"

definition status_of :: "host_server \<Rightarrow> string \<rightharpoonup> hostClientStatus" where
  "status_of hs h = Option.bind (clients hs h) (\<lambda>r. map_option hcStatus (hsHeap hs r))"

definition registry_of :: "host_server \<Rightarrow> registry" where
  "registry_of hs = \<lparr>regHosts = status_of hs, regCrashed = hsCrashed hs\<rparr>"

text \<open>
  The operation a step performs; everything that is not a change of the registry performs
  none, also the activation of a client that is not the host's registered one.
\<close>

definition registry_ops :: "hs_label \<Rightarrow> host_server \<Rightarrow> registry_op list" where
  "registry_ops l hs =
     (case l of
        Manager (NewHost h) \<Rightarrow> [AddHost h]
      | Manager GcHost \<Rightarrow> (case chBuf (gcHostCh hs) of h # _ \<Rightarrow> [CheckIdle h] | [] \<Rightarrow> [])
      | Manager CloseHost \<Rightarrow> (case chBuf (closeHostCh hs) of h # _ \<Rightarrow> [DropHost h] | [] \<Rightarrow> [])
      | Listen g Activate \<Rightarrow>
          (case listeners hs g of
             Some (ListenActivating h r) \<Rightarrow> if clients hs h = Some r then [ActivateHost h] else []
           | _ \<Rightarrow> [])
      | _ \<Rightarrow> [])"

lemma status_of_cell:
  assumes "hsHeap hs' = (hsHeap hs)(r \<mapsto> c')" and "hsHeap hs r = Some c"
    and "hcStatus c' = hcStatus c" and "clients hs' = clients hs"
  shows "status_of hs' = status_of hs"
  using assms by (auto simp: status_of_def fun_eq_iff bind_eq_None_conv split: Option.bind_splits)

lemma status_of_same:
  "clients hs' = clients hs \<Longrightarrow> hsHeap hs' = hsHeap hs \<Longrightarrow> status_of hs' = status_of hs"
  by (simp add: status_of_def fun_eq_iff)

lemma status_of_registered:
  "hs_inv hs \<Longrightarrow> status_of hs h = None \<longleftrightarrow> clients hs h = None"
  using hs_inv_registered [of hs h] by (auto simp: status_of_def split: Option.bind_splits)

lemma status_of_registerHost:
  assumes "hs_inv hs"
  shows "status_of (registerHost h hs) = (status_of hs)(h \<mapsto> hostClientStatusIdle)"
  using hs_inv_registered [OF assms]
  by (fastforce simp: status_of_def registerHost_def fun_eq_iff split: Option.bind_splits)

lemma status_of_chkHostIdle:
  assumes "hs_inv hs"
  shows "status_of (chkHostIdle h hs) =
      (if status_of hs h = Some hostClientStatusIdle then (status_of hs)(h := None) else status_of hs)"
    and "hsCrashed (chkHostIdle h hs) \<longleftrightarrow> hsCrashed hs \<or> status_of hs h = None"
  using hs_inv_registered [OF assms, of h] status_of_registered [OF assms, of h]
  by (auto simp: chkHostIdle_def status_of_def fun_eq_iff split: option.splits)

lemma status_of_activate:
  assumes inv: "hs_inv hs" and c: "hsHeap hs r = Some c"
    and l: "listeners hs g = Some (ListenActivating h r)"
    and hs': "clients hs' = clients hs"
      "hsHeap hs' = (hsHeap hs)(r \<mapsto> c\<lparr>hcStatus := hostClientStatusActive\<rparr>)"
  shows "status_of hs' =
    (if clients hs h = Some r then (status_of hs)(h \<mapsto> hostClientStatusActive) else status_of hs)"
proof
  fix k
  have "hs_holds hs r h" using l by (auto simp: hs_holds_def)
  then have "k = h" if "clients hs k = Some r"
    using hs_inv_same_host [OF inv, of r h k] that by (auto simp: hs_holds_def)
  then show "status_of hs' k =
    (if clients hs h = Some r then (status_of hs)(h \<mapsto> hostClientStatusActive) else status_of hs) k"
    using c by (cases "clients hs k") (auto simp: status_of_def hs')
qed

lemma hs_inv_gcHostCh [simp]: "hs_inv (hs\<lparr>gcHostCh := ch\<rparr>) \<longleftrightarrow> hs_inv hs"
proof -
  have "hs_holds (hs\<lparr>gcHostCh := ch\<rparr>) = hs_holds hs"
    by (intro ext) (simp add: hs_holds_def)
  moreover have "requests_wf (hs\<lparr>gcHostCh := ch\<rparr>) = requests_wf hs"
    by (simp add: requests_wf_def)
  ultimately show ?thesis by (simp add: hs_inv_def hsown.owned_def heap_wf_def)
qed

interpretation registry_sim: simulation hs_step registry_step registry_of registry_ops hs_inv
proof unfold_locales
  show "hs_inv s'" if "hs_inv s" "hs_step l s = Some s'" for s l s'
    using hsinv.step_keeps [OF that(1) _ that(2)] by simp
next
  fix s l s' assume inv: "hs_inv s" and step: "hs_step l s = Some s'"
  have run: "\<not> hsCrashed s" by (rule hs_step_running [OF step])
  from step show "exec registry_step (registry_ops l s) (registry_of s) = Some (registry_of s')"
  proof (cases rule: hs_stepE)
    case (new_host h)
    with inv run show ?thesis by (simp add: registry_ops_def registry_of_def status_of_registerHost)
  next
    case (gc h ch)
    let ?t = "s\<lparr>gcHostCh := ch\<rparr>"
    have t: "hs_inv ?t" using inv by simp
    have same: "status_of ?t = status_of s" by (rule status_of_same) simp_all
    show ?thesis
      using gc run status_of_chkHostIdle [OF t, of h]
      by (auto simp: same registry_ops_def registry_of_def chan_take_Some_iff
          split: option.splits hostClientStatus.splits)
  next
    case (closed h ch)
    then show ?thesis
      using run by (auto simp: registry_ops_def registry_of_def chan_take_Some_iff status_of_def fun_eq_iff)
  next
    case (new_offer h)
    then show ?thesis
      using run status_of_same [of s' s] by (simp add: registry_ops_def registry_of_def)
  next
    case (signal i r h d c ch)
    have "status_of s' = status_of s"
      by (rule status_of_cell [of s' s r "c\<lparr>offerSig := ch\<rparr>" c]) (use signal in simp_all)
    with signal run show ?thesis by (simp add: registry_ops_def registry_of_def)
  next
    case (listen g ev)
    from listen(2) show ?thesis
    proof (cases rule: ListenNewOffer_cases)
      case (activate h r c)
      then have "status_of s' =
          (if clients s h = Some r then (status_of s)(h \<mapsto> hostClientStatusActive) else status_of s)"
        by (intro status_of_activate [OF inv]) simp_all
      moreover have "clients s h = Some r \<Longrightarrow> h \<in> dom (status_of s)"
        using status_of_registered [OF inv, of h] by auto
      ultimately show ?thesis
        using listen(1) activate run by (simp add: registry_ops_def registry_of_def)
    next
      case (stop h r c ch)
      have "status_of s' = status_of s"
        by (rule status_of_cell [of s' s r "c\<lparr>stopListeningNewOffer := ch\<rparr>" c]) (use stop in simp_all)
      with listen(1) stop run show ?thesis by (simp add: registry_ops_def registry_of_def)
    next
      case (offer h r c ch)
      have "status_of s' = status_of s"
        by (rule status_of_cell [of s' s r "c\<lparr>offerSig := ch\<rparr>" c]) (use offer in simp_all)
      with listen(1) offer run show ?thesis by (simp add: registry_ops_def registry_of_def)
    qed (use listen(1) run status_of_same [of s' s] in
        \<open>simp_all add: registry_ops_def registry_of_def\<close>)
  qed (use run status_of_same [of s' s] in \<open>simp_all add: registry_ops_def registry_of_def\<close>)
qed

text \<open>
  C17: the host server implements the abstract registry. Every run is matched by the run of the
  abstract registry over the operations its steps perform: registration adds an idle host,
  the idle check removes exactly the idle ones (and crashes on unknown ones), activation
  through a stale client pointer has no effect, requests, offers and signals change nothing.
\<close>

theorem host_server_refines_registry:
  assumes "exec hs_step ls NewHostServer = Some hs"
  shows "exec registry_step (abstract_trace hs_step registry_ops ls NewHostServer)
      \<lparr>regHosts = Map.empty, regCrashed = False\<rparr> = Some (registry_of hs)"
proof -
  have "registry_of NewHostServer = \<lparr>regHosts = Map.empty, regCrashed = False\<rparr>"
    by (simp add: registry_of_def status_of_def NewHostServer_def fun_eq_iff)
  with registry_sim.exec_sim [OF assms hsinv.start_holds] show ?thesis by simp
qed

theorem host_server_refines_registry_witness:
  "\<exists>hs. exec hs_step listening_run NewHostServer = Some hs \<and>
     exec registry_step [AddHost ''h'', ActivateHost ''h'']
       \<lparr>regHosts = Map.empty, regCrashed = False\<rparr> = Some (registry_of hs)"
proof -
  obtain hs where hs: "exec hs_step listening_run NewHostServer = Some hs"
    by (simp add: listening_run_def hs_eval)
  have "abstract_trace hs_step registry_ops listening_run NewHostServer =
      [AddHost ''h'', ActivateHost ''h'']"
    by (simp add: listening_run_def hs_eval registry_ops_def)
  with host_server_refines_registry [OF hs] hs show ?thesis by auto
qed

end
