(* ===== verification/Offerer.thy ===== *)
theory Offerer
  imports ProtoMsg GoChan
begin

text \<open>
  The offerer service, \<^verbatim>\<open>server/offerer.go\<close>: the signalling server's side towards the
  connecting client. Its state is the two maps from answerer ids to unbuffered channels, its
  goroutines are the RPC handlers, the clean-up timers of \<open>SendOffer\<close>, and the two routers
  that take packets from the channels shared with the answerer service (the record \<open>bus\<close>)
  and hand each one to the handler that waits for its id.

  An unbuffered channel is a reference without contents: a send completes only together with
  a receive on the same reference, so a hand-over is one step of two goroutines
  (\<open>AnswerDelivered\<close>, \<open>IceDelivered\<close>). Sections under the mutex contain only map operations
  and are one step each. The hand-overs on \<open>notifyNewOfferCh\<close>, \<open>offerCh\<close> and
  \<open>closeIceToAnsCh\<close> are steps whose partner is another component. Labels also carry the
  results of \<open>Recv\<close> and \<open>Send\<close> on the gRPC streams, the fresh uuids, the cancellation of a
  call by its client, and the passing of time.
\<close>

section \<open>Packets, channels between the services, timeouts\<close>

record offering =
  off_hostID :: string
  off_answererID :: string
  off_offer :: string

record IcePacket =
  ice_answererID :: string
  iceCandidate :: string

record AnsPacket =
  ans_answererID :: string
  ans_answer :: string

definition waitingForIceCandidateAndAnswerTimeout :: duration where
  "waitingForIceCandidateAndAnswerTimeout = 10 * second"

definition sendOfferTimeout :: duration where
  "sendOfferTimeout = 10 * second"

text \<open>The buffered channels that \<open>server.Serve\<close> makes for the two services.\<close>

record bus =
  answerCh :: "AnsPacket chan"
  iceToAnsCh :: "IcePacket chan"
  iceToOfferCh :: "IcePacket chan"

definition new_bus :: bus where
  "new_bus = \<lparr>answerCh = make_chan 1024, iceToAnsCh = make_chan 1024, iceToOfferCh = make_chan 1024\<rparr>"

section \<open>State\<close>

datatype send_offer_pc =
    SONotify SendOfferRequest string string duration
  | SOOffer SendOfferRequest string string duration
  | SODone "go_error + OfferResponse"

datatype wait_answer_pc =
    WASelect nat WaitForAnswerRequest
  | WADone "go_error + AnswerResponse"

datatype wait_ice_pc =
    WISelect nat WaitForICECandidateRequest duration
  | WISend nat WaitForICECandidateRequest duration string
  | WIClose WaitForICECandidateRequest "go_error option"
  | WIUnregister WaitForICECandidateRequest "go_error option"
  | WIDone "go_error option"

text \<open>The goroutine that one round of \<open>SendIceCandidate\<close> starts, and the handler with it.\<close>

datatype ice_worker = IWRecv | IWForward IcePacket | IWSignal

datatype send_ice_pc =
    IceStream ice_worker
  | IceStreamReturned go_error ice_worker

datatype answer_router = ARIdle | ARSend nat AnsPacket

datatype ice_router = IRIdle | IRSend nat IcePacket

record OffererServer =
  offIceMap :: "string \<rightharpoonup> nat"
  offAnsMap :: "string \<rightharpoonup> nat"
  offBus :: bus
  offCleanups :: "nat \<rightharpoonup> string \<times> duration"
  sendOffers :: "nat \<rightharpoonup> send_offer_pc"
  answerWaits :: "nat \<rightharpoonup> wait_answer_pc"
  iceWaits :: "nat \<rightharpoonup> wait_ice_pc"
  iceSends :: "nat \<rightharpoonup> send_ice_pc"
  answerRouterPc :: answer_router
  iceRouterPc :: ice_router
  offNext :: nat
  offNow :: duration

definition NewOffererServer :: "bus \<Rightarrow> OffererServer" where
  "NewOffererServer b =
     \<lparr>offIceMap = Map.empty, offAnsMap = Map.empty, offBus = b, offCleanups = Map.empty,
      sendOffers = Map.empty, answerWaits = Map.empty, iceWaits = Map.empty,
      iceSends = Map.empty, answerRouterPc = ARIdle, iceRouterPc = IRIdle,
      offNext = 0, offNow = 0\<rparr>"

section \<open>SendOffer\<close>

datatype send_offer_event =
    SOCall SendOfferRequest string string
  | SONotified
  | SOTaken
  | SOCtxDone bool

text \<open>
  The prologue: both channels are made and registered under the new answerer id, and the
  clean-up goroutine is started.
\<close>

definition SendOffer_begin ::
  "nat \<Rightarrow> SendOfferRequest \<Rightarrow> string \<Rightarrow> string \<Rightarrow> OffererServer \<Rightarrow> OffererServer" where
  "SendOffer_begin g req ansID offID s =
     s\<lparr>offIceMap := (offIceMap s)(ansID \<mapsto> offNext s),
       offAnsMap := (offAnsMap s)(ansID \<mapsto> Suc (offNext s)),
       offCleanups := (offCleanups s)(offNext s \<mapsto>
         (ansID, offNow s + waitingForIceCandidateAndAnswerTimeout)),
       sendOffers := (sendOffers s)(g \<mapsto> SONotify req ansID offID (offNow s + sendOfferTimeout)),
       offNext := Suc (Suc (offNext s))\<rparr>"

text \<open>
  \<open>SONotified\<close> and \<open>SOTaken\<close> are the two hand-overs, \<open>SOCtxDone c\<close> the other branch of both
  selects: the deadline has passed, or the caller has cancelled (\<open>c\<close>).
\<close>

fun SendOffer :: "nat \<Rightarrow> send_offer_event \<Rightarrow> OffererServer \<Rightarrow> OffererServer option" where
  "SendOffer g ev s =
     (case (ev, sendOffers s g) of
        (SOCall req ansID offID, None) \<Rightarrow> Some (SendOffer_begin g req ansID offID s)
      | (SONotified, Some (SONotify req ansID offID d)) \<Rightarrow>
          Some (s\<lparr>sendOffers := (sendOffers s)(g \<mapsto> SOOffer req ansID offID d)\<rparr>)
      | (SOTaken, Some (SOOffer req ansID offID d)) \<Rightarrow>
          Some (s\<lparr>sendOffers := (sendOffers s)(g \<mapsto> SODone (Inr
            \<lparr>OfferResponse_OffererId = offID, OfferResponse_AnswererId = ansID,
             OfferResponse_Body = ''''\<rparr>))\<rparr>)
      | (SOCtxDone cancelled, Some (SONotify req ansID offID d)) \<Rightarrow>
          if cancelled \<or> d \<le> offNow s
          then Some (s\<lparr>sendOffers := (sendOffers s)(g \<mapsto>
            SODone (Inl (Status DeadlineExceeded ''timeout'')))\<rparr>)
          else None
      | (SOCtxDone cancelled, Some (SOOffer req ansID offID d)) \<Rightarrow>
          if cancelled \<or> d \<le> offNow s
          then Some (s\<lparr>sendOffers := (sendOffers s)(g \<mapsto>
            SODone (Inl (Status DeadlineExceeded ''timeout'')))\<rparr>)
          else None
      | _ \<Rightarrow> None)"

text \<open>What the two hand-overs carry: the host id, and the offering.\<close>

definition notify_value :: "OffererServer \<Rightarrow> nat \<Rightarrow> string option" where
  "notify_value s g =
     (case sendOffers s g of
        Some (SONotify req ansID offID d) \<Rightarrow> Some (SendOfferRequest_HostId req)
      | _ \<Rightarrow> None)"

definition offer_value :: "OffererServer \<Rightarrow> nat \<Rightarrow> offering option" where
  "offer_value s g =
     (case sendOffers s g of
        Some (SOOffer req ansID offID d) \<Rightarrow>
          Some \<lparr>off_hostID = SendOfferRequest_GetHostId (Some req), off_answererID = ansID,
                off_offer = SendOfferRequest_GetOffer (Some req)\<rparr>
      | _ \<Rightarrow> None)"

definition SendOffer_cleanup :: "nat \<Rightarrow> OffererServer \<Rightarrow> OffererServer option" where
  "SendOffer_cleanup i s =
     (case offCleanups s i of
        None \<Rightarrow> None
      | Some (ansID, deadline) \<Rightarrow>
          if deadline \<le> offNow s
          then Some (s\<lparr>offIceMap := (offIceMap s)(ansID := None),
                       offAnsMap := (offAnsMap s)(ansID := None),
                       offCleanups := (offCleanups s)(i := None)\<rparr>)
          else None)"

section \<open>WaitForAnswer and WaitForICECandidate\<close>

datatype wait_answer_event = WACall WaitForAnswerRequest | WACtxDone

fun WaitForAnswer :: "nat \<Rightarrow> wait_answer_event \<Rightarrow> OffererServer \<Rightarrow> OffererServer option" where
  "WaitForAnswer g ev s =
     (case (ev, answerWaits s g) of
        (WACall req, None) \<Rightarrow>
          Some (s\<lparr>answerWaits := (answerWaits s)(g \<mapsto>
            (case offAnsMap s (WaitForAnswerRequest_AnswererId req) of
               None \<Rightarrow> WADone (Inl (Status NotFound ''answerer not found''))
             | Some ch \<Rightarrow> WASelect ch req))\<rparr>)
      | (WACtxDone, Some (WASelect ch req)) \<Rightarrow>
          Some (s\<lparr>answerWaits := (answerWaits s)(g \<mapsto>
            WADone (Inl (Status DeadlineExceeded ''timeout'')))\<rparr>)
      | _ \<Rightarrow> None)"

datatype wait_ice_event =
    WICall WaitForICECandidateRequest
  | WITimeout
  | WISent "go_error option"
  | WIClosed
  | WIUnregistered

text \<open>
  The deferred function sends the id on \<open>closeIceToAnsCh\<close> (\<open>WIClosed\<close>, a hand-over) and then
  deletes the map entry.
\<close>

fun WaitForICECandidate_off :: "nat \<Rightarrow> wait_ice_event \<Rightarrow> OffererServer \<Rightarrow> OffererServer option" where
  "WaitForICECandidate_off g ev s =
     (case (ev, iceWaits s g) of
        (WICall req, None) \<Rightarrow>
          Some (s\<lparr>iceWaits := (iceWaits s)(g \<mapsto>
            (case offIceMap s (WaitForICECandidateRequest_AnswererId req) of
               None \<Rightarrow> WIDone (Some (Status NotFound ''answerer not found''))
             | Some ch \<Rightarrow>
                 WISelect ch req (offNow s + waitingForIceCandidateAndAnswerTimeout)))\<rparr>)
      | (WITimeout, Some (WISelect ch req d)) \<Rightarrow>
          if d \<le> offNow s
          then Some (s\<lparr>iceWaits := (iceWaits s)(g \<mapsto> WIClose req None)\<rparr>)
          else None
      | (WISent err, Some (WISend ch req d ice)) \<Rightarrow>
          Some (s\<lparr>iceWaits := (iceWaits s)(g \<mapsto>
            (if err = Some EOF then WIClose req None
             else if err \<noteq> None then WIClose req err
             else WISelect ch req d))\<rparr>)
      | (WIClosed, Some (WIClose req res)) \<Rightarrow>
          Some (s\<lparr>iceWaits := (iceWaits s)(g \<mapsto> WIUnregister req res)\<rparr>)
      | (WIUnregistered, Some (WIUnregister req res)) \<Rightarrow>
          Some (s\<lparr>offIceMap := (offIceMap s)(WaitForICECandidateRequest_AnswererId req := None),
                  iceWaits := (iceWaits s)(g \<mapsto> WIDone res)\<rparr>)
      | _ \<Rightarrow> None)"

section \<open>SendIceCandidate\<close>

datatype send_ice_event =
    SICall
  | SIRecv "ReplyToRequest option" "go_error option"
  | SIForward
  | SISignal
  | SICtxDone

text \<open>
  What the goroutine of one round does with the result of \<open>Recv\<close>: a request is forwarded, and
  in every case, errors included, the handler is signalled and starts the next round.
\<close>

definition ice_received :: "ReplyToRequest option \<Rightarrow> go_error option \<Rightarrow> ice_worker" where
  "ice_received req err =
     (case req of
        Some r \<Rightarrow> IWForward \<lparr>ice_answererID = ReplyToRequest_AnswererId r,
                              iceCandidate = ReplyToRequest_Body r\<rparr>
      | None \<Rightarrow> IWSignal)"

text \<open>
  The handler together with its current goroutine. After \<open>SICtxDone\<close> the handler is gone; its
  goroutine may still forward one packet and then waits for a receiver for ever.
\<close>

fun ice_stream ::
  "send_ice_event \<Rightarrow> send_ice_pc option \<Rightarrow> (IcePacket \<Rightarrow> 'b option) \<Rightarrow> 'b \<Rightarrow> (send_ice_pc \<times> 'b) option"
where
  "ice_stream SICall None forward b = Some (IceStream IWRecv, b)"
| "ice_stream (SIRecv req err) (Some (IceStream IWRecv)) forward b =
     Some (IceStream (ice_received req err), b)"
| "ice_stream (SIRecv req err) (Some (IceStreamReturned e IWRecv)) forward b =
     Some (IceStreamReturned e (ice_received req err), b)"
| "ice_stream SIForward (Some (IceStream (IWForward pkt))) forward b =
     map_option (\<lambda>b'. (IceStream IWSignal, b')) (forward pkt)"
| "ice_stream SIForward (Some (IceStreamReturned e (IWForward pkt))) forward b =
     map_option (\<lambda>b'. (IceStreamReturned e IWSignal, b')) (forward pkt)"
| "ice_stream SISignal (Some (IceStream IWSignal)) forward b = Some (IceStream IWRecv, b)"
| "ice_stream SICtxDone (Some (IceStream w)) forward b =
     Some (IceStreamReturned (Status DeadlineExceeded ''timeout'') w, b)"
| "ice_stream _ _ forward b = None"

definition SendIceCandidate_off :: "nat \<Rightarrow> send_ice_event \<Rightarrow> OffererServer \<Rightarrow> OffererServer option" where
  "SendIceCandidate_off g ev s =
     map_option (\<lambda>(pc, b). s\<lparr>iceSends := (iceSends s)(g \<mapsto> pc), offBus := b\<rparr>)
       (ice_stream ev (iceSends s g)
         (\<lambda>pkt. map_option (\<lambda>c. (offBus s)\<lparr>iceToAnsCh := c\<rparr>) (chan_put (iceToAnsCh (offBus s)) pkt))
         (offBus s))"

section \<open>The routers\<close>

text \<open>One round: take a packet and look its channel up; without a channel it is dropped.\<close>

definition answerRouter :: "OffererServer \<Rightarrow> OffererServer option" where
  "answerRouter s =
     (case (answerRouterPc s, chan_take (answerCh (offBus s))) of
        (ARIdle, Some (pkt, c)) \<Rightarrow>
          (let s' = s\<lparr>offBus := (offBus s)\<lparr>answerCh := c\<rparr>\<rparr>
           in case offAnsMap s (ans_answererID pkt) of
                None \<Rightarrow> Some s'
              | Some ch \<Rightarrow> Some (s'\<lparr>answerRouterPc := ARSend ch pkt\<rparr>))
      | _ \<Rightarrow> None)"

definition iceCandidateRouter_off :: "OffererServer \<Rightarrow> OffererServer option" where
  "iceCandidateRouter_off s =
     (case (iceRouterPc s, chan_take (iceToOfferCh (offBus s))) of
        (IRIdle, Some (pkt, c)) \<Rightarrow>
          (let s' = s\<lparr>offBus := (offBus s)\<lparr>iceToOfferCh := c\<rparr>\<rparr>
           in case offIceMap s (ice_answererID pkt) of
                None \<Rightarrow> Some s'
              | Some ch \<Rightarrow> Some (s'\<lparr>iceRouterPc := IRSend ch pkt\<rparr>))
      | _ \<Rightarrow> None)"

text \<open>The hand-overs: router and handler meet on the same channel.\<close>

definition answer_handover :: "nat \<Rightarrow> OffererServer \<Rightarrow> OffererServer option" where
  "answer_handover g s =
     (case (answerRouterPc s, answerWaits s g) of
        (ARSend ch pkt, Some (WASelect ch' req)) \<Rightarrow>
          if ch = ch'
          then Some (s\<lparr>answerRouterPc := ARIdle,
            answerWaits := (answerWaits s)(g \<mapsto>
              WADone (Inr \<lparr>AnswerResponse_Answer = ans_answer pkt\<rparr>))\<rparr>)
          else None
      | _ \<Rightarrow> None)"

definition ice_handover :: "nat \<Rightarrow> OffererServer \<Rightarrow> OffererServer option" where
  "ice_handover g s =
     (case (iceRouterPc s, iceWaits s g) of
        (IRSend ch pkt, Some (WISelect ch' req d)) \<Rightarrow>
          if ch = ch'
          then Some (s\<lparr>iceRouterPc := IRIdle,
            iceWaits := (iceWaits s)(g \<mapsto> WISend ch' req d (iceCandidate pkt))\<rparr>)
          else None
      | _ \<Rightarrow> None)"

section \<open>The service as a machine\<close>

text \<open>
  \<open>AnswerArrives\<close>, \<open>IceArrives\<close> and \<open>IceTaken\<close> are the answerer service's ends of the shared
  channels.
\<close>

datatype off_label =
    SendOfferBy nat send_offer_event
  | WaitAnswerBy nat wait_answer_event
  | WaitIceBy nat wait_ice_event
  | SendIceBy nat send_ice_event
  | AnswerRouted
  | IceRouted
  | AnswerDelivered nat
  | IceDelivered nat
  | OffCleanup nat
  | AnswerArrives AnsPacket
  | IceArrives IcePacket
  | IceTaken
  | OffTick duration

fun off_step :: "off_label \<Rightarrow> OffererServer \<Rightarrow> OffererServer option" where
  "off_step (SendOfferBy g ev) s = SendOffer g ev s"
| "off_step (WaitAnswerBy g ev) s = WaitForAnswer g ev s"
| "off_step (WaitIceBy g ev) s = WaitForICECandidate_off g ev s"
| "off_step (SendIceBy g ev) s = SendIceCandidate_off g ev s"
| "off_step AnswerRouted s = answerRouter s"
| "off_step IceRouted s = iceCandidateRouter_off s"
| "off_step (AnswerDelivered g) s = answer_handover g s"
| "off_step (IceDelivered g) s = ice_handover g s"
| "off_step (OffCleanup i) s = SendOffer_cleanup i s"
| "off_step (AnswerArrives pkt) s =
     map_option (\<lambda>c. s\<lparr>offBus := (offBus s)\<lparr>answerCh := c\<rparr>\<rparr>) (chan_put (answerCh (offBus s)) pkt)"
| "off_step (IceArrives pkt) s =
     map_option (\<lambda>c. s\<lparr>offBus := (offBus s)\<lparr>iceToOfferCh := c\<rparr>\<rparr>)
       (chan_put (iceToOfferCh (offBus s)) pkt)"
| "off_step IceTaken s =
     map_option (\<lambda>(_, c). s\<lparr>offBus := (offBus s)\<lparr>iceToAnsCh := c\<rparr>\<rparr>)
       (chan_take (iceToAnsCh (offBus s)))"
| "off_step (OffTick d) s = Some (s\<lparr>offNow := offNow s + d\<rparr>)"

declare SendOffer.simps [simp del] WaitForAnswer.simps [simp del]
  WaitForICECandidate_off.simps [simp del]

section \<open>One step, case by case\<close>

lemma SendOffer_cases:
  assumes "SendOffer g ev s = Some s'"
  obtains (call) req ansID offID where "ev = SOCall req ansID offID" "sendOffers s g = None"
      "s' = SendOffer_begin g req ansID offID s"
  | (move) pc pc' where "sendOffers s g = Some pc" "\<And>r. pc \<noteq> SODone r"
      "s' = s\<lparr>sendOffers := (sendOffers s)(g \<mapsto> pc')\<rparr>"
  using assms
  by (auto simp: SendOffer.simps intro: call move
      split: send_offer_event.splits option.splits send_offer_pc.splits if_splits)

lemma WaitForAnswer_cases:
  assumes "WaitForAnswer g ev s = Some s'"
  obtains (notfound) req where "ev = WACall req" "answerWaits s g = None"
      "offAnsMap s (WaitForAnswerRequest_AnswererId req) = None"
      "s' = s\<lparr>answerWaits := (answerWaits s)(g \<mapsto>
         WADone (Inl (Status NotFound ''answerer not found'')))\<rparr>"
  | (found) req ch where "ev = WACall req" "answerWaits s g = None"
      "offAnsMap s (WaitForAnswerRequest_AnswererId req) = Some ch"
      "s' = s\<lparr>answerWaits := (answerWaits s)(g \<mapsto> WASelect ch req)\<rparr>"
  | (expired) ch req where "ev = WACtxDone" "answerWaits s g = Some (WASelect ch req)"
      "s' = s\<lparr>answerWaits := (answerWaits s)(g \<mapsto>
         WADone (Inl (Status DeadlineExceeded ''timeout'')))\<rparr>"
  using assms
  by (auto simp: WaitForAnswer.simps intro: notfound found expired
      split: wait_answer_event.splits option.splits wait_answer_pc.splits)

lemma WaitForICECandidate_off_cases:
  assumes "WaitForICECandidate_off g ev s = Some s'"
  obtains (notfound) req where "ev = WICall req" "iceWaits s g = None"
      "offIceMap s (WaitForICECandidateRequest_AnswererId req) = None"
      "s' = s\<lparr>iceWaits := (iceWaits s)(g \<mapsto>
         WIDone (Some (Status NotFound ''answerer not found'')))\<rparr>"
  | (found) req ch where "ev = WICall req" "iceWaits s g = None"
      "offIceMap s (WaitForICECandidateRequest_AnswererId req) = Some ch"
      "s' = s\<lparr>iceWaits := (iceWaits s)(g \<mapsto>
         WISelect ch req (offNow s + waitingForIceCandidateAndAnswerTimeout))\<rparr>"
  | (resume) ch req d ice where "ev = WISent None" "iceWaits s g = Some (WISend ch req d ice)"
      "s' = s\<lparr>iceWaits := (iceWaits s)(g \<mapsto> WISelect ch req d)\<rparr>"
  | (leave) pc req res where "iceWaits s g = Some pc" "\<And>r. pc \<noteq> WIDone r"
      "s' = s\<lparr>iceWaits := (iceWaits s)(g \<mapsto> WIClose req res)\<rparr>"
  | (closed) req res where "ev = WIClosed" "iceWaits s g = Some (WIClose req res)"
      "s' = s\<lparr>iceWaits := (iceWaits s)(g \<mapsto> WIUnregister req res)\<rparr>"
  | (unregister) req res where "ev = WIUnregistered" "iceWaits s g = Some (WIUnregister req res)"
      "s' = s\<lparr>offIceMap := (offIceMap s)(WaitForICECandidateRequest_AnswererId req := None),
         iceWaits := (iceWaits s)(g \<mapsto> WIDone res)\<rparr>"
proof (cases ev)
  case (WICall req)
  with assms show thesis
    by (auto simp: WaitForICECandidate_off.simps intro: notfound found split: option.splits)
next
  case WITimeout
  with assms show thesis
    by (auto simp: WaitForICECandidate_off.simps intro: leave
        split: option.splits wait_ice_pc.splits if_splits)
next
  case (WISent err)
  with assms show thesis
    by (auto simp: WaitForICECandidate_off.simps intro: leave resume
        split: option.splits wait_ice_pc.splits if_splits)
next
  case WIClosed
  with assms show thesis
    by (auto simp: WaitForICECandidate_off.simps intro: closed
        split: option.splits wait_ice_pc.splits)
next
  case WIUnregistered
  with assms show thesis
    by (auto simp: WaitForICECandidate_off.simps intro: unregister
        split: option.splits wait_ice_pc.splits)
qed

text \<open>What forwarding keeps of the shared state, the whole handler keeps.\<close>

lemma ice_stream_keeps:
  assumes "ice_stream ev pc forward b = Some (pc', b')"
    and "\<And>pkt c. forward pkt = Some c \<Longrightarrow> f c = f b"
  shows "f b' = f b"
  using assms by (induction ev pc forward b rule: ice_stream.induct) auto

lemma off_stepE:
  assumes "off_step l s = Some s'"
  obtains (send_offer) g ev where "l = SendOfferBy g ev" "SendOffer g ev s = Some s'"
  | (wait_answer) g ev where "l = WaitAnswerBy g ev" "WaitForAnswer g ev s = Some s'"
  | (wait_ice) g ev where "l = WaitIceBy g ev" "WaitForICECandidate_off g ev s = Some s'"
  | (send_ice) g ev pc b where "l = SendIceBy g ev" "answerCh b = answerCh (offBus s)"
      "s' = s\<lparr>iceSends := (iceSends s)(g \<mapsto> pc), offBus := b\<rparr>"
  | (answer_dropped) pkt c where "l = AnswerRouted" "answerRouterPc s = ARIdle"
      "chan_take (answerCh (offBus s)) = Some (pkt, c)" "offAnsMap s (ans_answererID pkt) = None"
      "s' = s\<lparr>offBus := (offBus s)\<lparr>answerCh := c\<rparr>\<rparr>"
  | (answer_routed) pkt c ch where "l = AnswerRouted" "answerRouterPc s = ARIdle"
      "chan_take (answerCh (offBus s)) = Some (pkt, c)"
      "offAnsMap s (ans_answererID pkt) = Some ch"
      "s' = s\<lparr>offBus := (offBus s)\<lparr>answerCh := c\<rparr>, answerRouterPc := ARSend ch pkt\<rparr>"
  | (ice_dropped) pkt c where "l = IceRouted" "iceRouterPc s = IRIdle"
      "chan_take (iceToOfferCh (offBus s)) = Some (pkt, c)"
      "offIceMap s (ice_answererID pkt) = None"
      "s' = s\<lparr>offBus := (offBus s)\<lparr>iceToOfferCh := c\<rparr>\<rparr>"
  | (ice_routed) pkt c ch where "l = IceRouted" "iceRouterPc s = IRIdle"
      "chan_take (iceToOfferCh (offBus s)) = Some (pkt, c)"
      "offIceMap s (ice_answererID pkt) = Some ch"
      "s' = s\<lparr>offBus := (offBus s)\<lparr>iceToOfferCh := c\<rparr>, iceRouterPc := IRSend ch pkt\<rparr>"
  | (answer_delivered) g ch pkt req where "l = AnswerDelivered g"
      "answerRouterPc s = ARSend ch pkt" "answerWaits s g = Some (WASelect ch req)"
      "s' = s\<lparr>answerRouterPc := ARIdle, answerWaits := (answerWaits s)(g \<mapsto>
         WADone (Inr \<lparr>AnswerResponse_Answer = ans_answer pkt\<rparr>))\<rparr>"
  | (ice_delivered) g ch pkt req d where "l = IceDelivered g"
      "iceRouterPc s = IRSend ch pkt" "iceWaits s g = Some (WISelect ch req d)"
      "s' = s\<lparr>iceRouterPc := IRIdle, iceWaits := (iceWaits s)(g \<mapsto>
         WISend ch req d (iceCandidate pkt))\<rparr>"
  | (cleanup) i a d where "l = OffCleanup i" "offCleanups s i = Some (a, d)" "d \<le> offNow s"
      "s' = s\<lparr>offIceMap := (offIceMap s)(a := None), offAnsMap := (offAnsMap s)(a := None),
         offCleanups := (offCleanups s)(i := None)\<rparr>"
  | (shared) b more where "s' = s\<lparr>offBus := b\<rparr>"
      "chBuf (answerCh b) = chBuf (answerCh (offBus s)) @ more"
      "\<And>g ev. l \<noteq> SendOfferBy g ev" "l \<noteq> AnswerRouted"
      "more = [] \<or> (\<exists>pkt. l = AnswerArrives pkt \<and> more = [pkt])"
  | (tick) d where "l = OffTick d" "s' = s\<lparr>offNow := offNow s + d\<rparr>"
proof (cases l)
  case (SendIceBy g ev)
  with assms obtain pc b where "s' = s\<lparr>iceSends := (iceSends s)(g \<mapsto> pc), offBus := b\<rparr>"
    and st: "ice_stream ev (iceSends s g)
         (\<lambda>pkt. map_option (\<lambda>c. (offBus s)\<lparr>iceToAnsCh := c\<rparr>) (chan_put (iceToAnsCh (offBus s)) pkt))
         (offBus s) = Some (pc, b)"
    by (auto simp: SendIceCandidate_off_def)
  moreover from st have "answerCh b = answerCh (offBus s)"
    by (rule ice_stream_keeps) auto
  ultimately show thesis using SendIceBy by (intro send_ice) simp_all
next
  case AnswerRouted
  with assms show thesis
    by (auto simp: answerRouter_def Let_def intro: answer_dropped answer_routed
        split: answer_router.splits option.splits)
next
  case IceRouted
  with assms show thesis
    by (auto simp: iceCandidateRouter_off_def Let_def intro: ice_dropped ice_routed
        split: ice_router.splits option.splits)
next
  case (AnswerDelivered g)
  with assms show thesis
    by (auto simp: answer_handover_def intro: answer_delivered
        split: answer_router.splits option.splits wait_answer_pc.splits if_splits)
next
  case (IceDelivered g)
  with assms show thesis
    by (auto simp: ice_handover_def intro: ice_delivered
        split: ice_router.splits option.splits wait_ice_pc.splits if_splits)
next
  case (OffCleanup i)
  with assms show thesis
    by (auto simp: SendOffer_cleanup_def intro: cleanup split: option.splits if_splits)
next
  case (SendOfferBy g ev)
  with assms show thesis by (intro send_offer) simp_all
next
  case (WaitAnswerBy g ev)
  with assms show thesis by (intro wait_answer) simp_all
next
  case (WaitIceBy g ev)
  with assms show thesis by (intro wait_ice) simp_all
next
  case (AnswerArrives pkt)
  with assms obtain b where "s' = s\<lparr>offBus := b\<rparr>"
    "chBuf (answerCh b) = chBuf (answerCh (offBus s)) @ [pkt]"
    by (auto simp: chan_put_Some_iff)
  with AnswerArrives show thesis by (intro shared [of b "[pkt]"]) simp_all
next
  case (IceArrives pkt)
  with assms obtain b where "s' = s\<lparr>offBus := b\<rparr>"
    "chBuf (answerCh b) = chBuf (answerCh (offBus s)) @ []"
    by (auto simp: chan_put_Some_iff)
  with IceArrives show thesis by (intro shared [of b "[]"]) auto
next
  case IceTaken
  with assms obtain b where "s' = s\<lparr>offBus := b\<rparr>"
    "chBuf (answerCh b) = chBuf (answerCh (offBus s)) @ []"
    by auto
  with IceTaken show thesis by (intro shared [of b "[]"]) auto
next
  case (OffTick d)
  with assms show thesis by (intro tick) auto
qed

end
