(* ===== verification/OffererProps.thy ===== *)
theory OffererProps
  imports Offerer
begin

text \<open>
  What the offerer service of \<^verbatim>\<open>server/offerer.go\<close> guarantees and where it fails: answers and
  ICE candidates reach only the handlers that wait for their id; registered channels are
  cleaned up and stay for the whole timeout; \<open>SendOffer\<close> hands over what it returns; but one
  answer nobody waits for stops the answer router for ever.
\<close>

section \<open>Who holds which channel\<close>

fun wait_answer_holds :: "wait_answer_pc \<Rightarrow> nat \<Rightarrow> string \<Rightarrow> bool" where
  "wait_answer_holds (WASelect ch req) c a \<longleftrightarrow> ch = c \<and> WaitForAnswerRequest_AnswererId req = a"
| "wait_answer_holds (WADone _) c a \<longleftrightarrow> False"

fun wait_ice_holds :: "wait_ice_pc \<Rightarrow> nat \<Rightarrow> string \<Rightarrow> bool" where
  "wait_ice_holds (WISelect ch req _) c a \<longleftrightarrow>
     ch = c \<and> WaitForICECandidateRequest_AnswererId req = a"
| "wait_ice_holds (WISend ch req _ _) c a \<longleftrightarrow>
     ch = c \<and> WaitForICECandidateRequest_AnswererId req = a"
| "wait_ice_holds _ c a \<longleftrightarrow> False"

definition holds_answer_chan :: "OffererServer \<Rightarrow> nat \<Rightarrow> string \<Rightarrow> bool" where
  "holds_answer_chan s ch a \<longleftrightarrow>
     offAnsMap s a = Some ch \<or>
     (\<exists>pkt. answerRouterPc s = ARSend ch pkt \<and> ans_answererID pkt = a) \<or>
     (\<exists>g pc. answerWaits s g = Some pc \<and> wait_answer_holds pc ch a)"

definition holds_ice_chan :: "OffererServer \<Rightarrow> nat \<Rightarrow> string \<Rightarrow> bool" where
  "holds_ice_chan s ch a \<longleftrightarrow>
     offIceMap s a = Some ch \<or>
     (\<exists>pkt. iceRouterPc s = IRSend ch pkt \<and> ice_answererID pkt = a) \<or>
     (\<exists>g pc. iceWaits s g = Some pc \<and> wait_ice_holds pc ch a)"

lemma holds_answer_chan_intros:
  "offAnsMap s a = Some ch \<Longrightarrow> holds_answer_chan s ch a"
  "answerRouterPc s = ARSend ch pkt \<Longrightarrow> holds_answer_chan s ch (ans_answererID pkt)"
  "answerWaits s g = Some (WASelect ch req) \<Longrightarrow>
     holds_answer_chan s ch (WaitForAnswerRequest_AnswererId req)"
  by (force simp: holds_answer_chan_def)+

lemma holds_ice_chan_intros:
  "offIceMap s a = Some ch \<Longrightarrow> holds_ice_chan s ch a"
  "iceRouterPc s = IRSend ch ipkt \<Longrightarrow> holds_ice_chan s ch (ice_answererID ipkt)"
  "iceWaits s g = Some (WISelect ch ireq d) \<Longrightarrow>
     holds_ice_chan s ch (WaitForICECandidateRequest_AnswererId ireq)"
  "iceWaits s g = Some (WISend ch ireq d ice) \<Longrightarrow>
     holds_ice_chan s ch (WaitForICECandidateRequest_AnswererId ireq)"
  by (force simp: holds_ice_chan_def)+

definition new_answerer :: "off_label \<Rightarrow> OffererServer \<Rightarrow> string" where
  "new_answerer l s = (case l of SendOfferBy _ (SOCall _ ansID _) \<Rightarrow> ansID | _ \<Rightarrow> '''')"

lemma offNext_mono:
  assumes "off_step l s = Some s'"
  shows "offNext s \<le> offNext s'"
  using assms
proof (cases rule: off_stepE)
  case (send_offer g ev)
  from send_offer(2) show ?thesis by (cases rule: SendOffer_cases) (auto simp: SendOffer_begin_def)
next
  case (wait_answer g ev)
  from wait_answer(2) show ?thesis by (cases rule: WaitForAnswer_cases) auto
next
  case (wait_ice g ev)
  from wait_ice(2) show ?thesis by (cases rule: WaitForICECandidate_off_cases) auto
qed auto

lemma holds_answer_chan_step:
  assumes "off_step l s = Some s'" and "holds_answer_chan s' ch a"
  shows "holds_answer_chan s ch a \<or>
    (ch = Suc (offNext s) \<and> ch < offNext s' \<and> a = new_answerer l s)"
  using assms(1)
proof (cases rule: off_stepE)
  case (send_offer g ev)
  from send_offer(2) show ?thesis
  proof (cases rule: SendOffer_cases)
    case (call req ansID offID)
    with send_offer(1) assms(2) show ?thesis
      by (auto simp: holds_answer_chan_def SendOffer_begin_def new_answerer_def split: if_splits)
  qed (use assms(2) in \<open>auto simp: holds_answer_chan_def\<close>)
next
  case (wait_answer g ev)
  from wait_answer(2) assms(2) show ?thesis
    by (cases rule: WaitForAnswer_cases) (auto simp: holds_answer_chan_def split: if_splits)
next
  case (wait_ice g ev)
  from wait_ice(2) assms(2) show ?thesis
    by (cases rule: WaitForICECandidate_off_cases) (auto simp: holds_answer_chan_def)
qed (use assms(2) in \<open>auto simp: holds_answer_chan_def split: if_splits\<close>)

lemma holds_ice_chan_step:
  assumes "off_step l s = Some s'" and "holds_ice_chan s' ch a"
  shows "holds_ice_chan s ch a \<or>
    (ch = offNext s \<and> ch < offNext s' \<and> a = new_answerer l s)"
  using assms(1)
proof (cases rule: off_stepE)
  case (send_offer g ev)
  from send_offer(2) show ?thesis
  proof (cases rule: SendOffer_cases)
    case (call req ansID offID)
    with send_offer(1) assms(2) show ?thesis
      by (auto simp: holds_ice_chan_def SendOffer_begin_def new_answerer_def split: if_splits)
  qed (use assms(2) in \<open>auto simp: holds_ice_chan_def\<close>)
next
  case (wait_answer g ev)
  from wait_answer(2) assms(2) show ?thesis
    by (cases rule: WaitForAnswer_cases) (auto simp: holds_ice_chan_def)
next
  case (wait_ice g ev)
  from wait_ice(2) assms(2) have "holds_ice_chan s ch a"
    by (cases rule: WaitForICECandidate_off_cases)
      (fastforce simp: holds_ice_chan_def split: if_splits)+
  then show ?thesis ..
next
  case (ice_delivered g c pkt req d)
  with assms(2) have "holds_ice_chan s ch a"
    by (fastforce simp: holds_ice_chan_def split: if_splits)
  then show ?thesis ..
qed (use assms(2) in \<open>auto simp: holds_ice_chan_def split: if_splits\<close>)

lemma new_offerer_holds_nothing:
  "\<not> holds_answer_chan (NewOffererServer b) ch a" "\<not> holds_ice_chan (NewOffererServer b) ch a"
  by (simp_all add: holds_answer_chan_def holds_ice_chan_def NewOffererServer_def)

interpretation off_answers: channel_ownership off_step offNext "\<lambda>_. True" holds_answer_chan
  new_answerer "NewOffererServer b" for b
  by unfold_locales
    (auto intro: offNext_mono simp: new_offerer_holds_nothing dest: holds_answer_chan_step)

interpretation off_ices: channel_ownership off_step offNext "\<lambda>_. True" holds_ice_chan
  new_answerer "NewOffererServer b" for b
  by unfold_locales
    (auto intro: offNext_mono simp: new_offerer_holds_nothing dest: holds_ice_chan_step)

text \<open>Answers and candidates have channels of their own.\<close>

definition kinds_apart :: "OffererServer \<Rightarrow> bool" where
  "kinds_apart s \<longleftrightarrow> (\<forall>ch a b. \<not> (holds_answer_chan s ch a \<and> holds_ice_chan s ch b))"

lemma kinds_apart_run:
  "exec off_step ls (NewOffererServer b) = Some s \<Longrightarrow> kinds_apart s"
proof (induction rule: exec_trace_induct)
  case start
  show ?case by (simp add: kinds_apart_def new_offerer_holds_nothing)
next
  case (step ls l t u)
  have "False" if "holds_answer_chan u ch x" "holds_ice_chan u ch y" for ch x y
    using holds_answer_chan_step [OF step.hyps(2) that(1)] holds_ice_chan_step [OF step.hyps(2) that(2)]
      off_answers.exec_allocated [OF step.hyps(1)] off_ices.exec_allocated [OF step.hyps(1)] step.IH
    by (fastforce simp: kinds_apart_def)
  then show ?case by (auto simp: kinds_apart_def)
qed

section \<open>Routing\<close>

lemma answer_handover_matches:
  assumes "exec off_step ls (NewOffererServer b) = Some s"
    and "answerRouterPc s = ARSend ch pkt" and "answerWaits s g = Some (WASelect c req)"
    and "off_step (AnswerDelivered g) s = Some s'"
  shows "ans_answererID pkt = WaitForAnswerRequest_AnswererId req \<and>
    answerWaits s' g = Some (WADone (Inr \<lparr>AnswerResponse_Answer = ans_answer pkt\<rparr>))"
proof -
  have eq: "ch = c" and fin: "answerWaits s' g = Some (WADone (Inr \<lparr>AnswerResponse_Answer = ans_answer pkt\<rparr>))"
    using assms(2,3,4) by (auto simp: answer_handover_def split: if_splits)
  have "ans_answererID pkt = WaitForAnswerRequest_AnswererId req"
    by (rule off_answers.exec_owner_unique [OF assms(1), of ch])
      (use assms(2,3) eq in \<open>auto intro: holds_answer_chan_intros\<close>)
  with fin show ?thesis by simp
qed

text \<open>
  answers reach only their addressee. Whatever the interleaving of calls, clean-ups and
  reuse of ids, when the answer router can hand its packet to a waiting \<open>WaitForAnswer\<close>, the
  packet's answerer id is the id that call asked for, and the call returns this packet's
  answer.
\<close>

theorem answer_reaches_its_addressee:
  assumes "exec off_step ls (NewOffererServer b) = Some s"
    and "answerRouterPc s = ARSend ch pkt" and "answerWaits s g = Some (WASelect c req)"
    and "off_step (AnswerDelivered g) s = Some s'"
  shows "ans_answererID pkt = WaitForAnswerRequest_AnswererId req \<and>
    answerWaits s' g = Some (WADone (Inr \<lparr>AnswerResponse_Answer = ans_answer pkt\<rparr>))"
  by (rule answer_handover_matches [OF assms(1-4)])

definition answer_run :: "off_label list" where
  "answer_run =
     [SendOfferBy 0 (SOCall \<lparr>SendOfferRequest_Token = None, SendOfferRequest_HostId = ''h'',
        SendOfferRequest_Offer = ''sdp''\<rparr> ''a1'' ''o1''),
      WaitAnswerBy 1 (WACall \<lparr>WaitForAnswerRequest_Token = None,
        WaitForAnswerRequest_AnswererId = ''a1''\<rparr>),
      AnswerArrives \<lparr>ans_answererID = ''a1'', ans_answer = ''ok''\<rparr>, AnswerRouted]"

lemmas off_eval =
  NewOffererServer_def SendOffer.simps SendOffer_begin_def SendOffer_cleanup_def
  WaitForAnswer.simps WaitForICECandidate_off.simps SendIceCandidate_off_def answerRouter_def
  iceCandidateRouter_off_def answer_handover_def ice_handover_def new_bus_def
  sendOfferTimeout_def waitingForIceCandidateAndAnswerTimeout_def
  chan_put_def chan_send_def chan_take_def chan_recv_def make_chan_def

theorem answer_reaches_its_addressee_witness:
  "\<exists>s s'. exec off_step answer_run (NewOffererServer new_bus) = Some s \<and>
     off_step (AnswerDelivered 1) s = Some s' \<and>
     answerWaits s' 1 = Some (WADone (Inr \<lparr>AnswerResponse_Answer = ''ok''\<rparr>))"
proof -
  obtain s s' where s: "exec off_step answer_run (NewOffererServer new_bus) = Some s"
    and r: "answerRouterPc s = ARSend 1 \<lparr>ans_answererID = ''a1'', ans_answer = ''ok''\<rparr>"
    and w: "answerWaits s 1 = Some (WASelect 1 \<lparr>WaitForAnswerRequest_Token = None,
        WaitForAnswerRequest_AnswererId = ''a1''\<rparr>)"
    and d: "off_step (AnswerDelivered 1) s = Some s'"
    by (simp add: answer_run_def off_eval)
  with answer_reaches_its_addressee [OF s r w d] show ?thesis by auto
qed

text \<open>
  ICE candidates reach only their addressee: a candidate handed to \<open>WaitForICECandidate\<close> is
  one whose packet carries the answerer id the call asked for.
\<close>

theorem ice_reaches_its_addressee:
  assumes "exec off_step ls (NewOffererServer b) = Some s"
    and "iceRouterPc s = IRSend ch pkt" and "iceWaits s g = Some (WISelect c req d)"
    and "off_step (IceDelivered g) s = Some s'"
  shows "ice_answererID pkt = WaitForICECandidateRequest_AnswererId req \<and>
    iceWaits s' g = Some (WISend c req d (iceCandidate pkt))"
proof -
  have eq: "ch = c" and fin: "iceWaits s' g = Some (WISend c req d (iceCandidate pkt))"
    using assms(2,3,4) by (auto simp: ice_handover_def split: if_splits)
  have "ice_answererID pkt = WaitForICECandidateRequest_AnswererId req"
    by (rule off_ices.exec_owner_unique [OF assms(1), of ch])
      (use assms(2,3) eq in \<open>auto intro: holds_ice_chan_intros\<close>)
  with fin show ?thesis by simp
qed

definition ice_run :: "off_label list" where
  "ice_run =
     [SendOfferBy 0 (SOCall \<lparr>SendOfferRequest_Token = None, SendOfferRequest_HostId = ''h'',
        SendOfferRequest_Offer = ''sdp''\<rparr> ''a1'' ''o1''),
      WaitIceBy 1 (WICall \<lparr>WaitForICECandidateRequest_Token = None,
        WaitForICECandidateRequest_AnswererId = ''a1''\<rparr>),
      IceArrives \<lparr>ice_answererID = ''a1'', iceCandidate = ''cand''\<rparr>, IceRouted]"

theorem ice_reaches_its_addressee_witness:
  "\<exists>s s' req d. exec off_step ice_run (NewOffererServer new_bus) = Some s \<and>
     off_step (IceDelivered 1) s = Some s' \<and> iceWaits s' 1 = Some (WISend 0 req d ''cand'')"
proof -
  obtain s s' d where s: "exec off_step ice_run (NewOffererServer new_bus) = Some s"
    and r: "iceRouterPc s = IRSend 0 \<lparr>ice_answererID = ''a1'', iceCandidate = ''cand''\<rparr>"
    and w: "iceWaits s 1 = Some (WISelect 0 \<lparr>WaitForICECandidateRequest_Token = None,
        WaitForICECandidateRequest_AnswererId = ''a1''\<rparr> d)"
    and e: "off_step (IceDelivered 1) s = Some s'"
    by (simp add: ice_run_def off_eval)
  with ice_reaches_its_addressee [OF s r w e] show ?thesis by auto
qed

section \<open>The blocked router\<close>

text \<open>
  The router holds a packet for a channel that is in no map and that nobody waits on. The
  calls in \<open>A\<close> are the ones that had their answer already, \<open>q\<close> the packets queued.
\<close>

definition answer_router_stuck ::
  "nat \<Rightarrow> AnsPacket \<Rightarrow> (nat \<Rightarrow> AnswerResponse \<Rightarrow> bool) \<Rightarrow> AnsPacket list \<Rightarrow> OffererServer \<Rightarrow> bool"
where
  "answer_router_stuck ch pkt A q s \<longleftrightarrow>
     answerRouterPc s = ARSend ch pkt \<and> ch < offNext s \<and>
     (\<forall>a. offAnsMap s a \<noteq> Some ch) \<and>
     (\<forall>g req. answerWaits s g \<noteq> Some (WASelect ch req)) \<and>
     (\<forall>g res. answerWaits s g = Some (WADone (Inr res)) \<longrightarrow> A g res) \<and>
     (\<exists>more. chBuf (answerCh (offBus s)) = q @ more)"

interpretation stuck_router: stable_property off_step "\<lambda>_. True" "answer_router_stuck ch pkt A q"
  for ch pkt A q
proof unfold_locales
  fix s l s'
  assume P: "answer_router_stuck ch pkt A q s" and step: "off_step l s = Some s'"
  from step show "answer_router_stuck ch pkt A q s'"
  proof (cases rule: off_stepE)
    case (send_offer g ev)
    from send_offer(2) P show ?thesis
      by (cases rule: SendOffer_cases)
        (auto simp: answer_router_stuck_def SendOffer_begin_def split: if_splits)
  next
    case (wait_answer g ev)
    from wait_answer(2) P show ?thesis
      by (cases rule: WaitForAnswer_cases) (auto simp: answer_router_stuck_def split: if_splits)
  next
    case (wait_ice g ev)
    from wait_ice(2) P show ?thesis
      by (cases rule: WaitForICECandidate_off_cases) (auto simp: answer_router_stuck_def)
  qed (use P in \<open>auto simp: answer_router_stuck_def split: if_splits\<close>)
qed

text \<open>
  C27: one abandoned answer stops all answers. If the answer router is about to send on a
  channel whose clean-up has run and on which no call waits, then in every continuation it
  stays there: no \<open>WaitForAnswer\<close> call, of any client, ever returns an answer again, and no
  packet queued behind it is ever taken.
\<close>

theorem abandoned_answer_blocks_all:
  assumes "answerRouterPc s = ARSend ch pkt" and "ch < offNext s" and "\<forall>a. offAnsMap s a \<noteq> Some ch"
    and "\<forall>g req. answerWaits s g \<noteq> Some (WASelect ch req)"
    and "exec off_step ls s = Some s'"
  shows "answerRouterPc s' = ARSend ch pkt \<and>
    (answerWaits s' g = Some (WADone (Inr res)) \<longrightarrow> answerWaits s g = Some (WADone (Inr res))) \<and>
    (\<exists>more. chBuf (answerCh (offBus s')) = chBuf (answerCh (offBus s)) @ more)"
proof -
  let ?A = "\<lambda>g res. answerWaits s g = Some (WADone (Inr res))"
  let ?q = "chBuf (answerCh (offBus s))"
  have "answer_router_stuck ch pkt ?A ?q s" using assms(1-4) by (simp add: answer_router_stuck_def)
  then have "answer_router_stuck ch pkt ?A ?q s'"
    using stuck_router.exec_keeps [OF assms(5)] by (simp add: list_all_iff)
  then show ?thesis by (auto simp: answer_router_stuck_def)
qed

definition abandoned_run :: "off_label list" where
  "abandoned_run =
     [SendOfferBy 0 (SOCall \<lparr>SendOfferRequest_Token = None, SendOfferRequest_HostId = ''h'',
        SendOfferRequest_Offer = ''sdp''\<rparr> ''a1'' ''o1''),
      AnswerArrives \<lparr>ans_answererID = ''a1'', ans_answer = ''late''\<rparr>, AnswerRouted,
      OffTick (10 * second), OffCleanup 0]"

theorem abandoned_answer_blocks_all_witness:
  "\<exists>s. exec off_step abandoned_run (NewOffererServer new_bus) = Some s \<and>
     (\<forall>ls s' g res. exec off_step ls s = Some s' \<longrightarrow> answerWaits s' g \<noteq> Some (WADone (Inr res)))"
proof -
  obtain s where s: "exec off_step abandoned_run (NewOffererServer new_bus) = Some s"
    and r: "answerRouterPc s = ARSend 1 \<lparr>ans_answererID = ''a1'', ans_answer = ''late''\<rparr>"
    and n: "1 < offNext s" and m: "\<forall>a. offAnsMap s a \<noteq> Some 1"
    and w: "\<forall>g. answerWaits s g = None"
    by (simp add: abandoned_run_def off_eval)
  have w': "\<forall>g req. answerWaits s g \<noteq> Some (WASelect 1 req)" using w by simp
  show ?thesis
    using abandoned_answer_blocks_all [OF r n m w'] s w by fastforce
qed

section \<open>How long channels stay registered\<close>

text \<open>Every registered id has a running clean-up whose deadline is within the timeout.\<close>

definition cleanup_covers :: "OffererServer \<Rightarrow> bool" where
  "cleanup_covers s \<longleftrightarrow>
     (\<forall>a. offAnsMap s a \<noteq> None \<or> offIceMap s a \<noteq> None \<longrightarrow> (\<exists>i d. offCleanups s i = Some (a, d))) \<and>
     (\<forall>i a d. offCleanups s i = Some (a, d) \<longrightarrow>
        i < offNext s \<and> d \<le> offNow s + waitingForIceCandidateAndAnswerTimeout)"

lemma off_registry_cases:
  assumes "off_step l s = Some s'"
  obtains (register) g req a o' where "l = SendOfferBy g (SOCall req a o')"
      "s' = SendOffer_begin g req a o' s"
  | (cleanup) i a d where "offCleanups s i = Some (a, d)" "d \<le> offNow s"
      "s' = s\<lparr>offIceMap := (offIceMap s)(a := None), offAnsMap := (offAnsMap s)(a := None),
         offCleanups := (offCleanups s)(i := None)\<rparr>"
  | (quiet) "offCleanups s' = offCleanups s" "offAnsMap s' = offAnsMap s"
      "offNext s' = offNext s" "offNow s \<le> offNow s'"
      "\<And>a c. offIceMap s' a = Some c \<Longrightarrow> offIceMap s a = Some c"
  using assms
proof (cases rule: off_stepE)
  case (send_offer g ev)
  from send_offer(2) show thesis
  proof (cases rule: SendOffer_cases)
    case (call req ansID offID)
    with send_offer(1) show thesis by (intro register) simp_all
  next
    case (move pc pc')
    then show thesis by (intro quiet) simp_all
  qed
next
  case (wait_answer g ev)
  from wait_answer(2) show thesis by (cases rule: WaitForAnswer_cases) (intro quiet; simp)+
next
  case (wait_ice g ev)
  from wait_ice(2) show thesis
    by (cases rule: WaitForICECandidate_off_cases) (intro quiet; simp split: if_splits)+
next
  case (cleanup i a d)
  then show thesis by (intro that(2))
qed (intro quiet; simp)+

lemma cleanup_covers_step:
  assumes P: "cleanup_covers s" and step: "off_step l s = Some s'"
  shows "cleanup_covers s'"
proof -
  have cov: "\<exists>i d. offCleanups s i = Some (a, d)"
    if "offAnsMap s a \<noteq> None \<or> offIceMap s a \<noteq> None" for a
    using P that unfolding cleanup_covers_def by blast
  have lim: "i < offNext s" "d \<le> offNow s + waitingForIceCandidateAndAnswerTimeout"
    if "offCleanups s i = Some (a, d)" for i a d
    using P that unfolding cleanup_covers_def by blast+
  show ?thesis
    using step
  proof (cases rule: off_registry_cases)
    case (register g req a o')
    have "\<exists>i d. offCleanups s' i = Some (b, d)"
      if reg: "offAnsMap s' b \<noteq> None \<or> offIceMap s' b \<noteq> None" for b
    proof (cases "b = a")
      case True
      with register show ?thesis by (auto simp: SendOffer_begin_def)
    next
      case False
      with reg register obtain i d where i: "offCleanups s i = Some (b, d)"
        using cov [of b] by (auto simp: SendOffer_begin_def simp del: not_None_eq)
      with lim(1) [OF i] register have "offCleanups s' i = Some (b, d)"
        by (simp add: SendOffer_begin_def)
      then show ?thesis by blast
    qed
    with register lim show ?thesis
      unfolding cleanup_covers_def by (auto simp: SendOffer_begin_def less_Suc_eq split: if_splits)
  next
    case (cleanup i a d)
    have "\<exists>j d. offCleanups s' j = Some (b, d)"
      if reg: "offAnsMap s' b \<noteq> None \<or> offIceMap s' b \<noteq> None" for b
    proof -
      from reg cleanup have "b \<noteq> a" by auto
      with reg cleanup obtain j e where j: "offCleanups s j = Some (b, e)"
        using cov [of b] by (auto simp del: not_None_eq)
      with \<open>b \<noteq> a\<close> cleanup(1) have "j \<noteq> i" by auto
      with j cleanup(3) show ?thesis by auto
    qed
    with cleanup lim show ?thesis unfolding cleanup_covers_def by auto
  next
    case quiet
    have "\<exists>i d. offCleanups s' i = Some (b, d)"
      if "offAnsMap s' b \<noteq> None \<or> offIceMap s' b \<noteq> None" for b
    proof -
      from that quiet have "offAnsMap s b \<noteq> None \<or> offIceMap s b \<noteq> None" by auto
      from cov [OF this] quiet(1) show ?thesis by simp
    qed
    moreover have "d \<le> offNow s' + waitingForIceCandidateAndAnswerTimeout"
      if "offCleanups s i = Some (b, d)" for i b d
      using lim(2) [OF that] quiet(4) by simp
    ultimately show ?thesis
      using quiet(1,3) lim(1) unfolding cleanup_covers_def by simp
  qed
qed

lemma cleanup_covers_start: "cleanup_covers (NewOffererServer b)"
  by (simp add: cleanup_covers_def NewOffererServer_def)

interpretation off_cleanup: machine_invariant off_step "\<lambda>_. True" cleanup_covers
  "NewOffererServer b" for b
  by unfold_locales (erule (1) cleanup_covers_step, rule cleanup_covers_start)

text \<open>
  C28: no registration of \<open>SendOffer\<close> outlives its timeout by itself. In every reachable state,
  whatever id is still registered in either map, some clean-up goroutine is pending for it, and
  after at most ten more seconds that goroutine can run and removes the id from both maps, even
  if no client ever asks for the answer or for candidates.
\<close>

theorem registrations_expire:
  assumes "exec off_step ls (NewOffererServer b) = Some s"
    and "offAnsMap s a \<noteq> None \<or> offIceMap s a \<noteq> None"
  shows "\<exists>i s'. exec off_step [OffTick waitingForIceCandidateAndAnswerTimeout, OffCleanup i] s = Some s' \<and>
     offAnsMap s' a = None \<and> offIceMap s' a = None"
proof -
  have "cleanup_covers s" using off_cleanup.exec_inv [OF assms(1)] by (simp add: list_all_iff)
  with assms(2) obtain i d where "offCleanups s i = Some (a, d)"
    "d \<le> offNow s + waitingForIceCandidateAndAnswerTimeout"
    unfolding cleanup_covers_def by metis
  then show ?thesis by (intro exI [of _ i]) (simp add: SendOffer_cleanup_def)
qed

theorem registrations_expire_witness:
  "\<exists>s i s'. exec off_step [SendOfferBy 0 (SOCall \<lparr>SendOfferRequest_Token = None,
        SendOfferRequest_HostId = ''h'', SendOfferRequest_Offer = ''sdp''\<rparr> ''a1'' ''o1'')]
       (NewOffererServer new_bus) = Some s \<and>
     exec off_step [OffTick waitingForIceCandidateAndAnswerTimeout, OffCleanup i] s = Some s' \<and>
     offAnsMap s' ''a1'' = None"
proof -
  obtain s where s: "exec off_step [SendOfferBy 0 (SOCall \<lparr>SendOfferRequest_Token = None,
        SendOfferRequest_HostId = ''h'', SendOfferRequest_Offer = ''sdp''\<rparr> ''a1'' ''o1'')]
       (NewOffererServer new_bus) = Some s"
    and r: "offAnsMap s ''a1'' \<noteq> None"
    by (simp add: off_eval)
  from registrations_expire [OF s, of "''a1''"] r s show ?thesis by blast
qed

text \<open>The answer channel of an id, until the deadline \<open>D\<close>.\<close>

definition answer_guarded :: "string \<Rightarrow> nat \<Rightarrow> duration \<Rightarrow> OffererServer \<Rightarrow> bool" where
  "answer_guarded a c D s \<longleftrightarrow>
     D \<le> offNow s \<or>
     offAnsMap s a = Some c \<and> (\<forall>i d. offCleanups s i = Some (a, d) \<longrightarrow> D \<le> d)"

fun other_id :: "string \<Rightarrow> off_label \<Rightarrow> bool" where
  "other_id a (SendOfferBy g (SOCall req ansID offID)) = (ansID \<noteq> a)"
| "other_id a _ = True"

lemma answer_guarded_step:
  assumes "answer_guarded a c D s" "other_id a l" "off_step l s = Some s'"
  shows "answer_guarded a c D s'"
  using assms(3)
proof (cases rule: off_registry_cases)
  case (register g req a' o')
  with assms(1,2) show ?thesis
    by (auto simp: answer_guarded_def SendOffer_begin_def)
next
  case (cleanup i b d)
  with assms(1) show ?thesis by (fastforce simp: answer_guarded_def)
next
  case quiet
  with assms(1) show ?thesis by (auto simp: answer_guarded_def)
qed

interpretation answer_guard: stable_property off_step "other_id a" "answer_guarded a c D" for a c D
  by unfold_locales (rule answer_guarded_step)

text \<open>
  the answer channel of a started \<open>SendOffer\<close> stays registered for the whole timeout. If the
  new answerer id has no clean-up left over from an earlier use, then in every run in which the
  id is not drawn again and less than ten seconds pass, the id still maps to the channel made
  for it, so a \<open>WaitForAnswer\<close> in that time waits on this channel and is not told
  \<open>NotFound\<close>, and the answer router routes an answer for the id to it.
\<close>

theorem answer_registered_for_the_timeout:
  assumes "sendOffers s g = None" and "\<forall>i d. offCleanups s i \<noteq> Some (a, d)"
    and "exec off_step (SendOfferBy g (SOCall req a offID) # ls) s = Some s'"
    and "list_all (other_id a) ls"
    and "offNow s' < offNow s + waitingForIceCandidateAndAnswerTimeout"
  shows "offAnsMap s' a = Some (Suc (offNext s))"
proof -
  let ?t = "SendOffer_begin g req a offID s"
  from assms(1,3) have run: "exec off_step ls ?t = Some s'" by (simp add: SendOffer.simps)
  have "answer_guarded a (Suc (offNext s)) (offNow s + waitingForIceCandidateAndAnswerTimeout) ?t"
    using assms(2) by (simp add: answer_guarded_def SendOffer_begin_def)
  from answer_guard.exec_keeps [OF run this assms(4)] assms(5) show ?thesis
    by (simp add: answer_guarded_def)
qed

theorem answer_registered_for_the_timeout_witness:
  "\<exists>s'. exec off_step [SendOfferBy 0 (SOCall \<lparr>SendOfferRequest_Token = None,
        SendOfferRequest_HostId = ''h'', SendOfferRequest_Offer = ''sdp''\<rparr> ''a1'' ''o1''),
        OffTick (9 * second)] (NewOffererServer new_bus) = Some s' \<and>
     offAnsMap s' ''a1'' = Some 1"
proof -
  let ?ls = "[OffTick (9 * second)]"
  obtain s' where s: "exec off_step (SendOfferBy 0 (SOCall \<lparr>SendOfferRequest_Token = None,
        SendOfferRequest_HostId = ''h'', SendOfferRequest_Offer = ''sdp''\<rparr> ''a1'' ''o1'') # ?ls)
        (NewOffererServer new_bus) = Some s'"
    and n: "offNow s' < offNow (NewOffererServer new_bus) + waitingForIceCandidateAndAnswerTimeout"
    by (simp add: off_eval)
  show ?thesis
    using answer_registered_for_the_timeout [OF _ _ s _ n] s by (simp add: NewOffererServer_def)
qed

section \<open>What SendOffer returns\<close>

text \<open>The events of one call of \<open>SendOffer\<close> in a run, and what they say about its state.\<close>

fun so_events :: "nat \<Rightarrow> off_label list \<Rightarrow> send_offer_event list" where
  "so_events g [] = []"
| "so_events g (SendOfferBy g' ev # ls) = (if g' = g then ev # so_events g ls else so_events g ls)"
| "so_events g (_ # ls) = so_events g ls"

lemma so_events_append [simp]: "so_events g (xs @ ys) = so_events g xs @ so_events g ys"
  by (induction g xs rule: so_events.induct) auto

fun so_history :: "send_offer_pc option \<Rightarrow> send_offer_event list \<Rightarrow> bool" where
  "so_history None evs = (evs = [])"
| "so_history (Some (SONotify req a offID d)) evs = (evs = [SOCall req a offID])"
| "so_history (Some (SOOffer req a offID d)) evs = (evs = [SOCall req a offID, SONotified])"
| "so_history (Some (SODone (Inr resp))) evs =
     (\<exists>req. evs = [SOCall req (OfferResponse_AnswererId resp) (OfferResponse_OffererId resp),
                  SONotified, SOTaken] \<and> OfferResponse_Body resp = '''')"
| "so_history (Some (SODone (Inl err))) evs = (err = Status DeadlineExceeded ''timeout'')"

lemma SendOffer_history:
  assumes "so_history (sendOffers s g) evs" "SendOffer g ev s = Some s'"
  shows "so_history (sendOffers s' g) (evs @ [ev])"
  using assms
  by (auto simp: SendOffer.simps SendOffer_begin_def
      split: send_offer_event.splits option.splits send_offer_pc.splits if_splits)

lemma SendOffer_others: "SendOffer g' ev s = Some s' \<Longrightarrow> g' \<noteq> g \<Longrightarrow> sendOffers s' g = sendOffers s g"
  by (auto simp: SendOffer_begin_def elim!: SendOffer_cases)

lemma so_history_step:
  assumes H: "so_history (sendOffers s g) (so_events g ls)" and step: "off_step l s = Some s'"
  shows "so_history (sendOffers s' g) (so_events g (ls @ [l]))"
  using step
proof (cases rule: off_stepE)
  case (send_offer g' ev)
  with H SendOffer_history [OF H] SendOffer_others [of g' ev s s' g] show ?thesis
    by (cases "g' = g") auto
next
  case (wait_answer g' ev)
  from wait_answer(2) H wait_answer(1) show ?thesis by (cases rule: WaitForAnswer_cases) auto
next
  case (wait_ice g' ev)
  from wait_ice(2) H wait_ice(1) show ?thesis by (cases rule: WaitForICECandidate_off_cases) auto
next
  case (shared b more)
  with H show ?thesis by (cases l) auto
qed (use H in auto)

lemma so_history_run:
  "exec off_step ls (NewOffererServer b) = Some s \<Longrightarrow> so_history (sendOffers s g) (so_events g ls)"
proof (induction rule: exec_trace_induct)
  case start
  show ?case by (simp add: NewOffererServer_def)
next
  case (step ls l t u)
  show ?case by (rule so_history_step [OF step.IH step.hyps(2)])
qed

text \<open>
  C29: \<open>SendOffer\<close> succeeds only through the protocol. In every run, a call that offers its
  offering to a host was made with this host id and offer and has told the host's manager before;
  a call that returned a response has passed exactly the two hand-overs, notification first, and
  its response names the answerer and offerer ids drawn for this call, with an empty body; the
  only error it returns is \<open>DeadlineExceeded\<close>.
\<close>

theorem SendOffer_follows_the_protocol:
  assumes "exec off_step ls (NewOffererServer b) = Some s"
  shows "(\<forall>off. offer_value s g = Some off \<longrightarrow>
        (\<exists>req offID. so_events g ls = [SOCall req (off_answererID off) offID, SONotified] \<and>
           off_hostID off = SendOfferRequest_HostId req \<and> off_offer off = SendOfferRequest_Offer req)) \<and>
     (\<forall>resp. sendOffers s g = Some (SODone (Inr resp)) \<longrightarrow>
        OfferResponse_Body resp = '''' \<and>
        (\<exists>req. so_events g ls = [SOCall req (OfferResponse_AnswererId resp)
           (OfferResponse_OffererId resp), SONotified, SOTaken])) \<and>
     (\<forall>err. sendOffers s g = Some (SODone (Inl err)) \<longrightarrow> err = Status DeadlineExceeded ''timeout'')"
  using so_history_run [OF assms, of g]
  by (auto simp: offer_value_def getter_defs split: option.splits send_offer_pc.splits)

theorem SendOffer_follows_the_protocol_witness:
  "\<exists>s. exec off_step [SendOfferBy 0 (SOCall \<lparr>SendOfferRequest_Token = None,
        SendOfferRequest_HostId = ''h'', SendOfferRequest_Offer = ''sdp''\<rparr> ''a1'' ''o1''),
        SendOfferBy 0 SONotified, SendOfferBy 0 SOTaken] (NewOffererServer new_bus) = Some s \<and>
     (\<forall>resp. sendOffers s 0 = Some (SODone (Inr resp)) \<longrightarrow> OfferResponse_Body resp = '''') \<and>
     (\<exists>resp. sendOffers s 0 = Some (SODone (Inr resp)))"
proof -
  obtain s where s: "exec off_step [SendOfferBy 0 (SOCall \<lparr>SendOfferRequest_Token = None,
        SendOfferRequest_HostId = ''h'', SendOfferRequest_Offer = ''sdp''\<rparr> ''a1'' ''o1''),
        SendOfferBy 0 SONotified, SendOfferBy 0 SOTaken] (NewOffererServer new_bus) = Some s"
    and r: "\<exists>resp. sendOffers s 0 = Some (SODone (Inr resp))"
    by (simp add: off_eval SendOffer.simps)
  from SendOffer_follows_the_protocol [OF s, of 0] r s show ?thesis by blast
qed

end
