(* ===== verification/Answerer.thy ===== *)
theory Answerer
  imports Offerer
begin

text \<open>
  The answerer service, \<^verbatim>\<open>server/anserer.go\<close>: the signalling server's side towards the
  listening host. It keeps a map from host ids to buffered channels of offers (capacity 1) and a
  map from answerer ids to buffered channels of ICE candidates (capacity 1024); the channels
  live in two heaps, because a goroutine keeps its reference after the map entry is gone.
  Handlers and routers are goroutines with a program counter; a section under the mutex is one
  step, taking a value from a channel together with the section that follows it is one step of
  a router, and a send that blocks is a step that is not enabled. The channels shared with the
  offerer service are the record \<open>bus\<close> of that theory; \<open>OfferHanded\<close> and \<open>CloseIceHanded\<close> are
  this side of the hand-overs on \<open>recvOfferCh\<close> and \<open>recvCloseIceToAnsCh\<close>.
\<close>

section \<open>State\<close>

definition waitForOfferTimeout :: duration where
  "waitForOfferTimeout = 10 * second"

datatype wait_offer_pc =
    WOSelect nat WaitForOfferRequest
  | WOGot offering WaitForOfferRequest
  | WODone WaitForOfferRequest "go_error + OfferResponse"

datatype send_answer_pc =
    SAPending AnsPacket
  | SADone "go_error + AnswerResponse"

datatype ans_wait_ice_pc =
    AWSelect nat WaitForICECandidateRequest duration
  | AWSend nat WaitForICECandidateRequest duration string
  | AWUnregister WaitForICECandidateRequest "go_error option"
  | AWDone "go_error option"

datatype offer_router = ORIdle | ORSend nat offering

datatype ans_ice_router = AIIdle | AISend nat IcePacket

record AnswererServer =
  hostID2waitingCh :: "string \<rightharpoonup> nat"
  AnsID2iceToAnsChan :: "string \<rightharpoonup> nat"
  offerChans :: "nat \<rightharpoonup> offering chan"
  iceChans :: "nat \<rightharpoonup> string chan"
  ansBus :: bus
  hostTimers :: "nat \<rightharpoonup> string \<times> duration"
  iceTimers :: "nat \<rightharpoonup> string \<times> duration"
  offerWaits :: "nat \<rightharpoonup> wait_offer_pc"
  sendAnswers :: "nat \<rightharpoonup> send_answer_pc"
  ansIceWaits :: "nat \<rightharpoonup> ans_wait_ice_pc"
  ansIceSends :: "nat \<rightharpoonup> send_ice_pc"
  offerRouterPc :: offer_router
  ansIceRouterPc :: ans_ice_router
  ansNext :: nat
  ansNow :: duration

definition NewAnswererServer :: "bus \<Rightarrow> AnswererServer" where
  "NewAnswererServer b =
     \<lparr>hostID2waitingCh = Map.empty, AnsID2iceToAnsChan = Map.empty, offerChans = Map.empty,
      iceChans = Map.empty, ansBus = b, hostTimers = Map.empty, iceTimers = Map.empty,
      offerWaits = Map.empty, sendAnswers = Map.empty, ansIceWaits = Map.empty,
      ansIceSends = Map.empty, offerRouterPc = ORIdle, ansIceRouterPc = AIIdle,
      ansNext = 0, ansNow = 0\<rparr>"

section \<open>Channels of the two maps\<close>

text \<open>
  Look the channel of a key up, or make and register one. Each comes in the two forms the code
  has: with a timer that deletes the entry again, or (for hosts, in \<open>WaitForOffer\<close>) without.
\<close>

definition waiting_chan :: "bool \<Rightarrow> string \<Rightarrow> AnswererServer \<Rightarrow> nat \<times> AnswererServer" where
  "waiting_chan timed h s =
     (case hostID2waitingCh s h of
        Some ch \<Rightarrow> (ch, s)
      | None \<Rightarrow>
          (ansNext s,
           s\<lparr>hostID2waitingCh := (hostID2waitingCh s)(h \<mapsto> ansNext s),
             offerChans := (offerChans s)(ansNext s \<mapsto> make_chan 1),
             hostTimers := (if timed
               then (hostTimers s)(ansNext s \<mapsto> (h, ansNow s + waitForOfferTimeout))
               else hostTimers s),
             ansNext := Suc (ansNext s)\<rparr>))"

definition ice_chan :: "string \<Rightarrow> AnswererServer \<Rightarrow> nat \<times> AnswererServer" where
  "ice_chan a s =
     (case AnsID2iceToAnsChan s a of
        Some ch \<Rightarrow> (ch, s)
      | None \<Rightarrow>
          (ansNext s,
           s\<lparr>AnsID2iceToAnsChan := (AnsID2iceToAnsChan s)(a \<mapsto> ansNext s),
             iceChans := (iceChans s)(ansNext s \<mapsto> make_chan 1024),
             iceTimers := (iceTimers s)(ansNext s \<mapsto>
               (a, ansNow s + waitingForIceCandidateAndAnswerTimeout)),
             ansNext := Suc (ansNext s)\<rparr>))"

definition host_timer :: "nat \<Rightarrow> AnswererServer \<Rightarrow> AnswererServer option" where
  "host_timer i s =
     (case hostTimers s i of
        Some (h, d) \<Rightarrow>
          if d \<le> ansNow s
          then Some (s\<lparr>hostID2waitingCh := (hostID2waitingCh s)(h := None),
                       hostTimers := (hostTimers s)(i := None)\<rparr>)
          else None
      | None \<Rightarrow> None)"

definition ice_timer :: "nat \<Rightarrow> AnswererServer \<Rightarrow> AnswererServer option" where
  "ice_timer i s =
     (case iceTimers s i of
        Some (a, d) \<Rightarrow>
          if d \<le> ansNow s
          then Some (s\<lparr>AnsID2iceToAnsChan := (AnsID2iceToAnsChan s)(a := None),
                       iceTimers := (iceTimers s)(i := None)\<rparr>)
          else None
      | None \<Rightarrow> None)"

section \<open>WaitForOffer and SendAnswer\<close>

datatype wait_offer_event = WOCall WaitForOfferRequest | WOTake | WOCtxDone | WORegister

text \<open>
  The response sets only \<open>AnswererId\<close> and \<open>Body\<close>, so \<open>OffererId\<close> is the empty string.
\<close>

fun WaitForOffer :: "nat \<Rightarrow> wait_offer_event \<Rightarrow> AnswererServer \<Rightarrow> AnswererServer option" where
  "WaitForOffer g ev s =
     (case (ev, offerWaits s g) of
        (WOCall req, None) \<Rightarrow>
          (let (ch, s') = waiting_chan False (WaitForOfferRequest_HostId req) s
           in Some (s'\<lparr>offerWaits := (offerWaits s')(g \<mapsto> WOSelect ch req)\<rparr>))
      | (WOCtxDone, Some (WOSelect ch req)) \<Rightarrow>
          Some (s\<lparr>offerWaits := (offerWaits s)(g \<mapsto>
            WODone req (Inl (Status DeadlineExceeded ''timeout'')))\<rparr>)
      | (WOTake, Some (WOSelect ch req)) \<Rightarrow>
          (case Option.bind (offerChans s ch) chan_take of
             None \<Rightarrow> None
           | Some (off, c) \<Rightarrow>
               Some (s\<lparr>offerChans := (offerChans s)(ch \<mapsto> c),
                       offerWaits := (offerWaits s)(g \<mapsto> WOGot off req)\<rparr>))
      | (WORegister, Some (WOGot off req)) \<Rightarrow>
          (let s' = snd (ice_chan (off_answererID off) s)
           in Some (s'\<lparr>offerWaits := (offerWaits s')(g \<mapsto>
                WODone req (Inr \<lparr>OfferResponse_OffererId = '''',
                  OfferResponse_AnswererId = off_answererID off,
                  OfferResponse_Body = off_offer off\<rparr>))\<rparr>))
      | _ \<Rightarrow> None)"

datatype send_answer_event = SACall ReplyToRequest | SAPut | SACtxDone

fun SendAnswer :: "nat \<Rightarrow> send_answer_event \<Rightarrow> AnswererServer \<Rightarrow> AnswererServer option" where
  "SendAnswer g ev s =
     (case (ev, sendAnswers s g) of
        (SACall req, None) \<Rightarrow>
          Some (s\<lparr>sendAnswers := (sendAnswers s)(g \<mapsto>
            SAPending \<lparr>ans_answererID = ReplyToRequest_AnswererId req,
                       ans_answer = ReplyToRequest_Body req\<rparr>)\<rparr>)
      | (SAPut, Some (SAPending pkt)) \<Rightarrow>
          map_option (\<lambda>c. s\<lparr>ansBus := (ansBus s)\<lparr>answerCh := c\<rparr>,
              sendAnswers := (sendAnswers s)(g \<mapsto> SADone (Inr \<lparr>AnswerResponse_Answer = ''''\<rparr>))\<rparr>)
            (chan_put (answerCh (ansBus s)) pkt)
      | (SACtxDone, Some (SAPending pkt)) \<Rightarrow>
          Some (s\<lparr>sendAnswers := (sendAnswers s)(g \<mapsto>
            SADone (Inl (Status DeadlineExceeded ''timeout'')))\<rparr>)
      | _ \<Rightarrow> None)"

section \<open>ICE candidates\<close>

definition SendIceCandidate_ans :: "nat \<Rightarrow> send_ice_event \<Rightarrow> AnswererServer \<Rightarrow> AnswererServer option" where
  "SendIceCandidate_ans g ev s =
     map_option (\<lambda>(pc, b). s\<lparr>ansIceSends := (ansIceSends s)(g \<mapsto> pc), ansBus := b\<rparr>)
       (ice_stream ev (ansIceSends s g)
         (\<lambda>pkt. map_option (\<lambda>c. (ansBus s)\<lparr>iceToOfferCh := c\<rparr>)
            (chan_put (iceToOfferCh (ansBus s)) pkt))
         (ansBus s))"

datatype ans_wait_ice_event =
    AWCall WaitForICECandidateRequest
  | AWTimeout
  | AWTake
  | AWSent "go_error option"
  | AWUnregistered

fun WaitForICECandidate_ans ::
  "nat \<Rightarrow> ans_wait_ice_event \<Rightarrow> AnswererServer \<Rightarrow> AnswererServer option"
where
  "WaitForICECandidate_ans g ev s =
     (case (ev, ansIceWaits s g) of
        (AWCall req, None) \<Rightarrow>
          Some (s\<lparr>ansIceWaits := (ansIceWaits s)(g \<mapsto>
            (case AnsID2iceToAnsChan s (WaitForICECandidateRequest_AnswererId req) of
               None \<Rightarrow> AWDone (Some (Status NotFound ''answerer not found''))
             | Some ch \<Rightarrow>
                 AWSelect ch req (ansNow s + waitingForIceCandidateAndAnswerTimeout)))\<rparr>)
      | (AWTimeout, Some (AWSelect ch req d)) \<Rightarrow>
          if d \<le> ansNow s
          then Some (s\<lparr>ansIceWaits := (ansIceWaits s)(g \<mapsto> AWUnregister req None)\<rparr>)
          else None
      | (AWTake, Some (AWSelect ch req d)) \<Rightarrow>
          (case Option.bind (iceChans s ch) chan_take of
             None \<Rightarrow> None
           | Some (ice, c) \<Rightarrow>
               Some (s\<lparr>iceChans := (iceChans s)(ch \<mapsto> c),
                       ansIceWaits := (ansIceWaits s)(g \<mapsto> AWSend ch req d ice)\<rparr>))
      | (AWSent err, Some (AWSend ch req d ice)) \<Rightarrow>
          Some (s\<lparr>ansIceWaits := (ansIceWaits s)(g \<mapsto>
            (if err = Some EOF then AWUnregister req None
             else if err \<noteq> None then AWUnregister req err
             else AWSelect ch req d))\<rparr>)
      | (AWUnregistered, Some (AWUnregister req res)) \<Rightarrow>
          Some (s\<lparr>AnsID2iceToAnsChan :=
                    (AnsID2iceToAnsChan s)(WaitForICECandidateRequest_AnswererId req := None),
                  ansIceWaits := (ansIceWaits s)(g \<mapsto> AWDone res)\<rparr>)
      | _ \<Rightarrow> None)"

section \<open>The routers\<close>

text \<open>Receiving an offering, and sending it on to the channel of its host.\<close>

definition offerRouter :: "offering \<Rightarrow> AnswererServer \<Rightarrow> AnswererServer option" where
  "offerRouter off s =
     (case offerRouterPc s of
        ORIdle \<Rightarrow>
          (let (ch, s') = waiting_chan True (off_hostID off) s
           in Some (s'\<lparr>offerRouterPc := ORSend ch off\<rparr>))
      | ORSend _ _ \<Rightarrow> None)"

definition offerRouter_send :: "AnswererServer \<Rightarrow> AnswererServer option" where
  "offerRouter_send s =
     (case offerRouterPc s of
        ORIdle \<Rightarrow> None
      | ORSend ch off \<Rightarrow>
          map_option (\<lambda>c. s\<lparr>offerChans := (offerChans s)(ch \<mapsto> c), offerRouterPc := ORIdle\<rparr>)
            (Option.bind (offerChans s ch) (\<lambda>c. chan_put c off)))"

definition iceCandidateRouter_ans :: "AnswererServer \<Rightarrow> AnswererServer option" where
  "iceCandidateRouter_ans s =
     (case (ansIceRouterPc s, chan_take (iceToAnsCh (ansBus s))) of
        (AIIdle, Some (pkt, b)) \<Rightarrow>
          (let (ch, s') = ice_chan (ice_answererID pkt) s
           in Some (s'\<lparr>ansBus := (ansBus s)\<lparr>iceToAnsCh := b\<rparr>, ansIceRouterPc := AISend ch pkt\<rparr>))
      | _ \<Rightarrow> None)"

definition iceCandidateRouter_ans_send :: "AnswererServer \<Rightarrow> AnswererServer option" where
  "iceCandidateRouter_ans_send s =
     (case ansIceRouterPc s of
        AIIdle \<Rightarrow> None
      | AISend ch pkt \<Rightarrow>
          map_option (\<lambda>c. s\<lparr>iceChans := (iceChans s)(ch \<mapsto> c), ansIceRouterPc := AIIdle\<rparr>)
            (Option.bind (iceChans s ch) (\<lambda>c. chan_put c (iceCandidate pkt))))"

text \<open>The other branch of that router's select discards the id it receives.\<close>

definition iceCandidateRouter_ans_close :: "AnswererServer \<Rightarrow> AnswererServer option" where
  "iceCandidateRouter_ans_close s =
     (case ansIceRouterPc s of AIIdle \<Rightarrow> Some s | AISend _ _ \<Rightarrow> None)"

section \<open>The service as a machine\<close>

text \<open>
  \<open>AnswerLeaves\<close>, \<open>IceToOfferLeaves\<close> and \<open>IceToAnsArrives\<close> are the offerer service's ends of
  the shared channels.
\<close>

datatype ans_label =
    WaitOfferBy nat wait_offer_event
  | SendAnswerBy nat send_answer_event
  | AnsSendIceBy nat send_ice_event
  | AnsWaitIceBy nat ans_wait_ice_event
  | OfferHanded offering
  | OfferRouted
  | AnsIceTaken
  | AnsIceRouted
  | CloseIceHanded
  | HostTimer nat
  | IceTimer nat
  | AnswerLeaves
  | IceToOfferLeaves
  | IceToAnsArrives IcePacket
  | AnsTick duration

fun ans_step :: "ans_label \<Rightarrow> AnswererServer \<Rightarrow> AnswererServer option" where
  "ans_step (WaitOfferBy g ev) s = WaitForOffer g ev s"
| "ans_step (SendAnswerBy g ev) s = SendAnswer g ev s"
| "ans_step (AnsSendIceBy g ev) s = SendIceCandidate_ans g ev s"
| "ans_step (AnsWaitIceBy g ev) s = WaitForICECandidate_ans g ev s"
| "ans_step (OfferHanded off) s = offerRouter off s"
| "ans_step OfferRouted s = offerRouter_send s"
| "ans_step AnsIceTaken s = iceCandidateRouter_ans s"
| "ans_step AnsIceRouted s = iceCandidateRouter_ans_send s"
| "ans_step CloseIceHanded s = iceCandidateRouter_ans_close s"
| "ans_step (HostTimer i) s = host_timer i s"
| "ans_step (IceTimer i) s = ice_timer i s"
| "ans_step AnswerLeaves s =
     map_option (\<lambda>(_, c). s\<lparr>ansBus := (ansBus s)\<lparr>answerCh := c\<rparr>\<rparr>)
       (chan_take (answerCh (ansBus s)))"
| "ans_step IceToOfferLeaves s =
     map_option (\<lambda>(_, c). s\<lparr>ansBus := (ansBus s)\<lparr>iceToOfferCh := c\<rparr>\<rparr>)
       (chan_take (iceToOfferCh (ansBus s)))"
| "ans_step (IceToAnsArrives pkt) s =
     map_option (\<lambda>c. s\<lparr>ansBus := (ansBus s)\<lparr>iceToAnsCh := c\<rparr>\<rparr>)
       (chan_put (iceToAnsCh (ansBus s)) pkt)"
| "ans_step (AnsTick d) s = Some (s\<lparr>ansNow := ansNow s + d\<rparr>)"

declare WaitForOffer.simps [simp del] SendAnswer.simps [simp del]
  WaitForICECandidate_ans.simps [simp del]

section \<open>One step, seen from the offers and from the candidates\<close>

text \<open>The parts of the state that steps of the other part leave alone.\<close>

definition offer_part where
  "offer_part s = (hostID2waitingCh s, offerChans s, hostTimers s, offerWaits s, offerRouterPc s)"

definition candidate_part where
  "candidate_part s = (AnsID2iceToAnsChan s, iceChans s, iceTimers s, ansIceWaits s, ansIceRouterPc s)"

lemma ice_chan_other [simp]:
  "hostID2waitingCh (snd (ice_chan a s)) = hostID2waitingCh s"
  "offerChans (snd (ice_chan a s)) = offerChans s"
  "hostTimers (snd (ice_chan a s)) = hostTimers s"
  "offerWaits (snd (ice_chan a s)) = offerWaits s"
  "offerRouterPc (snd (ice_chan a s)) = offerRouterPc s"
  "ansIceWaits (snd (ice_chan a s)) = ansIceWaits s"
  "ansIceRouterPc (snd (ice_chan a s)) = ansIceRouterPc s"
  "ansBus (snd (ice_chan a s)) = ansBus s"
  "ansNow (snd (ice_chan a s)) = ansNow s"
  "ansNext s \<le> ansNext (snd (ice_chan a s))"
  by (auto simp: ice_chan_def split: option.splits)

lemma waiting_chan_other [simp]:
  "AnsID2iceToAnsChan (snd (waiting_chan b h s)) = AnsID2iceToAnsChan s"
  "iceChans (snd (waiting_chan b h s)) = iceChans s"
  "iceTimers (snd (waiting_chan b h s)) = iceTimers s"
  "ansIceWaits (snd (waiting_chan b h s)) = ansIceWaits s"
  "ansIceRouterPc (snd (waiting_chan b h s)) = ansIceRouterPc s"
  "ansBus (snd (waiting_chan b h s)) = ansBus s"
  "ansNow (snd (waiting_chan b h s)) = ansNow s"
  "ansNext s \<le> ansNext (snd (waiting_chan b h s))"
  by (auto simp: waiting_chan_def split: option.splits)

lemma offer_stepE:
  assumes "ans_step l s = Some s'"
  obtains (listen_found) g req ch where "l = WaitOfferBy g (WOCall req)" "offerWaits s g = None"
      "hostID2waitingCh s (WaitForOfferRequest_HostId req) = Some ch"
      "s' = s\<lparr>offerWaits := (offerWaits s)(g \<mapsto> WOSelect ch req)\<rparr>"
  | (listen_new) g req where "l = WaitOfferBy g (WOCall req)" "offerWaits s g = None"
      "hostID2waitingCh s (WaitForOfferRequest_HostId req) = None"
      "s' = s\<lparr>hostID2waitingCh := (hostID2waitingCh s)(WaitForOfferRequest_HostId req \<mapsto> ansNext s),
             offerChans := (offerChans s)(ansNext s \<mapsto> make_chan 1),
             offerWaits := (offerWaits s)(g \<mapsto> WOSelect (ansNext s) req),
             ansNext := Suc (ansNext s)\<rparr>"
  | (take) g ch req c off vs where "l = WaitOfferBy g WOTake"
      "offerWaits s g = Some (WOSelect ch req)" "offerChans s ch = Some c" "chBuf c = off # vs"
      "s' = s\<lparr>offerChans := (offerChans s)(ch \<mapsto> c\<lparr>chBuf := vs\<rparr>),
             offerWaits := (offerWaits s)(g \<mapsto> WOGot off req)\<rparr>"
  | (give_up) g ch req where "l = WaitOfferBy g WOCtxDone" "offerWaits s g = Some (WOSelect ch req)"
      "s' = s\<lparr>offerWaits := (offerWaits s)(g \<mapsto>
         WODone req (Inl (Status DeadlineExceeded ''timeout'')))\<rparr>"
  | (register) g off req where "l = WaitOfferBy g WORegister"
      "offerWaits s g = Some (WOGot off req)"
      "hostID2waitingCh s' = hostID2waitingCh s" "offerChans s' = offerChans s"
      "hostTimers s' = hostTimers s" "offerRouterPc s' = offerRouterPc s"
      "offerWaits s' = (offerWaits s)(g \<mapsto> WODone req (Inr \<lparr>OfferResponse_OffererId = '''',
         OfferResponse_AnswererId = off_answererID off, OfferResponse_Body = off_offer off\<rparr>))"
      "ansNext s \<le> ansNext s'" "ansNow s' = ansNow s"
  | (handed_found) off ch where "l = OfferHanded off" "offerRouterPc s = ORIdle"
      "hostID2waitingCh s (off_hostID off) = Some ch" "s' = s\<lparr>offerRouterPc := ORSend ch off\<rparr>"
  | (handed_new) off where "l = OfferHanded off" "offerRouterPc s = ORIdle"
      "hostID2waitingCh s (off_hostID off) = None"
      "s' = s\<lparr>hostID2waitingCh := (hostID2waitingCh s)(off_hostID off \<mapsto> ansNext s),
             offerChans := (offerChans s)(ansNext s \<mapsto> make_chan 1),
             hostTimers := (hostTimers s)(ansNext s \<mapsto> (off_hostID off, ansNow s + waitForOfferTimeout)),
             ansNext := Suc (ansNext s), offerRouterPc := ORSend (ansNext s) off\<rparr>"
  | (routed) ch off c where "l = OfferRouted" "offerRouterPc s = ORSend ch off"
      "offerChans s ch = Some c" "length (chBuf c) < chCap c"
      "s' = s\<lparr>offerChans := (offerChans s)(ch \<mapsto> c\<lparr>chBuf := chBuf c @ [off]\<rparr>),
             offerRouterPc := ORIdle\<rparr>"
  | (expire) i h d where "l = HostTimer i" "hostTimers s i = Some (h, d)" "d \<le> ansNow s"
      "s' = s\<lparr>hostID2waitingCh := (hostID2waitingCh s)(h := None),
             hostTimers := (hostTimers s)(i := None)\<rparr>"
  | (other) "offer_part s' = offer_part s" "ansNext s \<le> ansNext s'" "ansNow s \<le> ansNow s'"
      "\<And>off. l \<noteq> OfferHanded off" "\<And>g ev. l \<noteq> WaitOfferBy g ev"
proof (cases l)
  case (WaitOfferBy g ev)
  show thesis
  proof (cases ev)
    case (WOCall req)
    with assms WaitOfferBy show thesis
      by (auto simp: WaitForOffer.simps waiting_chan_def intro: listen_found listen_new
          split: option.splits)
  next
    case WOTake
    with assms WaitOfferBy show thesis
      by (auto simp: WaitForOffer.simps chan_take_Some_iff bind_eq_Some_conv
          split: option.splits wait_offer_pc.splits intro: take)
  next
    case WOCtxDone
    with assms WaitOfferBy show thesis
      by (auto simp: WaitForOffer.simps intro: give_up split: option.splits wait_offer_pc.splits)
  next
    case WORegister
    with assms WaitOfferBy show thesis
      by (auto simp: WaitForOffer.simps offer_part_def Let_def split: option.splits wait_offer_pc.splits
          intro!: register)
  qed
next
  case (OfferHanded off)
  with assms show thesis
    by (auto simp: offerRouter_def waiting_chan_def intro: handed_found handed_new
        split: option.splits offer_router.splits)
next
  case OfferRouted
  with assms show thesis
    by (auto simp: offerRouter_send_def chan_put_Some_iff bind_eq_Some_conv intro: routed
        split: offer_router.splits)
next
  case (HostTimer i)
  with assms show thesis
    by (auto simp: host_timer_def intro: expire split: option.splits if_splits)
next
  case AnsIceTaken
  with assms show thesis
    by (intro other)
      (auto simp: iceCandidateRouter_ans_def offer_part_def case_prod_unfold Let_def
        split: ans_ice_router.splits option.splits)
qed (use assms in \<open>(intro other; auto simp: SendAnswer.simps SendIceCandidate_ans_def
      WaitForICECandidate_ans.simps iceCandidateRouter_ans_send_def
      iceCandidateRouter_ans_close_def ice_timer_def offer_part_def
      split: send_answer_event.splits send_answer_pc.splits ans_wait_ice_event.splits
        ans_wait_ice_pc.splits option.splits ans_ice_router.splits if_splits)+\<close>)

lemma ice_chanE:
  obtains (found) ch where "AnsID2iceToAnsChan s a = Some ch" "ice_chan a s = (ch, s)"
  | (new) "AnsID2iceToAnsChan s a = None"
      "ice_chan a s = (ansNext s,
         s\<lparr>AnsID2iceToAnsChan := (AnsID2iceToAnsChan s)(a \<mapsto> ansNext s),
           iceChans := (iceChans s)(ansNext s \<mapsto> make_chan 1024),
           iceTimers := (iceTimers s)(ansNext s \<mapsto>
             (a, ansNow s + waitingForIceCandidateAndAnswerTimeout)),
           ansNext := Suc (ansNext s)\<rparr>)"
  by (cases "AnsID2iceToAnsChan s a") (simp_all add: ice_chan_def)

lemma candidate_stepE:
  assumes "ans_step l s = Some s'"
  obtains (opened) g off req where "l = WaitOfferBy g WORegister"
      "offerWaits s g = Some (WOGot off req)"
      "candidate_part s' = candidate_part (snd (ice_chan (off_answererID off) s))"
      "ansNext s' = ansNext (snd (ice_chan (off_answererID off) s))" "ansNow s' = ansNow s"
  | (taken) pkt b where "l = AnsIceTaken" "ansIceRouterPc s = AIIdle"
      "chan_take (iceToAnsCh (ansBus s)) = Some (pkt, b)"
      "s' = (snd (ice_chan (ice_answererID pkt) s))\<lparr>ansBus := (ansBus s)\<lparr>iceToAnsCh := b\<rparr>,
         ansIceRouterPc := AISend (fst (ice_chan (ice_answererID pkt) s)) pkt\<rparr>"
  | (routed) ch pkt c where "l = AnsIceRouted" "ansIceRouterPc s = AISend ch pkt"
      "iceChans s ch = Some c" "length (chBuf c) < chCap c"
      "s' = s\<lparr>iceChans := (iceChans s)(ch \<mapsto> c\<lparr>chBuf := chBuf c @ [iceCandidate pkt]\<rparr>),
             ansIceRouterPc := AIIdle\<rparr>"
  | (refused) g req where "l = AnsWaitIceBy g (AWCall req)" "ansIceWaits s g = None"
      "AnsID2iceToAnsChan s (WaitForICECandidateRequest_AnswererId req) = None"
      "s' = s\<lparr>ansIceWaits := (ansIceWaits s)(g \<mapsto>
         AWDone (Some (Status NotFound ''answerer not found'')))\<rparr>"
  | (called) g req ch where "l = AnsWaitIceBy g (AWCall req)" "ansIceWaits s g = None"
      "AnsID2iceToAnsChan s (WaitForICECandidateRequest_AnswererId req) = Some ch"
      "s' = s\<lparr>ansIceWaits := (ansIceWaits s)(g \<mapsto>
         AWSelect ch req (ansNow s + waitingForIceCandidateAndAnswerTimeout))\<rparr>"
  | (take) g ch req d c ice vs where "l = AnsWaitIceBy g AWTake"
      "ansIceWaits s g = Some (AWSelect ch req d)" "iceChans s ch = Some c" "chBuf c = ice # vs"
      "s' = s\<lparr>iceChans := (iceChans s)(ch \<mapsto> c\<lparr>chBuf := vs\<rparr>),
             ansIceWaits := (ansIceWaits s)(g \<mapsto> AWSend ch req d ice)\<rparr>"
  | (resume) g ch req d ice where "l = AnsWaitIceBy g (AWSent None)"
      "ansIceWaits s g = Some (AWSend ch req d ice)"
      "s' = s\<lparr>ansIceWaits := (ansIceWaits s)(g \<mapsto> AWSelect ch req d)\<rparr>"
  | (leave) g ev pc req res where "l = AnsWaitIceBy g ev" "ansIceWaits s g = Some pc"
      "s' = s\<lparr>ansIceWaits := (ansIceWaits s)(g \<mapsto> AWUnregister req res)\<rparr>"
  | (unregister) g req res where "l = AnsWaitIceBy g AWUnregistered"
      "ansIceWaits s g = Some (AWUnregister req res)"
      "s' = s\<lparr>AnsID2iceToAnsChan :=
               (AnsID2iceToAnsChan s)(WaitForICECandidateRequest_AnswererId req := None),
             ansIceWaits := (ansIceWaits s)(g \<mapsto> AWDone res)\<rparr>"
  | (expire) i a d where "l = IceTimer i" "iceTimers s i = Some (a, d)" "d \<le> ansNow s"
      "s' = s\<lparr>AnsID2iceToAnsChan := (AnsID2iceToAnsChan s)(a := None),
             iceTimers := (iceTimers s)(i := None)\<rparr>"
  | (other) "candidate_part s' = candidate_part s" "ansNext s \<le> ansNext s'" "ansNow s \<le> ansNow s'"
      "\<And>g ev. l \<noteq> AnsWaitIceBy g ev" "l \<noteq> AnsIceTaken"
proof (cases l)
  case (WaitOfferBy g ev)
  show thesis
  proof (cases "ev = WORegister")
    case True
    with assms WaitOfferBy obtain off req where "offerWaits s g = Some (WOGot off req)"
      "\<exists>m. s' = snd (ice_chan (off_answererID off) s)\<lparr>offerWaits := m\<rparr>"
      by (auto simp: WaitForOffer.simps Let_def split: option.splits wait_offer_pc.splits)
    with True WaitOfferBy show thesis
      by (intro opened [of g off]) (auto simp: candidate_part_def)
  next
    case False
    with assms WaitOfferBy show thesis
      by (intro other)
        (auto simp: WaitForOffer.simps candidate_part_def Let_def case_prod_unfold
          split: wait_offer_event.splits option.splits wait_offer_pc.splits)
  qed
next
  case AnsIceTaken
  with assms show thesis
    by (auto simp: iceCandidateRouter_ans_def case_prod_unfold Let_def intro: taken
        split: ans_ice_router.splits option.splits)
next
  case AnsIceRouted
  with assms show thesis
    by (auto simp: iceCandidateRouter_ans_send_def chan_put_Some_iff bind_eq_Some_conv intro: routed
        split: ans_ice_router.splits)
next
  case (IceTimer i)
  with assms show thesis
    by (auto simp: ice_timer_def intro: expire split: option.splits if_splits)
next
  case (AnsWaitIceBy g ev)
  with assms show thesis
    by (cases ev)
      (auto simp: WaitForICECandidate_ans.simps chan_take_Some_iff bind_eq_Some_conv
        split: option.splits ans_wait_ice_pc.splits if_splits
        intro: refused called take resume leave unregister)
next
  case (SendAnswerBy g ev)
  with assms show thesis
    by (intro other) (auto simp: SendAnswer.simps candidate_part_def
        split: send_answer_event.splits send_answer_pc.splits option.splits)
next
  case (AnsSendIceBy g ev)
  with assms show thesis
    by (intro other) (auto simp: SendIceCandidate_ans_def candidate_part_def)
next
  case (OfferHanded off)
  with assms show thesis
    by (intro other)
      (auto simp: offerRouter_def candidate_part_def case_prod_unfold Let_def
        split: offer_router.splits)
next
  case OfferRouted
  with assms show thesis
    by (intro other) (auto simp: offerRouter_send_def candidate_part_def split: offer_router.splits)
next
  case CloseIceHanded
  with assms show thesis
    by (intro other) (auto simp: iceCandidateRouter_ans_close_def split: ans_ice_router.splits)
next
  case (HostTimer i)
  with assms show thesis
    by (intro other) (auto simp: host_timer_def candidate_part_def split: option.splits if_splits)
next
  case AnswerLeaves
  with assms show thesis by (intro other) (auto simp: candidate_part_def)
next
  case IceToOfferLeaves
  with assms show thesis by (intro other) (auto simp: candidate_part_def)
next
  case (IceToAnsArrives pkt)
  with assms show thesis by (intro other) (auto simp: candidate_part_def)
next
  case (AnsTick d)
  with assms show thesis by (intro other) (auto simp: candidate_part_def)
qed

end
