(* ===== verification/AnswererProps.thy ===== *)
theory AnswererProps
  imports Answerer
begin

text \<open>
  Properties of the answerer service. Channels are owned by one host id or answerer id for
  ever, so offers and candidates reach only those they are meant for (\<open>channel_ownership\<close>);
  capacities are respected; a host that listens first keeps its channel (\<open>stable_property\<close>);
  and two runs of the code in which the timer of the offer router breaks the service: a waiter
  that no offer reaches any more, and a router that is blocked for all hosts.
\<close>

section \<open>Ownership of the offer channels\<close>

definition offers_wf :: "AnswererServer \<Rightarrow> bool" where
  "offers_wf s \<longleftrightarrow>
     (\<forall>c ch. offerChans s c = Some ch \<longrightarrow>
        c < ansNext s \<and> chCap ch = 1 \<and> \<not> chClosed ch \<and> length (chBuf ch) \<le> 1)"

lemma offers_wf_step:
  assumes "offers_wf s" "ans_step l s = Some s'"
  shows "offers_wf s'"
  using assms(2)
proof (cases rule: offer_stepE)
  case (take g ch req c off vs)
  with assms(1) show ?thesis by (fastforce simp: offers_wf_def)
next
  case (routed ch off c)
  with assms(1) show ?thesis by (fastforce simp: offers_wf_def)
next
  case (register g off req)
  with assms(1) show ?thesis by (fastforce simp: offers_wf_def)
next
  case other
  with assms(1) show ?thesis by (fastforce simp: offers_wf_def offer_part_def)
qed (use assms(1) in \<open>auto simp: offers_wf_def less_Suc_eq\<close>)

fun wo_holds :: "wait_offer_pc option \<Rightarrow> nat \<Rightarrow> string \<Rightarrow> bool" where
  "wo_holds (Some (WOSelect ch req)) c h = (c = ch \<and> h = WaitForOfferRequest_HostId req)"
| "wo_holds _ c h = False"

fun or_holds :: "offer_router \<Rightarrow> nat \<Rightarrow> string \<Rightarrow> bool" where
  "or_holds (ORSend ch off) c h = (c = ch \<and> h = off_hostID off)"
| "or_holds ORIdle c h = False"

fun buffered_for :: "offering chan option \<Rightarrow> string \<Rightarrow> bool" where
  "buffered_for (Some ch) h = (h \<in> off_hostID ` set (chBuf ch))"
| "buffered_for None h = False"

definition host_holds :: "AnswererServer \<Rightarrow> nat \<Rightarrow> string \<Rightarrow> bool" where
  "host_holds s c h \<longleftrightarrow>
     hostID2waitingCh s h = Some c \<or> (\<exists>g. wo_holds (offerWaits s g) c h) \<or>
     or_holds (offerRouterPc s) c h \<or> buffered_for (offerChans s c) h"

fun host_new :: "ans_label \<Rightarrow> AnswererServer \<Rightarrow> string" where
  "host_new (WaitOfferBy g (WOCall req)) s = WaitForOfferRequest_HostId req"
| "host_new (OfferHanded off) s = off_hostID off"
| "host_new _ s = ''''"

lemma host_holds_step:
  assumes "offers_wf s" "ans_step l s = Some s'" "host_holds s' c h"
  shows "host_holds s c h \<or> ansNext s \<le> c \<and> c < ansNext s' \<and> h = host_new l s"
  using assms(2)
proof (cases rule: offer_stepE)
  case (take g ch req k off vs)
  with assms(3) show ?thesis by (auto simp: host_holds_def split: if_splits)
next
  case (routed ch off k)
  with assms(3) show ?thesis by (auto simp: host_holds_def split: if_splits)
next
  case (register g off req)
  with assms(3) show ?thesis by (auto simp: host_holds_def split: if_splits)
next
  case other
  with assms(3) show ?thesis by (auto simp: host_holds_def offer_part_def)
qed (use assms(3) in \<open>auto simp: host_holds_def split: if_splits\<close>)

lemma ansNext_step: "ans_step l s = Some s' \<Longrightarrow> ansNext s \<le> ansNext s'"
  by (cases rule: offer_stepE) auto

interpretation hosts_own: channel_ownership ans_step ansNext offers_wf host_holds host_new
  "NewAnswererServer b" for b
proof unfold_locales
  show "offers_wf (NewAnswererServer b)"
    by (simp add: offers_wf_def NewAnswererServer_def)
  show "\<not> host_holds (NewAnswererServer b) c a" for c a
    by (simp add: host_holds_def NewAnswererServer_def)
qed (fact ansNext_step offers_wf_step host_holds_step)+

section \<open>Which offers WaitForOffer returns\<close>

definition offer_response :: "offering \<Rightarrow> OfferResponse" where
  "offer_response off =
     \<lparr>OfferResponse_OffererId = '''', OfferResponse_AnswererId = off_answererID off,
      OfferResponse_Body = off_offer off\<rparr>"

fun wo_history :: "offering set \<Rightarrow> wait_offer_pc option \<Rightarrow> bool" where
  "wo_history H (Some (WOGot off req)) = (off \<in> H \<and> off_hostID off = WaitForOfferRequest_HostId req)"
| "wo_history H (Some (WODone req (Inr resp))) =
     (\<exists>off\<in>H. off_hostID off = WaitForOfferRequest_HostId req \<and> resp = offer_response off)"
| "wo_history H _ = True"

definition offers_handed :: "ans_label list \<Rightarrow> offering set" where
  "offers_handed ls = {off. OfferHanded off \<in> set ls}"

definition offers_history :: "offering set \<Rightarrow> AnswererServer \<Rightarrow> bool" where
  "offers_history H s \<longleftrightarrow>
     (\<forall>c ch. offerChans s c = Some ch \<longrightarrow> set (chBuf ch) \<subseteq> H) \<and>
     (\<forall>c off. offerRouterPc s = ORSend c off \<longrightarrow> off \<in> H) \<and>
     (\<forall>g. wo_history H (offerWaits s g))"

lemma wo_history_mono: "wo_history H pc \<Longrightarrow> H \<subseteq> K \<Longrightarrow> wo_history K pc"
  by (induction H pc rule: wo_history.induct) auto

lemma offers_history_mono: "offers_history H s \<Longrightarrow> H \<subseteq> K \<Longrightarrow> offers_history K s"
  unfolding offers_history_def by (meson subset_trans subsetD wo_history_mono)

lemma offers_history_step:
  assumes H: "offers_history H s" and step: "ans_step l s = Some s'"
    and new: "\<And>off. l = OfferHanded off \<Longrightarrow> off \<in> H"
    and own: "\<And>c a b. host_holds s c a \<Longrightarrow> host_holds s c b \<Longrightarrow> a = b"
  shows "offers_history H s'"
  using step
proof (cases rule: offer_stepE)
  case (take g ch req c off vs)
  have "off_hostID off = WaitForOfferRequest_HostId req"
  proof (rule own [of ch])
    show "host_holds s ch (off_hostID off)" using take by (simp add: host_holds_def)
    show "host_holds s ch (WaitForOfferRequest_HostId req)"
      using take(2) unfolding host_holds_def by (metis wo_holds.simps(1))
  qed
  moreover have "off \<in> H" "set vs \<subseteq> H" using H take unfolding offers_history_def by fastforce+
  ultimately show ?thesis using H take by (auto simp: offers_history_def)
next
  case (routed ch off c)
  with H show ?thesis by (auto simp: offers_history_def)
next
  case (register g off req)
  then have "wo_history H (Some (WOGot off req))"
    using H unfolding offers_history_def by metis
  with H register show ?thesis by (auto simp: offers_history_def offer_response_def)
next
  case (handed_found off ch)
  with H new show ?thesis by (auto simp: offers_history_def)
next
  case (handed_new off)
  with H new show ?thesis by (auto simp: offers_history_def)
next
  case other
  with H show ?thesis by (simp add: offers_history_def offer_part_def)
qed (use H in \<open>auto simp: offers_history_def\<close>)

lemma offers_history_run:
  "exec ans_step ls (NewAnswererServer b) = Some s \<Longrightarrow> offers_history (offers_handed ls) s"
proof (induction rule: exec_trace_induct)
  case start
  show ?case by (auto simp: NewAnswererServer_def offers_history_def)
next
  case (step ls l t u)
  have "offers_history (offers_handed (ls @ [l])) t"
    by (rule offers_history_mono [OF step.IH]) (auto simp: offers_handed_def)
  then show ?case
    by (rule offers_history_step [OF _ step.hyps(2)])
      (use hosts_own.exec_owner_unique [OF step.hyps(1)] in \<open>auto simp: offers_handed_def\<close>)
qed

text \<open>
  \<open>WaitForOffer\<close> never returns another host's offer. In every run of the answerer service,
  with any interleaving of handlers, routers and timers and any number of concurrent waiters, a
  response to a request for a host id carries the answerer id and the body of an offering that
  the offerer service handed over for exactly this host id.
\<close>

theorem offer_reaches_its_host:
  assumes "exec ans_step ls (NewAnswererServer b) = Some s"
    and "offerWaits s g = Some (WODone req (Inr resp))"
  shows "\<exists>off. OfferHanded off \<in> set ls \<and> off_hostID off = WaitForOfferRequest_HostId req \<and>
     OfferResponse_AnswererId resp = off_answererID off \<and> OfferResponse_Body resp = off_offer off"
proof -
  have "wo_history (offers_handed ls) (offerWaits s g)"
    using offers_history_run [OF assms(1)] by (simp add: offers_history_def)
  with assms(2) show ?thesis by (auto simp: offers_handed_def offer_response_def)
qed

lemmas ans_eval =
  NewAnswererServer_def new_bus_def make_chan_def chan_put_def chan_send_def chan_take_def
  chan_recv_def waiting_chan_def ice_chan_def host_timer_def ice_timer_def offerRouter_def
  offerRouter_send_def iceCandidateRouter_ans_def iceCandidateRouter_ans_send_def
  iceCandidateRouter_ans_close_def SendIceCandidate_ans_def waitForOfferTimeout_def
  waitingForIceCandidateAndAnswerTimeout_def ice_received_def
  WaitForOffer.simps SendAnswer.simps WaitForICECandidate_ans.simps

abbreviation req_h :: WaitForOfferRequest where
  "req_h \<equiv> \<lparr>WaitForOfferRequest_Token = None, WaitForOfferRequest_HostId = ''h''\<rparr>"

abbreviation off_h :: "string \<Rightarrow> offering" where
  "off_h a \<equiv> \<lparr>off_hostID = ''h'', off_answererID = a, off_offer = ''sdp''\<rparr>"

definition offer_run :: "ans_label list" where
  "offer_run =
     [WaitOfferBy 0 (WOCall req_h), OfferHanded (off_h ''a1''), OfferRouted, WaitOfferBy 0 WOTake,
      WaitOfferBy 0 WORegister]"

theorem offer_reaches_its_host_witness:
  "\<exists>off. OfferHanded off \<in> set offer_run \<and> off_hostID off = ''h'' \<and> off_answererID off = ''a1''"
proof -
  obtain s resp where s: "exec ans_step offer_run (NewAnswererServer new_bus) = Some s"
    and d: "offerWaits s 0 = Some (WODone req_h (Inr resp))"
    and r: "OfferResponse_AnswererId resp = ''a1''"
    by (simp add: offer_run_def ans_eval)
  from offer_reaches_its_host [OF s d] r show ?thesis by auto
qed

text \<open>
  \<open>OffererId\<close> is never filled in. Whatever the run, every response of \<open>WaitForOffer\<close> has the
  empty offerer id, although the message has the field, \<open>SendOffer\<close> draws an id for it and the
  service's test expects it.
\<close>

theorem WaitForOffer_has_no_offerer_id:
  assumes "exec ans_step ls (NewAnswererServer b) = Some s"
    and "offerWaits s g = Some (WODone req (Inr resp))"
  shows "OfferResponse_GetOffererId (Some resp) = ''''"
proof -
  have "wo_history (offers_handed ls) (offerWaits s g)"
    using offers_history_run [OF assms(1)] by (simp add: offers_history_def)
  with assms(2) show ?thesis by (auto simp: offer_response_def getter_defs)
qed

theorem WaitForOffer_has_no_offerer_id_witness:
  "\<exists>s resp. exec ans_step offer_run (NewAnswererServer new_bus) = Some s \<and>
     offerWaits s 0 = Some (WODone req_h (Inr resp)) \<and> OfferResponse_GetOffererId (Some resp) = ''''"
proof -
  obtain s resp where s: "exec ans_step offer_run (NewAnswererServer new_bus) = Some s"
    and d: "offerWaits s 0 = Some (WODone req_h (Inr resp))"
    by (simp add: offer_run_def ans_eval)
  from WaitForOffer_has_no_offerer_id [OF s d] s d show ?thesis by blast
qed

section \<open>A host that listens first keeps its channel\<close>

definition untimed_entry :: "string \<Rightarrow> nat \<Rightarrow> AnswererServer \<Rightarrow> bool" where
  "untimed_entry h c s \<longleftrightarrow>
     hostID2waitingCh s h = Some c \<and> (\<forall>i d. hostTimers s i \<noteq> Some (h, d)) \<and> offerChans s c \<noteq> None"

lemma untimed_entry_step:
  assumes "untimed_entry h c s" "ans_step l s = Some s'"
  shows "untimed_entry h c s'"
  using assms(2)
proof (cases rule: offer_stepE)
  case (expire i h' d)
  with assms(1) show ?thesis by (auto simp: untimed_entry_def)
next
  case other
  with assms(1) show ?thesis by (auto simp: untimed_entry_def offer_part_def)
qed (use assms(1) in \<open>auto simp: untimed_entry_def\<close>)

interpretation untimed: stable_property ans_step "\<lambda>_. True" "untimed_entry h c" for h c
  by unfold_locales (rule untimed_entry_step)

lemma WaitForOffer_first_untimed:
  assumes "ans_step (WaitOfferBy g (WOCall req)) s = Some t"
    and "hostID2waitingCh s (WaitForOfferRequest_HostId req) = None"
    and "\<forall>i d. hostTimers s i \<noteq> Some (WaitForOfferRequest_HostId req, d)"
  shows "untimed_entry (WaitForOfferRequest_HostId req) (ansNext s) t"
  using assms
  by (auto simp: WaitForOffer.simps waiting_chan_def untimed_entry_def split: option.splits)

text \<open>
  C21: a host that listens before its first offer is served. If \<open>WaitForOffer\<close> is called for a host
  id that has neither a channel nor a timer, then however the service runs on, this id stays
  mapped to the channel made for that call. And whenever some call waits on that channel, its buffer
  is empty and the offer router is idle (it can be busy, even for ever, with an offering for another
  host), the next offering for the host is handed to that very call in four steps, and nothing but
  the body and the answerer id of that offering is returned.
\<close>

theorem listening_host_is_served:
  assumes "exec ans_step pre (NewAnswererServer b) = Some s0"
    and "hostID2waitingCh s0 (WaitForOfferRequest_HostId req) = None"
    and "\<forall>i d. hostTimers s0 i \<noteq> Some (WaitForOfferRequest_HostId req, d)"
    and "exec ans_step (WaitOfferBy g0 (WOCall req) # ls) s0 = Some s"
  shows "hostID2waitingCh s (WaitForOfferRequest_HostId req) = Some (ansNext s0) \<and>
     (\<forall>g off. offerWaits s g = Some (WOSelect (ansNext s0) req) \<longrightarrow> offerRouterPc s = ORIdle \<longrightarrow>
        map_option chBuf (offerChans s (ansNext s0)) = Some [] \<longrightarrow>
        off_hostID off = WaitForOfferRequest_HostId req \<longrightarrow>
        (\<exists>s'. exec ans_step [OfferHanded off, OfferRouted, WaitOfferBy g WOTake, WaitOfferBy g WORegister] s
            = Some s' \<and> offerWaits s' g = Some (WODone req (Inr (offer_response off)))))"
proof -
  from assms(4) obtain t where t: "ans_step (WaitOfferBy g0 (WOCall req)) s0 = Some t"
    and run: "exec ans_step ls t = Some s"
    by (auto split: option.splits)
  have "untimed_entry (WaitForOfferRequest_HostId req) (ansNext s0) s"
    using untimed.exec_keeps [OF run WaitForOffer_first_untimed [OF t assms(2,3)]]
    by (simp add: list_all_iff)
  then have h: "hostID2waitingCh s (WaitForOfferRequest_HostId req) = Some (ansNext s0)"
    by (simp add: untimed_entry_def)
  have "exec ans_step (pre @ WaitOfferBy g0 (WOCall req) # ls) (NewAnswererServer b) = Some s"
    using assms(1,4) by (simp add: exec_append)
  then have wf: "offers_wf s" by (rule hosts_own.exec_good)
  have "\<exists>s'. exec ans_step [OfferHanded off, OfferRouted, WaitOfferBy g WOTake, WaitOfferBy g WORegister] s
      = Some s' \<and> offerWaits s' g = Some (WODone req (Inr (offer_response off)))"
    if "offerWaits s g = Some (WOSelect (ansNext s0) req)" "offerRouterPc s = ORIdle"
      and e: "map_option chBuf (offerChans s (ansNext s0)) = Some []"
      and "off_hostID off = WaitForOfferRequest_HostId req" for g off
  proof -
    obtain ch where ch: "offerChans s (ansNext s0) = Some ch" "chBuf ch = []" using e by auto
    with wf have "chCap ch = 1" "\<not> chClosed ch" by (auto simp: offers_wf_def)
    with ch h that show ?thesis
      by (simp add: offerRouter_def waiting_chan_def offerRouter_send_def chan_put_def chan_send_def
          chan_take_def chan_recv_def WaitForOffer.simps offer_response_def)
  qed
  with h show ?thesis by blast
qed

theorem listening_host_is_served_witness:
  "\<exists>s'. exec ans_step [WaitOfferBy 0 (WOCall req_h), AnsTick (60 * second), OfferHanded (off_h ''a1''),
      OfferRouted, WaitOfferBy 0 WOTake, WaitOfferBy 0 WORegister] (NewAnswererServer new_bus) = Some s' \<and>
     offerWaits s' 0 = Some (WODone req_h (Inr (offer_response (off_h ''a1''))))"
proof -
  let ?s0 = "NewAnswererServer new_bus"
  have e: "exec ans_step [] ?s0 = Some ?s0" by simp
  have n: "hostID2waitingCh ?s0 (WaitForOfferRequest_HostId req_h) = None"
    "\<forall>i d. hostTimers ?s0 i \<noteq> Some (WaitForOfferRequest_HostId req_h, d)"
    by (simp_all add: NewAnswererServer_def)
  obtain s where s: "exec ans_step (WaitOfferBy 0 (WOCall req_h) # [AnsTick (60 * second)]) ?s0 = Some s"
    and w: "offerWaits s 0 = Some (WOSelect (ansNext ?s0) req_h)" and i: "offerRouterPc s = ORIdle"
    and b: "map_option chBuf (offerChans s (ansNext ?s0)) = Some []"
    by (simp add: ans_eval)
  from listening_host_is_served [OF e n s] w i b
  have "\<exists>s'. exec ans_step [OfferHanded (off_h ''a1''), OfferRouted, WaitOfferBy 0 WOTake,
        WaitOfferBy 0 WORegister] s = Some s' \<and>
      offerWaits s' 0 = Some (WODone req_h (Inr (offer_response (off_h ''a1''))))"
    by simp
  with s show ?thesis by (auto split: option.splits)
qed

section \<open>What the timer of the offer router breaks\<close>

definition unregistered_chan :: "nat \<Rightarrow> AnswererServer \<Rightarrow> bool" where
  "unregistered_chan c s \<longleftrightarrow> c < ansNext s \<and> (\<forall>h. hostID2waitingCh s h \<noteq> Some c)"

definition waiter_orphaned :: "nat \<Rightarrow> nat \<Rightarrow> WaitForOfferRequest \<Rightarrow> AnswererServer \<Rightarrow> bool" where
  "waiter_orphaned g c req s \<longleftrightarrow>
     unregistered_chan c s \<and> (\<forall>off. offerRouterPc s \<noteq> ORSend c off) \<and>
     (\<forall>ch. offerChans s c = Some ch \<longrightarrow> chBuf ch = []) \<and>
     (offerWaits s g = Some (WOSelect c req) \<or>
      offerWaits s g = Some (WODone req (Inl (Status DeadlineExceeded ''timeout''))))"

lemma waiter_orphaned_step:
  assumes "waiter_orphaned g c req s" "ans_step l s = Some s'"
  shows "waiter_orphaned g c req s'"
  using assms(2)
proof (cases rule: offer_stepE)
  case other
  with assms(1) show ?thesis by (auto simp: waiter_orphaned_def unregistered_chan_def offer_part_def)
next
  case (take g' ch req' k off vs)
  with assms(1) show ?thesis by (auto simp: waiter_orphaned_def unregistered_chan_def split: if_splits)
next
  case (register g' off req')
  with assms(1) show ?thesis by (auto simp: waiter_orphaned_def unregistered_chan_def split: if_splits)
next
  case (routed ch off k)
  with assms(1) show ?thesis by (auto simp: waiter_orphaned_def unregistered_chan_def split: if_splits)
qed (use assms(1) in \<open>auto simp: waiter_orphaned_def unregistered_chan_def split: if_splits\<close>)

interpretation orphan: stable_property ans_step "\<lambda>_. True" "waiter_orphaned g c req" for g c req
  by unfold_locales (rule waiter_orphaned_step)

text \<open>
  An orphaned waiter is never served. If a \<open>WaitForOffer\<close> waits on an empty channel that no host id
  is mapped to any more, because the timer of an earlier offering deleted the entry, then no
  continuation whatsoever delivers an offer to it: it waits or fails with \<open>DeadlineExceeded\<close>,
  while offerings for its host go to a channel made anew.
\<close>

theorem orphaned_waiter_is_never_served:
  assumes "offerWaits s g = Some (WOSelect c req)"
    and "c < ansNext s" and "\<forall>h. hostID2waitingCh s h \<noteq> Some c"
    and "\<forall>off. offerRouterPc s \<noteq> ORSend c off"
    and "\<forall>ch. offerChans s c = Some ch \<longrightarrow> chBuf ch = []"
    and "exec ans_step ls s = Some s'"
  shows "offerWaits s' g = Some (WOSelect c req) \<or>
     offerWaits s' g = Some (WODone req (Inl (Status DeadlineExceeded ''timeout'')))"
proof -
  have "waiter_orphaned g c req s" using assms(1-5) by (simp add: waiter_orphaned_def unregistered_chan_def)
  then have "waiter_orphaned g c req s'"
    using orphan.exec_keeps [OF assms(6)] by (simp add: list_all_iff)
  then show ?thesis by (simp add: waiter_orphaned_def)
qed

definition orphan_run :: "ans_label list" where
  "orphan_run =
     [OfferHanded (off_h ''a1''), OfferRouted,
      WaitOfferBy 0 (WOCall req_h), WaitOfferBy 0 WOTake, WaitOfferBy 0 WORegister,
      WaitOfferBy 1 (WOCall req_h), AnsTick (10 * second), HostTimer 0,
      OfferHanded (off_h ''a2''), OfferRouted]"

theorem orphaned_waiter_is_never_served_witness:
  "\<exists>s. exec ans_step orphan_run (NewAnswererServer new_bus) = Some s \<and>
     (\<forall>ls s' resp. exec ans_step ls s = Some s' \<longrightarrow> offerWaits s' 1 \<noteq> Some (WODone req_h (Inr resp)))"
proof -
  obtain s where s: "exec ans_step orphan_run (NewAnswererServer new_bus) = Some s"
    and w: "offerWaits s 1 = Some (WOSelect 0 req_h)" and n: "0 < ansNext s"
    and m: "\<forall>h. hostID2waitingCh s h \<noteq> Some 0" and r: "\<forall>off. offerRouterPc s \<noteq> ORSend 0 off"
    and b: "\<forall>ch. offerChans s 0 = Some ch \<longrightarrow> chBuf ch = []"
    by (simp add: orphan_run_def ans_eval)
  show ?thesis using orphaned_waiter_is_never_served [OF w n m r b] s by fastforce
qed

definition router_stuck :: "nat \<Rightarrow> offering \<Rightarrow> AnswererServer \<Rightarrow> bool" where
  "router_stuck c off s \<longleftrightarrow>
     unregistered_chan c s \<and> offerRouterPc s = ORSend c off \<and>
     (\<exists>ch. offerChans s c = Some ch \<and> chCap ch \<le> length (chBuf ch)) \<and>
     (\<forall>g req. offerWaits s g \<noteq> Some (WOSelect c req))"

lemma router_stuck_step:
  assumes "router_stuck c off s" "ans_step l s = Some s'"
  shows "router_stuck c off s'"
  using assms(2)
proof (cases rule: offer_stepE)
  case other
  with assms(1) show ?thesis by (auto simp: router_stuck_def unregistered_chan_def offer_part_def)
next
  case (register g' off req')
  with assms(1) show ?thesis by (auto simp: router_stuck_def unregistered_chan_def split: if_splits)
qed (use assms(1) in \<open>auto simp: router_stuck_def unregistered_chan_def split: if_splits\<close>)

interpretation router_jam: stable_property ans_step "\<lambda>_. True" "router_stuck c off" for c off
  by unfold_locales (rule router_stuck_step)

text \<open>
  C22: two offers that nobody fetches block every host. If the offer router waits to send to a full
  channel that no host id is mapped to any more, and no \<open>WaitForOffer\<close> call waits on this channel, then
  the router stays there for ever: in no continuation does it accept another offering, for whatever host.
\<close>

theorem unfetched_offers_block_all_hosts:
  assumes "offerRouterPc s = ORSend c off" and "c < ansNext s"
    and "\<forall>h. hostID2waitingCh s h \<noteq> Some c"
    and "offerChans s c = Some ch" "chCap ch \<le> length (chBuf ch)"
    and "\<forall>g req. offerWaits s g \<noteq> Some (WOSelect c req)"
    and "exec ans_step ls s = Some s'"
  shows "ans_step (OfferHanded off') s' = None \<and> ans_step OfferRouted s' = None"
proof -
  have "router_stuck c off s" using assms(1-6) by (simp add: router_stuck_def unregistered_chan_def)
  then have "router_stuck c off s'"
    using router_jam.exec_keeps [OF assms(7)] by (simp add: list_all_iff)
  then show ?thesis
    by (auto simp: router_stuck_def offerRouter_def offerRouter_send_def chan_put_def chan_send_def)
qed

definition jam_run :: "ans_label list" where
  "jam_run =
     [OfferHanded (off_h ''a1''), OfferRouted, OfferHanded (off_h ''a2''),
      AnsTick (10 * second), HostTimer 0, WaitOfferBy 0 (WOCall req_h)]"

theorem unfetched_offers_block_all_hosts_witness:
  "\<exists>s. exec ans_step jam_run (NewAnswererServer new_bus) = Some s \<and>
     (\<forall>ls s' off'. exec ans_step ls s = Some s' \<longrightarrow> ans_step (OfferHanded off') s' = None)"
proof -
  obtain s ch where s: "exec ans_step jam_run (NewAnswererServer new_bus) = Some s"
    and r: "offerRouterPc s = ORSend 0 (off_h ''a2'')" and n: "0 < ansNext s"
    and m: "\<forall>h. hostID2waitingCh s h \<noteq> Some 0"
    and c: "offerChans s 0 = Some ch" "chCap ch \<le> length (chBuf ch)"
    and w: "\<forall>g req. offerWaits s g \<noteq> Some (WOSelect 0 req)"
    by (simp add: jam_run_def ans_eval)
  show ?thesis using unfetched_offers_block_all_hosts [OF r n m c w] s by blast
qed

section \<open>Which candidates WaitForICECandidate sends\<close>

definition ice_wf :: "AnswererServer \<Rightarrow> bool" where
  "ice_wf s \<longleftrightarrow>
     (\<forall>c ch. iceChans s c = Some ch \<longrightarrow>
        c < ansNext s \<and> chCap ch = 1024 \<and> \<not> chClosed ch \<and> length (chBuf ch) \<le> 1024)"

lemma ice_wf_ice_chan: "ice_wf s \<Longrightarrow> ice_wf (snd (ice_chan a s))"
  by (cases rule: ice_chanE [of s a]) (auto simp: ice_wf_def less_Suc_eq)

lemma ice_wf_step:
  assumes "ice_wf s" "ans_step l s = Some s'"
  shows "ice_wf s'"
  using assms(2)
proof (cases rule: candidate_stepE)
  case (opened g off req)
  with ice_wf_ice_chan [OF assms(1)] show ?thesis by (simp add: ice_wf_def candidate_part_def)
next
  case (taken pkt b)
  with ice_wf_ice_chan [OF assms(1)] show ?thesis by (simp add: ice_wf_def)
next
  case (routed ch pkt c)
  with assms(1) show ?thesis by (fastforce simp: ice_wf_def)
next
  case (take g ch req d c ice vs)
  with assms(1) show ?thesis by (fastforce simp: ice_wf_def)
next
  case other
  with assms(1) show ?thesis by (fastforce simp: ice_wf_def candidate_part_def)
qed (use assms(1) in \<open>auto simp: ice_wf_def\<close>)

fun aw_holds :: "ans_wait_ice_pc option \<Rightarrow> nat \<Rightarrow> string \<Rightarrow> bool" where
  "aw_holds (Some (AWSelect ch req d)) c a =
     (c = ch \<and> a = WaitForICECandidateRequest_AnswererId req)"
| "aw_holds (Some (AWSend ch req d ice)) c a =
     (c = ch \<and> a = WaitForICECandidateRequest_AnswererId req)"
| "aw_holds _ c a = False"

fun ai_holds :: "ans_ice_router \<Rightarrow> nat \<Rightarrow> string \<Rightarrow> bool" where
  "ai_holds (AISend ch pkt) c a = (c = ch \<and> a = ice_answererID pkt)"
| "ai_holds AIIdle c a = False"

definition cand_holds :: "AnswererServer \<Rightarrow> nat \<Rightarrow> string \<Rightarrow> bool" where
  "cand_holds s c a \<longleftrightarrow>
     AnsID2iceToAnsChan s a = Some c \<or> (\<exists>g. aw_holds (ansIceWaits s g) c a) \<or>
     ai_holds (ansIceRouterPc s) c a"

fun cand_new :: "ans_label \<Rightarrow> AnswererServer \<Rightarrow> string" where
  "cand_new AnsIceTaken s =
     (case chBuf (iceToAnsCh (ansBus s)) of pkt # _ \<Rightarrow> ice_answererID pkt | [] \<Rightarrow> '''')"
| "cand_new (WaitOfferBy g ev) s =
     (case offerWaits s g of Some (WOGot off req) \<Rightarrow> off_answererID off | _ \<Rightarrow> '''')"
| "cand_new _ s = ''''"

lemma ice_chan_holds:
  "cand_holds (snd (ice_chan a s)) c x \<Longrightarrow>
     cand_holds s c x \<or> ansNext s \<le> c \<and> c < ansNext (snd (ice_chan a s)) \<and> x = a"
  by (cases rule: ice_chanE [of s a]) (auto simp: cand_holds_def split: if_splits)

lemma ice_chan_registered: "cand_holds (snd (ice_chan a s)) (fst (ice_chan a s)) a"
  by (cases rule: ice_chanE [of s a]) (auto simp: cand_holds_def)

lemma cand_holds_step:
  assumes "ice_wf s" "ans_step l s = Some s'" "cand_holds s' c a"
  shows "cand_holds s c a \<or> ansNext s \<le> c \<and> c < ansNext s' \<and> a = cand_new l s"
  using assms(2)
proof (cases rule: candidate_stepE)
  case (opened g off req)
  with assms(3) have "cand_holds (snd (ice_chan (off_answererID off) s)) c a"
    by (simp add: cand_holds_def candidate_part_def)
  from ice_chan_holds [OF this] opened show ?thesis by auto
next
  case (taken pkt b)
  let ?t = "snd (ice_chan (ice_answererID pkt) s)"
  have new: "cand_new l s = ice_answererID pkt" using taken by (auto simp: chan_take_Some_iff)
  from assms(3) taken(4) have "cand_holds ?t c a \<or>
      c = fst (ice_chan (ice_answererID pkt) s) \<and> a = ice_answererID pkt"
    by (auto simp: cand_holds_def)
  then have "cand_holds ?t c a" using ice_chan_registered by blast
  from ice_chan_holds [OF this] taken(4) new show ?thesis by auto
next
  case (take g ch req d k ice vs)
  with assms(3) show ?thesis
    unfolding cand_holds_def by (auto split: if_splits) (metis aw_holds.simps(1))+
next
  case (resume g ch req d ice)
  with assms(3) show ?thesis
    unfolding cand_holds_def by (auto split: if_splits) (metis aw_holds.simps(2))+
next
  case other
  with assms(3) show ?thesis by (auto simp: cand_holds_def candidate_part_def)
qed (use assms(3) in \<open>auto simp: cand_holds_def split: if_splits\<close>)

interpretation cands_own: channel_ownership ans_step ansNext ice_wf cand_holds cand_new
  "NewAnswererServer b" for b
proof unfold_locales
  show "ice_wf (NewAnswererServer b)"
    by (simp add: ice_wf_def NewAnswererServer_def)
  show "\<not> cand_holds (NewAnswererServer b) c a" for c a
    by (simp add: cand_holds_def NewAnswererServer_def)
qed (fact ansNext_step ice_wf_step cand_holds_step)+

lemma iceToAnsCh_step:
  assumes "ans_step l s = Some s'"
  shows "set (chBuf (iceToAnsCh (ansBus s'))) \<subseteq>
     set (chBuf (iceToAnsCh (ansBus s))) \<union> {pkt. l = IceToAnsArrives pkt}"
proof (cases l)
  case (AnsSendIceBy g ev)
  with assms obtain pc b where "s' = s\<lparr>ansIceSends := (ansIceSends s)(g \<mapsto> pc), ansBus := b\<rparr>"
    and st: "ice_stream ev (ansIceSends s g)
         (\<lambda>pkt. map_option (\<lambda>c. (ansBus s)\<lparr>iceToOfferCh := c\<rparr>) (chan_put (iceToOfferCh (ansBus s)) pkt))
         (ansBus s) = Some (pc, b)"
    by (auto simp: SendIceCandidate_ans_def)
  moreover from st have "iceToAnsCh b = iceToAnsCh (ansBus s)"
    by (rule ice_stream_keeps) auto
  ultimately show ?thesis by simp
next
  case (WaitOfferBy g ev)
  with assms show ?thesis
    by (cases ev) (auto simp: WaitForOffer.simps case_prod_unfold Let_def
        split: option.splits wait_offer_pc.splits)
next
  case (SendAnswerBy g ev)
  with assms show ?thesis
    by (cases ev) (auto simp: SendAnswer.simps split: option.splits send_answer_pc.splits)
next
  case (AnsWaitIceBy g ev)
  with assms show ?thesis
    by (cases ev) (auto simp: WaitForICECandidate_ans.simps
        split: option.splits ans_wait_ice_pc.splits if_splits)
next
  case AnsIceTaken
  with assms show ?thesis
    by (auto simp: iceCandidateRouter_ans_def case_prod_unfold Let_def chan_take_Some_iff
        split: option.splits ans_ice_router.splits)
qed (use assms in \<open>auto simp: offerRouter_def offerRouter_send_def iceCandidateRouter_ans_send_def
    iceCandidateRouter_ans_close_def host_timer_def ice_timer_def case_prod_unfold Let_def
    chan_put_Some_iff chan_take_Some_iff
    split: option.splits offer_router.splits ans_ice_router.splits if_splits\<close>)

definition cand_known :: "IcePacket set \<Rightarrow> string \<Rightarrow> string \<Rightarrow> bool" where
  "cand_known H a v \<longleftrightarrow> (\<exists>pkt\<in>H. ice_answererID pkt = a \<and> iceCandidate pkt = v)"

definition cands_history :: "IcePacket set \<Rightarrow> AnswererServer \<Rightarrow> bool" where
  "cands_history H s \<longleftrightarrow>
     set (chBuf (iceToAnsCh (ansBus s))) \<subseteq> H \<and>
     (\<forall>c pkt. ansIceRouterPc s = AISend c pkt \<longrightarrow> pkt \<in> H) \<and>
     (\<forall>c ch a. iceChans s c = Some ch \<longrightarrow> cand_holds s c a \<longrightarrow> (\<forall>v \<in> set (chBuf ch). cand_known H a v)) \<and>
     (\<forall>g ch req d ice. ansIceWaits s g = Some (AWSend ch req d ice) \<longrightarrow>
        cand_known H (WaitForICECandidateRequest_AnswererId req) ice)"

lemma cand_known_mono: "cand_known H a v \<Longrightarrow> H \<subseteq> K \<Longrightarrow> cand_known K a v"
  by (auto simp: cand_known_def)

lemma cands_history_mono: "cands_history H s \<Longrightarrow> H \<subseteq> K \<Longrightarrow> cands_history K s"
  unfolding cands_history_def using cand_known_mono by (meson subset_trans subsetD)

lemma cands_history_step:
  assumes H: "cands_history H s" and wf: "ice_wf s" and step: "ans_step l s = Some s'"
    and new: "\<And>pkt. l = IceToAnsArrives pkt \<Longrightarrow> pkt \<in> H"
    and own: "\<And>c a b. cand_holds s c a \<Longrightarrow> cand_holds s c b \<Longrightarrow> a = b"
  shows "cands_history H s'"
proof -
  have bus: "set (chBuf (iceToAnsCh (ansBus s'))) \<subseteq> H"
    using iceToAnsCh_step [OF step] H new unfolding cands_history_def by blast
  have buf: "\<forall>v\<in>set (chBuf ch). cand_known H a v"
    if "iceChans s c = Some ch" "cand_holds s c a" for c ch a
    using H that unfolding cands_history_def by blast
  have snd: "cand_known H (WaitForICECandidateRequest_AnswererId req) ice"
    if "ansIceWaits s g = Some (AWSend ch req d ice)" for g ch req d ice
    using H that unfolding cands_history_def by blast
  have rt: "pkt \<in> H" if "ansIceRouterPc s = AISend c pkt" for c pkt
    using H that unfolding cands_history_def by blast
  have open': "\<forall>v\<in>set (chBuf ch). cand_known H x v"
    if "iceChans (snd (ice_chan a s)) c = Some ch" "cand_holds (snd (ice_chan a s)) c x" for a c ch x
    using that wf buf ice_chan_holds [OF that(2)]
    by (cases rule: ice_chanE [of s a]) (auto simp: ice_wf_def split: if_splits)
  have old: "cand_holds s c a" if "cand_holds s' c a" "iceChans s c = Some ch" for c ch a
  proof -
    have "c < ansNext s" using wf that(2) unfolding ice_wf_def by blast
    with cand_holds_step [OF wf step that(1)] show ?thesis by simp
  qed
  have bufs': "\<forall>v\<in>set (chBuf ch). cand_known H a v"
    if c: "iceChans s' c = Some ch" and a: "cand_holds s' c a" for c ch a
    using step
  proof (cases rule: candidate_stepE)
    case (opened g off req)
    with c a show ?thesis
      by (intro open' [of "off_answererID off" c]) (simp_all add: cand_holds_def candidate_part_def)
  next
    case (taken pkt b)
    have "cand_holds (snd (ice_chan (ice_answererID pkt) s)) c a"
      using a taken(4) ice_chan_registered [of "ice_answererID pkt" s]
      by (auto simp: cand_holds_def)
    with c taken(4) show ?thesis by (intro open') simp_all
  next
    case (routed k pkt q)
    show ?thesis
    proof (cases "c = k")
      case True
      have "cand_holds s k (ice_answererID pkt)" using routed(2) by (simp add: cand_holds_def)
      moreover have "cand_holds s k a" using old [OF a] True routed(3) by simp
      ultimately have "a = ice_answererID pkt" by (rule own [symmetric])
      moreover have "cand_known H (ice_answererID pkt) (iceCandidate pkt)"
        using rt [OF routed(2)] unfolding cand_known_def by blast
      ultimately show ?thesis
        using c routed True buf [OF routed(3)] \<open>cand_holds s k a\<close> by auto
    next
      case False
      with c routed old [OF a] show ?thesis by (intro buf) auto
    qed
  next
    case (take g k req d q ice vs)
    show ?thesis
    proof (cases "c = k")
      case True
      then have "cand_holds s k a" using old [OF a] take(3) by simp
      from buf [OF take(3) this] take(4) c take True show ?thesis by auto
    next
      case False
      with c take old [OF a] show ?thesis by (intro buf) auto
    qed
  next
    case other
    then have "iceChans s c = Some ch" using c by (simp add: candidate_part_def)
    with old [OF a] show ?thesis by (intro buf)
  qed (use c old [OF a] buf in simp_all)
  moreover have "cand_known H (WaitForICECandidateRequest_AnswererId req) ice"
    if w: "ansIceWaits s' g = Some (AWSend ch req d ice)" for g ch req d ice
    using step
  proof (cases rule: candidate_stepE)
    case (take g' k req' d' q ice' vs)
    have "cand_holds s k (WaitForICECandidateRequest_AnswererId req')"
      using take(2) unfolding cand_holds_def by (metis aw_holds.simps(1))
    from buf [OF take(3) this] take snd w show ?thesis by (auto split: if_splits)
  next
    case (opened g' off req')
    with w snd show ?thesis by (simp add: candidate_part_def)
  next
    case other
    with w snd show ?thesis by (simp add: candidate_part_def)
  qed (use w snd in \<open>auto split: if_splits\<close>)
  moreover have "pkt \<in> H" if w: "ansIceRouterPc s' = AISend c pkt" for c pkt
    using step
  proof (cases rule: candidate_stepE)
    case (taken p b)
    then have "p \<in> H" using H by (auto simp: cands_history_def chan_take_Some_iff)
    with taken(4) w show ?thesis by simp
  next
    case (opened g' off req')
    then have "ansIceRouterPc s' = ansIceRouterPc s" by (simp add: candidate_part_def)
    with w show ?thesis by (intro rt) simp
  next
    case other
    then have "ansIceRouterPc s' = ansIceRouterPc s" by (simp add: candidate_part_def)
    with w show ?thesis by (intro rt) simp
  qed (use w rt in auto)
  ultimately show ?thesis using bus unfolding cands_history_def by blast
qed

definition cands_arrived :: "ans_label list \<Rightarrow> IcePacket set" where
  "cands_arrived ls = {pkt. IceToAnsArrives pkt \<in> set ls}"

lemma cands_history_run:
  "exec ans_step ls (NewAnswererServer new_bus) = Some s \<Longrightarrow> cands_history (cands_arrived ls) s"
proof (induction rule: exec_trace_induct)
  case start
  show ?case by (auto simp: NewAnswererServer_def cands_history_def new_bus_def)
next
  case (step ls l t u)
  have "cands_history (cands_arrived (ls @ [l])) t"
    by (rule cands_history_mono [OF step.IH]) (auto simp: cands_arrived_def)
  then show ?case
    by (rule cands_history_step [OF _ cands_own.exec_good [OF step.hyps(1)] step.hyps(2)])
      (use cands_own.exec_owner_unique [OF step.hyps(1)] in \<open>auto simp: cands_arrived_def\<close>)
qed

text \<open>
  The answerer's \<open>WaitForICECandidate\<close> forwards only candidates of its answerer id. In every
  run, whatever a handler is about to send on its stream is the candidate of a packet that the
  offerer service put on the shared channel for the answerer id of the handler's request.
\<close>

theorem candidate_reaches_its_addressee:
  assumes "exec ans_step ls (NewAnswererServer new_bus) = Some s"
    and "ansIceWaits s g = Some (AWSend ch req d ice)"
  shows "\<exists>pkt. IceToAnsArrives pkt \<in> set ls \<and> iceCandidate pkt = ice \<and>
     ice_answererID pkt = WaitForICECandidateRequest_AnswererId req"
  using cands_history_run [OF assms(1)] assms(2)
  unfolding cands_history_def cands_arrived_def cand_known_def by blast

abbreviation req_a1 :: WaitForICECandidateRequest where
  "req_a1 \<equiv> \<lparr>WaitForICECandidateRequest_Token = None, WaitForICECandidateRequest_AnswererId = ''a1''\<rparr>"

definition candidate_run :: "ans_label list" where
  "candidate_run =
     [IceToAnsArrives \<lparr>ice_answererID = ''a1'', iceCandidate = ''c1''\<rparr>, AnsIceTaken, AnsIceRouted,
      AnsWaitIceBy 0 (AWCall req_a1), AnsWaitIceBy 0 AWTake]"

theorem candidate_reaches_its_addressee_witness:
  "\<exists>pkt. IceToAnsArrives pkt \<in> set candidate_run \<and> iceCandidate pkt = ''c1'' \<and>
     ice_answererID pkt = ''a1''"
proof -
  obtain s where s: "exec ans_step candidate_run (NewAnswererServer new_bus) = Some s"
    and w: "ansIceWaits s 0 = Some (AWSend 0 req_a1 (10 * second) ''c1'')"
    by (simp add: candidate_run_def ans_eval)
  from candidate_reaches_its_addressee [OF s w] show ?thesis by simp
qed

section \<open>References\<close>

text \<open>
  Every channel that a map, a handler or a router refers to is one that was made, and of the right
  kind: offers and candidates have separate heaps.
\<close>

fun wo_refers :: "wait_offer_pc option \<Rightarrow> nat \<Rightarrow> bool" where
  "wo_refers (Some (WOSelect ch req)) c = (c = ch)"
| "wo_refers _ c = False"

fun or_refers :: "offer_router \<Rightarrow> nat \<Rightarrow> bool" where
  "or_refers (ORSend ch off) c = (c = ch)"
| "or_refers ORIdle c = False"

fun aw_refers :: "ans_wait_ice_pc option \<Rightarrow> nat \<Rightarrow> bool" where
  "aw_refers (Some (AWSelect ch req d)) c = (c = ch)"
| "aw_refers (Some (AWSend ch req d ice)) c = (c = ch)"
| "aw_refers _ c = False"

fun ai_refers :: "ans_ice_router \<Rightarrow> nat \<Rightarrow> bool" where
  "ai_refers (AISend ch pkt) c = (c = ch)"
| "ai_refers AIIdle c = False"

definition offer_refs :: "AnswererServer \<Rightarrow> nat \<Rightarrow> bool" where
  "offer_refs s c \<longleftrightarrow> (\<exists>h. hostID2waitingCh s h = Some c) \<or> (\<exists>g. wo_refers (offerWaits s g) c) \<or>
     or_refers (offerRouterPc s) c"

definition candidate_refs :: "AnswererServer \<Rightarrow> nat \<Rightarrow> bool" where
  "candidate_refs s c \<longleftrightarrow> (\<exists>a. AnsID2iceToAnsChan s a = Some c) \<or> (\<exists>g. aw_refers (ansIceWaits s g) c) \<or>
     ai_refers (ansIceRouterPc s) c"

definition refs_ok :: "AnswererServer \<Rightarrow> bool" where
  "refs_ok s \<longleftrightarrow> (\<forall>c. offer_refs s c \<longrightarrow> c \<in> dom (offerChans s)) \<and>
     (\<forall>c. candidate_refs s c \<longrightarrow> c \<in> dom (iceChans s))"

lemma offer_refs_step:
  assumes "ans_step l s = Some s'" "offer_refs s' c"
  shows "(offer_refs s c \<or> c \<in> dom (offerChans s')) \<and> dom (offerChans s) \<subseteq> dom (offerChans s')"
  using assms(1)
proof (cases rule: offer_stepE)
  case (take g ch req k off vs)
  with assms(2) show ?thesis by (auto simp: offer_refs_def split: if_splits)
next
  case (register g off req)
  with assms(2) show ?thesis by (auto simp: offer_refs_def split: if_splits)
next
  case other
  with assms(2) show ?thesis by (simp add: offer_refs_def offer_part_def)
qed (use assms(2) in \<open>auto simp: offer_refs_def split: if_splits\<close>)

lemma candidate_refs_ice_chan:
  "candidate_refs (snd (ice_chan a s)) c \<Longrightarrow>
     candidate_refs s c \<or> c \<in> dom (iceChans (snd (ice_chan a s)))"
  "candidate_refs s (fst (ice_chan a s)) \<or> fst (ice_chan a s) \<in> dom (iceChans (snd (ice_chan a s)))"
  "dom (iceChans s) \<subseteq> dom (iceChans (snd (ice_chan a s)))"
  by (cases rule: ice_chanE [of s a]; auto simp: candidate_refs_def split: if_splits)+

lemma candidate_refs_step:
  assumes "ans_step l s = Some s'" "candidate_refs s' c"
  shows "(candidate_refs s c \<or> c \<in> dom (iceChans s')) \<and> dom (iceChans s) \<subseteq> dom (iceChans s')"
  using assms(1)
proof (cases rule: candidate_stepE)
  case (opened g off req)
  then have "candidate_refs (snd (ice_chan (off_answererID off) s)) c"
    using assms(2) by (simp add: candidate_refs_def candidate_part_def)
  from candidate_refs_ice_chan(1) [OF this] candidate_refs_ice_chan(3) [of s "off_answererID off"] opened(3)
  show ?thesis by (simp add: candidate_part_def)
next
  case (taken pkt b)
  then have "candidate_refs (snd (ice_chan (ice_answererID pkt) s)) c \<or>
      c = fst (ice_chan (ice_answererID pkt) s)"
    using assms(2) by (auto simp: candidate_refs_def)
  then show ?thesis
    using candidate_refs_ice_chan [where a = "ice_answererID pkt" and s = s] taken(4) by auto
next
  case (take g ch req d k ice vs)
  have "candidate_refs s ch" using take(2) unfolding candidate_refs_def by (metis aw_refers.simps(1))
  with take assms(2) show ?thesis by (auto simp: candidate_refs_def split: if_splits)
next
  case (resume g ch req d ice)
  have "candidate_refs s ch" using resume(2) unfolding candidate_refs_def by (metis aw_refers.simps(2))
  with resume assms(2) show ?thesis by (auto simp: candidate_refs_def split: if_splits)
next
  case other
  with assms(2) show ?thesis by (simp add: candidate_refs_def candidate_part_def)
qed (use assms(2) in \<open>auto simp: candidate_refs_def split: if_splits\<close>)

interpretation ans_refs: machine_invariant ans_step "\<lambda>_. True" refs_ok "NewAnswererServer b" for b
proof unfold_locales
  show "refs_ok (NewAnswererServer b)"
    by (simp add: refs_ok_def offer_refs_def candidate_refs_def NewAnswererServer_def)
next
  show "refs_ok s'" if "refs_ok s" "ans_step l s = Some s'" for s l s'
    using that(1) offer_refs_step [OF that(2)] candidate_refs_step [OF that(2)]
    unfolding refs_ok_def by blast
qed

end
