(* ===== verification/SignalServer.thy ===== *)
theory SignalServer
  imports Auth HostServerProps OffererProps AnswererProps
begin

text \<open>
  The signalling server as a whole, \<^verbatim>\<open>server/server.go\<close>: \<open>Serve\<close> makes the channels, the
  four services, and starts them. The state is the product of the component states; a step is an
  internal step of one service, or a hand-over between two of them on an unbuffered channel:
  \<open>newHostSig\<close> (authentication to host manager), \<open>notifyNewOfferCh\<close> (offerer to host manager),
  \<open>offerCh\<close> and \<open>closeIceToAnsCh\<close> (offerer to answerer). The three buffered channels are the
  record \<open>bus\<close>, which both sides see. The projections of a run onto the services are runs of the
  component machines (three instances of the locale \<open>simulation\<close>), so what was proved of a service
  holds in the composition.
\<close>

section \<open>State and hand-overs\<close>

record signal_server =
  sigHost :: host_server
  sigOff :: OffererServer
  sigAns :: AnswererServer

definition Serve :: signal_server where
  "Serve = \<lparr>sigHost = NewHostServer, sigOff = NewOffererServer new_bus,
            sigAns = NewAnswererServer new_bus\<rparr>"

text \<open>Which steps of a service are its own, and not one end of a hand-over or of the bus.\<close>

fun host_local :: "hs_label \<Rightarrow> bool" where
  "host_local (Manager (NewHost h)) = False"
| "host_local (Manager (NewOffer h)) = False"
| "host_local (HostTick d) = False"
| "host_local _ = True"

fun off_local :: "off_label \<Rightarrow> bool" where
  "off_local (SendOfferBy g ev) = (ev \<noteq> SONotified \<and> ev \<noteq> SOTaken)"
| "off_local (WaitIceBy g ev) = (ev \<noteq> WIClosed)"
| "off_local (AnswerArrives pkt) = False"
| "off_local (IceArrives pkt) = False"
| "off_local IceTaken = False"
| "off_local (OffTick d) = False"
| "off_local _ = True"

fun ans_local :: "ans_label \<Rightarrow> bool" where
  "ans_local (OfferHanded off) = False"
| "ans_local CloseIceHanded = False"
| "ans_local AnswerLeaves = False"
| "ans_local IceToOfferLeaves = False"
| "ans_local (IceToAnsArrives pkt) = False"
| "ans_local (AnsTick d) = False"
| "ans_local _ = True"

datatype sig_label =
    LoginBy string "jwt_claims \<Rightarrow> string \<Rightarrow> go_error + string" InitHostRequest
  | HostDoes hs_label
  | OffDoes off_label
  | AnsDoes ans_label
  | NotifyManager nat
  | HandOffer nat
  | HandClose nat
  | SigTick duration

text \<open>
  \<open>LoginHost\<close> hands the new host id over before it answers. A panic ends the whole process; here, a
  \<open>LoginHost\<close> that panics changes nothing, and after a crash of the host manager the other services
  may still move. The model therefore has more runs than the program: what holds in all runs of the
  model holds in those of the program.
\<close>

fun sig_step :: "sig_label \<Rightarrow> signal_server \<Rightarrow> signal_server option" where
  "sig_step (LoginBy uuid sign req) S =
     map_option (\<lambda>hs. S\<lparr>sigHost := hs\<rparr>)
       (exec hs_step (map (\<lambda>h. Manager (NewHost h)) (fst (LoginHost uuid sign req))) (sigHost S))"
| "sig_step (HostDoes l) S =
     (if host_local l then map_option (\<lambda>hs. S\<lparr>sigHost := hs\<rparr>) (hs_step l (sigHost S)) else None)"
| "sig_step (OffDoes l) S =
     (if off_local l
      then map_option (\<lambda>s. S\<lparr>sigOff := s, sigAns := (sigAns S)\<lparr>ansBus := offBus s\<rparr>\<rparr>)
        (off_step l (sigOff S))
      else None)"
| "sig_step (AnsDoes l) S =
     (if ans_local l
      then map_option (\<lambda>s. S\<lparr>sigAns := s, sigOff := (sigOff S)\<lparr>offBus := ansBus s\<rparr>\<rparr>)
        (ans_step l (sigAns S))
      else None)"
| "sig_step (NotifyManager g) S =
     (case notify_value (sigOff S) g of
        None \<Rightarrow> None
      | Some h \<Rightarrow>
          (case (off_step (SendOfferBy g SONotified) (sigOff S), hs_step (Manager (NewOffer h)) (sigHost S)) of
             (Some s, Some hs) \<Rightarrow> Some (S\<lparr>sigOff := s, sigHost := hs\<rparr>)
           | _ \<Rightarrow> None))"
| "sig_step (HandOffer g) S =
     (case offer_value (sigOff S) g of
        None \<Rightarrow> None
      | Some off \<Rightarrow>
          (case (off_step (SendOfferBy g SOTaken) (sigOff S), ans_step (OfferHanded off) (sigAns S)) of
             (Some s, Some t) \<Rightarrow> Some (S\<lparr>sigOff := s, sigAns := t\<rparr>)
           | _ \<Rightarrow> None))"
| "sig_step (HandClose g) S =
     (case (off_step (WaitIceBy g WIClosed) (sigOff S), ans_step CloseIceHanded (sigAns S)) of
        (Some s, Some t) \<Rightarrow> Some (S\<lparr>sigOff := s, sigAns := t\<rparr>)
      | _ \<Rightarrow> None)"
| "sig_step (SigTick d) S =
     (case hs_step (HostTick d) (sigHost S) of
        None \<Rightarrow> None
      | Some hs \<Rightarrow>
          Some (S\<lparr>sigHost := hs, sigOff := (sigOff S)\<lparr>offNow := offNow (sigOff S) + d\<rparr>,
                  sigAns := (sigAns S)\<lparr>ansNow := ansNow (sigAns S) + d\<rparr>\<rparr>))"

section \<open>Projections\<close>

fun host_proj :: "sig_label \<Rightarrow> signal_server \<Rightarrow> hs_label list" where
  "host_proj (LoginBy uuid sign req) S = map (\<lambda>h. Manager (NewHost h)) (fst (LoginHost uuid sign req))"
| "host_proj (HostDoes l) S = [l]"
| "host_proj (NotifyManager g) S =
     (case notify_value (sigOff S) g of Some h \<Rightarrow> [Manager (NewOffer h)] | None \<Rightarrow> [])"
| "host_proj (SigTick d) S = [HostTick d]"
| "host_proj _ S = []"

definition forwarded :: "send_ice_pc option \<Rightarrow> IcePacket list" where
  "forwarded pc =
     (case pc of
        Some (IceStream (IWForward pkt)) \<Rightarrow> [pkt]
      | Some (IceStreamReturned e (IWForward pkt)) \<Rightarrow> [pkt]
      | _ \<Rightarrow> [])"

fun off_proj :: "sig_label \<Rightarrow> signal_server \<Rightarrow> off_label list" where
  "off_proj (OffDoes l) S = [l]"
| "off_proj (AnsDoes (SendAnswerBy g SAPut)) S =
     (case sendAnswers (sigAns S) g of Some (SAPending pkt) \<Rightarrow> [AnswerArrives pkt] | _ \<Rightarrow> [])"
| "off_proj (AnsDoes (AnsSendIceBy g SIForward)) S =
     map IceArrives (forwarded (ansIceSends (sigAns S) g))"
| "off_proj (AnsDoes AnsIceTaken) S = [IceTaken]"
| "off_proj (NotifyManager g) S = [SendOfferBy g SONotified]"
| "off_proj (HandOffer g) S = [SendOfferBy g SOTaken]"
| "off_proj (HandClose g) S = [WaitIceBy g WIClosed]"
| "off_proj (SigTick d) S = [OffTick d]"
| "off_proj _ S = []"

fun ans_proj :: "sig_label \<Rightarrow> signal_server \<Rightarrow> ans_label list" where
  "ans_proj (AnsDoes l) S = [l]"
| "ans_proj (OffDoes AnswerRouted) S = [AnswerLeaves]"
| "ans_proj (OffDoes IceRouted) S = [IceToOfferLeaves]"
| "ans_proj (OffDoes (SendIceBy g SIForward)) S =
     map IceToAnsArrives (forwarded (iceSends (sigOff S) g))"
| "ans_proj (HandOffer g) S =
     (case offer_value (sigOff S) g of Some off \<Rightarrow> [OfferHanded off] | None \<Rightarrow> [])"
| "ans_proj (HandClose g) S = [CloseIceHanded]"
| "ans_proj (SigTick d) S = [AnsTick d]"
| "ans_proj _ S = []"

text \<open>Both sides see the same buffered channels.\<close>

definition same_bus :: "signal_server \<Rightarrow> bool" where
  "same_bus S \<longleftrightarrow> ansBus (sigAns S) = offBus (sigOff S)"

lemma off_step_bus:
  assumes "off_step l s = Some s'"
    and "l \<noteq> AnswerRouted" "l \<noteq> IceRouted" "\<And>g. l \<noteq> SendIceBy g SIForward" "off_local l"
  shows "offBus s' = offBus s"
proof (cases l)
  case (SendOfferBy g ev)
  with assms(1) have "SendOffer g ev s = Some s'" by simp
  then show ?thesis by (cases rule: SendOffer_cases) (simp_all add: SendOffer_begin_def)
next
  case (WaitAnswerBy g ev)
  with assms(1) have "WaitForAnswer g ev s = Some s'" by simp
  then show ?thesis by (cases rule: WaitForAnswer_cases) simp_all
next
  case (WaitIceBy g ev)
  with assms(1) have "WaitForICECandidate_off g ev s = Some s'" by simp
  then show ?thesis by (cases rule: WaitForICECandidate_off_cases) simp_all
next
  case (SendIceBy g ev)
  then obtain pc where "ice_stream ev (iceSends s g)
      (\<lambda>pkt. map_option (\<lambda>c. (offBus s)\<lparr>iceToAnsCh := c\<rparr>) (chan_put (iceToAnsCh (offBus s)) pkt))
      (offBus s) = Some (pc, offBus s')"
    using assms(1) by (auto simp: SendIceCandidate_off_def)
  with SendIceBy assms(4) show ?thesis
    by (cases "(ev, iceSends s g, \<lambda>pkt. map_option (\<lambda>c. (offBus s)\<lparr>iceToAnsCh := c\<rparr>)
        (chan_put (iceToAnsCh (offBus s)) pkt), offBus s)" rule: ice_stream.cases) auto
qed (use assms in \<open>auto simp: answer_handover_def ice_handover_def SendOffer_cleanup_def
      split: answer_router.splits ice_router.splits option.splits wait_answer_pc.splits
        wait_ice_pc.splits if_splits\<close>)

lemma ans_step_bus:
  assumes "ans_step l s = Some s'"
    and "l \<noteq> AnsIceTaken" "\<And>g. l \<noteq> SendAnswerBy g SAPut" "\<And>g. l \<noteq> AnsSendIceBy g SIForward"
    and "ans_local l"
  shows "ansBus s' = ansBus s"
proof (cases l)
  case (WaitOfferBy g ev)
  with assms(1) show ?thesis
    by (cases ev) (auto simp: WaitForOffer.simps case_prod_unfold Let_def
        split: option.splits wait_offer_pc.splits)
next
  case (SendAnswerBy g ev)
  with assms(1,3) show ?thesis
    by (cases ev) (auto simp: SendAnswer.simps split: option.splits send_answer_pc.splits)
next
  case (AnsWaitIceBy g ev)
  with assms(1) show ?thesis
    by (cases ev) (auto simp: WaitForICECandidate_ans.simps
        split: option.splits ans_wait_ice_pc.splits if_splits)
next
  case (AnsSendIceBy g ev)
  then obtain pc where "ice_stream ev (ansIceSends s g)
      (\<lambda>pkt. map_option (\<lambda>c. (ansBus s)\<lparr>iceToOfferCh := c\<rparr>) (chan_put (iceToOfferCh (ansBus s)) pkt))
      (ansBus s) = Some (pc, ansBus s')"
    using assms(1) by (auto simp: SendIceCandidate_ans_def)
  with AnsSendIceBy assms(4) show ?thesis
    by (cases "(ev, ansIceSends s g, \<lambda>pkt. map_option (\<lambda>c. (ansBus s)\<lparr>iceToOfferCh := c\<rparr>)
        (chan_put (iceToOfferCh (ansBus s)) pkt), ansBus s)" rule: ice_stream.cases) auto
qed (use assms in \<open>auto simp: offerRouter_send_def iceCandidateRouter_ans_send_def host_timer_def
      ice_timer_def split: option.splits offer_router.splits ans_ice_router.splits if_splits\<close>)

text \<open>What one forwarded packet does to the bus, as the other side sees it.\<close>

lemma ice_stream_forward:
  assumes "ice_stream SIForward pc f b = Some (pc', b')"
  obtains pkt where "forwarded pc = [pkt]" "f pkt = Some b'"
  using assms
  by (cases "(SIForward, pc, f, b)" rule: ice_stream.cases) (auto simp: forwarded_def)

lemma same_bus_step:
  assumes "same_bus S" "sig_step l S = Some S'"
  shows "same_bus S'"
proof (cases l)
  case (NotifyManager g)
  with assms show ?thesis
    by (auto simp: same_bus_def split: option.splits elim!: SendOffer_cases)
next
  case (HandOffer g)
  from HandOffer assms(2) obtain off s t where st: "off_step (SendOfferBy g SOTaken) (sigOff S) = Some s"
      "ans_step (OfferHanded off) (sigAns S) = Some t" "S' = S\<lparr>sigOff := s, sigAns := t\<rparr>"
    by (auto split: option.splits)
  have "offBus s = offBus (sigOff S)"
    using st(1) by (auto simp: SendOffer_begin_def elim!: SendOffer_cases)
  moreover have "ansBus t = ansBus (sigAns S)"
    using st(2) by (auto simp: offerRouter_def case_prod_unfold Let_def split: offer_router.splits)
  ultimately show ?thesis using assms(1) st(3) by (simp add: same_bus_def)
next
  case (HandClose g)
  with assms show ?thesis
    by (auto simp: same_bus_def iceCandidateRouter_ans_close_def
        split: option.splits ans_ice_router.splits elim!: WaitForICECandidate_off_cases)
qed (use assms in \<open>auto simp: same_bus_def split: option.splits if_splits\<close>)

interpretation host_view: simulation sig_step hs_step sigHost host_proj "\<lambda>_. True"
proof unfold_locales
  fix S l S' assume "sig_step l S = Some S'"
  then show "exec hs_step (host_proj l S) (sigHost S) = Some (sigHost S')"
    by (cases l) (auto split: option.splits if_splits)
qed simp

lemma off_proj_step:
  assumes bus: "same_bus S" and step: "sig_step l S = Some S'"
  shows "exec off_step (off_proj l S) (sigOff S) = Some (sigOff S')"
proof (cases l)
  case (AnsDoes k)
  with step obtain s where loc: "ans_local k" and s: "ans_step k (sigAns S) = Some s"
    and S': "S' = S\<lparr>sigAns := s, sigOff := (sigOff S)\<lparr>offBus := ansBus s\<rparr>\<rparr>"
    by (auto split: if_splits)
  have b: "ansBus (sigAns S) = offBus (sigOff S)" using bus by (simp add: same_bus_def)
  consider (put) g where "k = SendAnswerBy g SAPut" | (ice) g where "k = AnsSendIceBy g SIForward"
    | (taken) "k = AnsIceTaken"
    | (rest) "off_proj l S = []" "k \<noteq> AnsIceTaken" "\<And>g. k \<noteq> SendAnswerBy g SAPut"
        "\<And>g. k \<noteq> AnsSendIceBy g SIForward"
    using AnsDoes by (cases "(l, S)" rule: off_proj.cases) auto
  then show ?thesis
  proof cases
    case put
    with s S' AnsDoes b show ?thesis
      by (auto simp: SendAnswer.simps split: option.splits send_answer_pc.splits)
  next
    case ice
    with s obtain pc where "ice_stream SIForward (ansIceSends (sigAns S) g)
        (\<lambda>pkt. map_option (\<lambda>c. (ansBus (sigAns S))\<lparr>iceToOfferCh := c\<rparr>)
          (chan_put (iceToOfferCh (ansBus (sigAns S))) pkt)) (ansBus (sigAns S)) = Some (pc, ansBus s)"
      by (auto simp: SendIceCandidate_ans_def)
    then obtain pkt c where "forwarded (ansIceSends (sigAns S) g) = [pkt]"
      "chan_put (iceToOfferCh (offBus (sigOff S))) pkt = Some c"
      "ansBus s = (offBus (sigOff S))\<lparr>iceToOfferCh := c\<rparr>"
      by (rule ice_stream_forward) (use b in auto)
    with ice AnsDoes S' show ?thesis by simp
  next
    case taken
    with s S' AnsDoes b show ?thesis
      by (auto simp: iceCandidateRouter_ans_def case_prod_unfold Let_def
          split: option.splits ans_ice_router.splits)
  next
    case rest
    with ans_step_bus [OF s rest(2-4) loc] S' b show ?thesis by simp
  qed
qed (use step in \<open>auto split: option.splits if_splits\<close>)

lemma ans_proj_step:
  assumes bus: "same_bus S" and step: "sig_step l S = Some S'"
  shows "exec ans_step (ans_proj l S) (sigAns S) = Some (sigAns S')"
proof (cases l)
  case (OffDoes k)
  with step obtain s where loc: "off_local k" and s: "off_step k (sigOff S) = Some s"
    and S': "S' = S\<lparr>sigOff := s, sigAns := (sigAns S)\<lparr>ansBus := offBus s\<rparr>\<rparr>"
    by (auto split: if_splits)
  have b: "ansBus (sigAns S) = offBus (sigOff S)" using bus by (simp add: same_bus_def)
  consider (answer) "k = AnswerRouted" | (cand) "k = IceRouted" | (ice) g where "k = SendIceBy g SIForward"
    | (rest) "ans_proj l S = []" "k \<noteq> AnswerRouted" "k \<noteq> IceRouted" "\<And>g. k \<noteq> SendIceBy g SIForward"
    using OffDoes by (cases "(l, S)" rule: ans_proj.cases) auto
  then show ?thesis
  proof cases
    case answer
    with s S' OffDoes b show ?thesis
      by (auto simp: answerRouter_def Let_def split: option.splits answer_router.splits)
  next
    case cand
    with s S' OffDoes b show ?thesis
      by (auto simp: iceCandidateRouter_off_def Let_def split: option.splits ice_router.splits)
  next
    case ice
    with s obtain pc where "ice_stream SIForward (iceSends (sigOff S) g)
        (\<lambda>pkt. map_option (\<lambda>c. (offBus (sigOff S))\<lparr>iceToAnsCh := c\<rparr>)
          (chan_put (iceToAnsCh (offBus (sigOff S))) pkt)) (offBus (sigOff S)) = Some (pc, offBus s)"
      by (auto simp: SendIceCandidate_off_def)
    then obtain pkt c where "forwarded (iceSends (sigOff S) g) = [pkt]"
      "chan_put (iceToAnsCh (ansBus (sigAns S))) pkt = Some c"
      "offBus s = (ansBus (sigAns S))\<lparr>iceToAnsCh := c\<rparr>"
      by (rule ice_stream_forward) (use b in auto)
    with ice OffDoes S' show ?thesis by simp
  next
    case rest
    with off_step_bus [OF s rest(2-4) loc] S' b show ?thesis by simp
  qed
qed (use step in \<open>auto split: option.splits if_splits\<close>)

interpretation off_view: simulation sig_step off_step sigOff off_proj same_bus
  by unfold_locales (rule same_bus_step off_proj_step; assumption)+

interpretation ans_view: simulation sig_step ans_step sigAns ans_proj same_bus
  by unfold_locales (rule same_bus_step ans_proj_step; assumption)+

lemma same_bus_Serve: "same_bus Serve"
  by (simp add: same_bus_def Serve_def NewOffererServer_def NewAnswererServer_def)

lemma Serve_parts [simp]:
  "sigHost Serve = NewHostServer" "sigOff Serve = NewOffererServer new_bus"
  "sigAns Serve = NewAnswererServer new_bus"
  by (simp_all add: Serve_def)

end
