(* ===== verification/SignalServerProps.thy ===== *)
theory SignalServerProps
  imports SignalServer
begin

text \<open>
  End-to-end properties of the signalling server: what one client receives was sent by the
  other, for the right host id and answerer id, through every interleaving of the four services,
  and a complete exchange is possible. The proofs project a run of the whole server to runs of
  its services and combine the components' histories.
\<close>

section \<open>Projected runs\<close>

abbreviation off_trace :: "sig_label list \<Rightarrow> off_label list" where
  "off_trace ls \<equiv> abstract_trace sig_step off_proj ls Serve"

abbreviation ans_trace :: "sig_label list \<Rightarrow> ans_label list" where
  "ans_trace ls \<equiv> abstract_trace sig_step ans_proj ls Serve"

abbreviation host_trace :: "sig_label list \<Rightarrow> hs_label list" where
  "host_trace ls \<equiv> abstract_trace sig_step host_proj ls Serve"

lemma off_run:
  "exec sig_step ls Serve = Some S \<Longrightarrow>
     exec off_step (off_trace ls) (NewOffererServer new_bus) = Some (sigOff S)"
  using off_view.exec_sim [of ls Serve S] same_bus_Serve by simp

lemma ans_run:
  "exec sig_step ls Serve = Some S \<Longrightarrow>
     exec ans_step (ans_trace ls) (NewAnswererServer new_bus) = Some (sigAns S)"
  using ans_view.exec_sim [of ls Serve S] same_bus_Serve by simp

lemma host_run:
  "exec sig_step ls Serve = Some S \<Longrightarrow>
     exec hs_step (host_trace ls) NewHostServer = Some (sigHost S)"
  using host_view.exec_sim [of ls Serve S] by simp

lemma off_trace_call:
  assumes "exec sig_step ls Serve = Some S" "SendOfferBy g (SOCall req a o') \<in> set (off_trace ls)"
  shows "OffDoes (SendOfferBy g (SOCall req a o')) \<in> set ls"
proof -
  from abstract_trace_mem [OF assms(2,1)] obtain pre l post T
    where "ls = pre @ l # post" "SendOfferBy g (SOCall req a o') \<in> set (off_proj l T)"
    by blast
  then show ?thesis
    by (cases "(l, T)" rule: off_proj.cases) (auto split: option.splits send_answer_pc.splits)
qed

lemma so_events_mem: "ev \<in> set (so_events g ls) \<Longrightarrow> SendOfferBy g ev \<in> set ls"
  by (induction g ls rule: so_events.induct) (auto split: if_splits)

section \<open>Offers\<close>

lemma offering_called:
  assumes "exec sig_step ls Serve = Some S" "OfferHanded off \<in> set (ans_trace ls)"
  shows "\<exists>g req o'. OffDoes (SendOfferBy g (SOCall req (off_answererID off) o')) \<in> set ls \<and>
     off_hostID off = SendOfferRequest_HostId req \<and> off_offer off = SendOfferRequest_Offer req"
proof -
  from abstract_trace_mem [OF assms(2,1)] obtain pre l post T
    where ls: "ls = pre @ l # post" and T: "exec sig_step pre Serve = Some T"
      and l: "OfferHanded off \<in> set (ans_proj l T)"
    by blast
  from assms(1) ls T have "sig_step l T \<noteq> None" by (auto simp: exec_append split: option.splits)
  with l obtain g where ov: "offer_value (sigOff T) g = Some off"
    by (cases "(l, T)" rule: ans_proj.cases) (auto split: option.splits if_splits)
  have "so_history (sendOffers (sigOff T) g) (so_events g (off_trace pre))"
    by (rule so_history_run [OF off_run [OF T]])
  with ov obtain req o' where ev: "SOCall req (off_answererID off) o' \<in> set (so_events g (off_trace pre))"
      and eq: "off_hostID off = SendOfferRequest_HostId req" "off_offer off = SendOfferRequest_Offer req"
    by (auto simp: offer_value_def getter_defs split: option.splits send_offer_pc.splits)
  from off_trace_call [OF T so_events_mem [OF ev]] ls eq show ?thesis by auto
qed

lemma offer_origin:
  assumes "exec sig_step ls Serve = Some S"
    and "offerWaits (sigAns S) g = Some (WODone req (Inr resp))"
  shows "\<exists>g' call offID.
     OffDoes (SendOfferBy g' (SOCall call (OfferResponse_AnswererId resp) offID)) \<in> set ls \<and>
     SendOfferRequest_HostId call = WaitForOfferRequest_HostId req \<and>
     SendOfferRequest_Offer call = OfferResponse_Body resp"
proof -
  have "wo_history (offers_handed (ans_trace ls)) (offerWaits (sigAns S) g)"
    using offers_history_run [OF ans_run [OF assms(1)]] by (simp add: offers_history_def)
  with assms(2) obtain off where "OfferHanded off \<in> set (ans_trace ls)"
      "off_hostID off = WaitForOfferRequest_HostId req" "resp = offer_response off"
    by (auto simp: offers_handed_def)
  with offering_called [OF assms(1), of off] show ?thesis
    by (fastforce simp: offer_response_def)
qed

text \<open>
  C6: offers are delivered end to end. In every run of the whole server, a response that a host
  gets from \<open>WaitForOffer\<close> carries the body of a \<open>SendOffer\<close> call made in this run for exactly
  the host id it asked for, and the answerer id that was drawn for this call.
\<close>

theorem offers_end_to_end:
  assumes "exec sig_step ls Serve = Some S"
    and "offerWaits (sigAns S) g = Some (WODone req (Inr resp))"
  shows "\<exists>g' call offID.
     OffDoes (SendOfferBy g' (SOCall call (OfferResponse_AnswererId resp) offID)) \<in> set ls \<and>
     SendOfferRequest_HostId call = WaitForOfferRequest_HostId req \<and>
     SendOfferRequest_Offer call = OfferResponse_Body resp"
  using assms by (rule offer_origin)

section \<open>Answers\<close>

definition answers_history :: "AnsPacket set \<Rightarrow> OffererServer \<Rightarrow> bool" where
  "answers_history H s \<longleftrightarrow>
     set (chBuf (answerCh (offBus s))) \<subseteq> H \<and>
     (\<forall>ch pkt. answerRouterPc s = ARSend ch pkt \<longrightarrow> pkt \<in> H)"

lemma answers_history_step:
  assumes H: "answers_history H s" and step: "off_step l s = Some s'"
    and new: "\<And>pkt. l = AnswerArrives pkt \<Longrightarrow> pkt \<in> H"
  shows "answers_history H s'"
  using step
proof (cases rule: off_stepE)
  case (send_offer g ev)
  from send_offer(2) H show ?thesis
    by (cases rule: SendOffer_cases) (simp_all add: answers_history_def SendOffer_begin_def)
next
  case (wait_answer g ev)
  from wait_answer(2) H show ?thesis
    by (cases rule: WaitForAnswer_cases) (simp_all add: answers_history_def)
next
  case (wait_ice g ev)
  from wait_ice(2) H show ?thesis
    by (cases rule: WaitForICECandidate_off_cases) (simp_all add: answers_history_def)
next
  case (shared b more)
  with H new show ?thesis by (auto simp: answers_history_def)
qed (use H in \<open>auto simp: answers_history_def chan_take_Some_iff\<close>)

lemma answers_history_run:
  "exec off_step ls (NewOffererServer new_bus) = Some s \<Longrightarrow>
     answers_history {pkt. AnswerArrives pkt \<in> set ls} s"
proof (induction rule: exec_trace_induct)
  case start
  show ?case by (simp add: NewOffererServer_def answers_history_def new_bus_def)
next
  case (step ls l t u)
  have "answers_history {pkt. AnswerArrives pkt \<in> set (ls @ [l])} t"
    using step.IH by (auto simp: answers_history_def)
  then show ?case by (rule answers_history_step [OF _ step.hyps(2)]) simp
qed

definition answer_packet :: "ReplyToRequest \<Rightarrow> AnsPacket" where
  "answer_packet r = \<lparr>ans_answererID = ReplyToRequest_AnswererId r, ans_answer = ReplyToRequest_Body r\<rparr>"

lemma sendAnswers_step:
  assumes "ans_step l s = Some s'" "sendAnswers s' g = Some (SAPending pkt)"
  shows "sendAnswers s g = Some (SAPending pkt) \<or>
     (\<exists>r. l = SendAnswerBy g (SACall r) \<and> pkt = answer_packet r)"
proof (cases l)
  case (SendAnswerBy g' ev)
  with assms show ?thesis
    by (cases ev) (auto simp: SendAnswer.simps answer_packet_def
        split: option.splits send_answer_pc.splits if_splits)
next
  case (WaitOfferBy g' ev)
  with assms show ?thesis
    by (cases ev) (auto simp: WaitForOffer.simps waiting_chan_def ice_chan_def Let_def
        split: option.splits wait_offer_pc.splits)
next
  case (AnsWaitIceBy g' ev)
  with assms show ?thesis
    by (cases ev) (auto simp: WaitForICECandidate_ans.simps
        split: option.splits ans_wait_ice_pc.splits if_splits)
qed (use assms in \<open>auto simp: SendIceCandidate_ans_def offerRouter_def waiting_chan_def
      offerRouter_send_def iceCandidateRouter_ans_def ice_chan_def Let_def
      iceCandidateRouter_ans_send_def iceCandidateRouter_ans_close_def host_timer_def ice_timer_def
      split: option.splits offer_router.splits ans_ice_router.splits if_splits\<close>)

lemma sendAnswers_run:
  "exec ans_step ls (NewAnswererServer b) = Some s \<Longrightarrow> sendAnswers s g = Some (SAPending pkt) \<Longrightarrow>
     \<exists>r. SendAnswerBy g (SACall r) \<in> set ls \<and> pkt = answer_packet r"
proof (induction rule: exec_trace_induct)
  case start
  then show ?case by (simp add: NewAnswererServer_def)
next
  case (step ls l t u)
  from sendAnswers_step [OF step.hyps(2) step.prems] step.IH show ?case by auto
qed

lemma ans_trace_call:
  assumes "exec sig_step ls Serve = Some S" "SendAnswerBy g (SACall r) \<in> set (ans_trace ls)"
  shows "AnsDoes (SendAnswerBy g (SACall r)) \<in> set ls"
proof -
  from abstract_trace_mem [OF assms(2,1)] obtain pre l post T
    where "ls = pre @ l # post" "SendAnswerBy g (SACall r) \<in> set (ans_proj l T)"
    by blast
  then show ?thesis by (cases "(l, T)" rule: ans_proj.cases) (auto split: option.splits)
qed

lemma answer_submitted:
  assumes "exec sig_step ls Serve = Some S" "AnswerArrives pkt \<in> set (off_trace ls)"
  shows "\<exists>g r. AnsDoes (SendAnswerBy g (SACall r)) \<in> set ls \<and> pkt = answer_packet r"
proof -
  from abstract_trace_mem [OF assms(2,1)] obtain pre l post T
    where ls: "ls = pre @ l # post" and T: "exec sig_step pre Serve = Some T"
      and l: "AnswerArrives pkt \<in> set (off_proj l T)"
    by blast
  from assms(1) ls T have "sig_step l T \<noteq> None" by (auto simp: exec_append split: option.splits)
  with l obtain g where "sendAnswers (sigAns T) g = Some (SAPending pkt)"
    by (cases "(l, T)" rule: off_proj.cases) (auto split: option.splits send_answer_pc.splits if_splits)
  from sendAnswers_run [OF ans_run [OF T] this] ans_trace_call [OF T] ls show ?thesis by fastforce
qed

lemma answer_origin:
  assumes "exec sig_step ls Serve = Some S"
    and "answerWaits (sigOff S) g = Some (WASelect ch req)"
    and "sig_step (OffDoes (AnswerDelivered g)) S = Some S'"
  shows "\<exists>g' r. AnsDoes (SendAnswerBy g' (SACall r)) \<in> set ls \<and>
     ReplyToRequest_AnswererId r = WaitForAnswerRequest_AnswererId req \<and>
     answerWaits (sigOff S') g = Some (WADone (Inr \<lparr>AnswerResponse_Answer = ReplyToRequest_Body r\<rparr>))"
proof -
  have step: "off_step (AnswerDelivered g) (sigOff S) = Some (sigOff S')"
    using assms(3) by auto
  then obtain c pkt where pc: "answerRouterPc (sigOff S) = ARSend c pkt"
    by (auto simp: answer_handover_def split: answer_router.splits)
  have "AnswerArrives pkt \<in> set (off_trace ls)"
    using answers_history_run [OF off_run [OF assms(1)]] pc by (simp add: answers_history_def)
  from answer_submitted [OF assms(1) this] obtain g' r
    where "AnsDoes (SendAnswerBy g' (SACall r)) \<in> set ls" "pkt = answer_packet r"
    by blast
  with answer_handover_matches [OF off_run [OF assms(1)] pc assms(2) step] show ?thesis
    by (auto simp: answer_packet_def)
qed

text \<open>
  C7: answers are delivered end to end. In every run of the whole server, whenever the answer
  router completes a waiting \<open>WaitForAnswer\<close>, the answer that call returns is the body of a
  \<open>SendAnswer\<close> call made in this run for the same answerer id.
\<close>

theorem answers_end_to_end:
  assumes "exec sig_step ls Serve = Some S"
    and "answerWaits (sigOff S) g = Some (WASelect ch req)"
    and "sig_step (OffDoes (AnswerDelivered g)) S = Some S'"
  shows "\<exists>g' r. AnsDoes (SendAnswerBy g' (SACall r)) \<in> set ls \<and>
     ReplyToRequest_AnswererId r = WaitForAnswerRequest_AnswererId req \<and>
     answerWaits (sigOff S') g = Some (WADone (Inr \<lparr>AnswerResponse_Answer = ReplyToRequest_Body r\<rparr>))"
  using assms by (rule answer_origin)

section \<open>A complete exchange\<close>

lemmas sig_eval =
  Serve_def hs_eval off_eval ans_eval LoginHost_def notify_value_def offer_value_def getter_defs Let_def

abbreviation neo :: InitHostRequest where
  "neo \<equiv> \<lparr>InitHostRequest_UserLogin = Some \<lparr>UserLogin_Username = ''neo'', UserLogin_Password = ''''\<rparr>\<rparr>"

text \<open>A host logs in and listens.\<close>

definition listen_run :: "string \<Rightarrow> string \<Rightarrow> sig_label list" where
  "listen_run h jwt =
     [LoginBy h (\<lambda>_ _. Inr jwt) neo, HostDoes (Listen 0 (CallListen h)),
      HostDoes (Listen 0 SendRequest), HostDoes (Manager HostRequest),
      HostDoes (Listen 0 GetClient), HostDoes (Listen 0 Activate)]"

definition offer_phase :: "string \<Rightarrow> string \<Rightarrow> string \<Rightarrow> string \<Rightarrow> sig_label list" where
  "offer_phase h sdp a o' =
     [OffDoes (SendOfferBy 0 (SOCall \<lparr>SendOfferRequest_Token = None,
        SendOfferRequest_HostId = h, SendOfferRequest_Offer = sdp\<rparr> a o')),
      NotifyManager 0, HostDoes (NotifySignal 2), HostDoes (Listen 0 RecvOffer),
      HostDoes (Listen 0 (StreamSent None)),
      AnsDoes (WaitOfferBy 0 (WOCall \<lparr>WaitForOfferRequest_Token = None, WaitForOfferRequest_HostId = h\<rparr>)),
      HandOffer 0, AnsDoes OfferRouted, AnsDoes (WaitOfferBy 0 WOTake),
      AnsDoes (WaitOfferBy 0 WORegister)]"

definition answer_phase :: "string \<Rightarrow> string \<Rightarrow> sig_label list" where
  "answer_phase a ans =
     [OffDoes (WaitAnswerBy 0 (WACall \<lparr>WaitForAnswerRequest_Token = None,
        WaitForAnswerRequest_AnswererId = a\<rparr>)),
      AnsDoes (SendAnswerBy 0 (SACall \<lparr>ReplyToRequest_Token = None, ReplyToRequest_OffererId = '''',
        ReplyToRequest_AnswererId = a, ReplyToRequest_Body = ans\<rparr>)),
      AnsDoes (SendAnswerBy 0 SAPut), OffDoes AnswerRouted, OffDoes (AnswerDelivered 0)]"

text \<open>
  The handshake can complete. For every host id and token the server draws and all session
  descriptions, the freshly started server lets a host log in and listen, an offer to this host be
  announced on its stream and fetched by it, and its answer be returned to the caller: after this
  run, \<open>SendOffer\<close> has returned the two ids drawn, the host's \<open>WaitForOffer\<close> has
  returned the offer, and \<open>WaitForAnswer\<close> has returned the answer.
\<close>

theorem handshake_completes:
  "\<exists>S. exec sig_step (listen_run h jwt @ offer_phase h sdp a o' @ answer_phase a ans) Serve = Some S \<and>
     sendOffers (sigOff S) 0 = Some (SODone (Inr \<lparr>OfferResponse_OffererId = o',
        OfferResponse_AnswererId = a, OfferResponse_Body = ''''\<rparr>)) \<and>
     listeners (sigHost S) 0 = Some (ListenLoop h 0) \<and>
     offerWaits (sigAns S) 0 = Some (WODone \<lparr>WaitForOfferRequest_Token = None, WaitForOfferRequest_HostId = h\<rparr>
       (Inr \<lparr>OfferResponse_OffererId = '''', OfferResponse_AnswererId = a, OfferResponse_Body = sdp\<rparr>)) \<and>
     answerWaits (sigOff S) 0 = Some (WADone (Inr \<lparr>AnswerResponse_Answer = ans\<rparr>))"
  by (simp add: listen_run_def offer_phase_def answer_phase_def sig_eval)

theorem offers_end_to_end_witness:
  "\<exists>g' call offID.
     OffDoes (SendOfferBy g' (SOCall call ''a1'' offID))
       \<in> set (listen_run ''h'' ''jwt'' @ offer_phase ''h'' ''sdp'' ''a1'' ''o1'') \<and>
     SendOfferRequest_HostId call = ''h'' \<and> SendOfferRequest_Offer call = ''sdp''"
proof -
  obtain S resp where S: "exec sig_step (listen_run ''h'' ''jwt'' @ offer_phase ''h'' ''sdp'' ''a1'' ''o1'') Serve = Some S"
    and d: "offerWaits (sigAns S) 0 = Some (WODone \<lparr>WaitForOfferRequest_Token = None,
        WaitForOfferRequest_HostId = ''h''\<rparr> (Inr resp))"
    and r: "OfferResponse_AnswererId resp = ''a1''" "OfferResponse_Body resp = ''sdp''"
    by (simp add: listen_run_def offer_phase_def sig_eval)
  from offers_end_to_end [OF S d] r show ?thesis by simp
qed

theorem answers_end_to_end_witness:
  "\<exists>S S'. exec sig_step (listen_run ''h'' ''jwt'' @ offer_phase ''h'' ''sdp'' ''a1'' ''o1'' @
        butlast (answer_phase ''a1'' ''ok'')) Serve = Some S \<and>
     sig_step (OffDoes (AnswerDelivered 0)) S = Some S' \<and>
     (\<exists>r. answerWaits (sigOff S') 0 = Some (WADone (Inr \<lparr>AnswerResponse_Answer = r\<rparr>)))"
proof -
  obtain S S' ch where S: "exec sig_step (listen_run ''h'' ''jwt'' @ offer_phase ''h'' ''sdp'' ''a1'' ''o1'' @
        butlast (answer_phase ''a1'' ''ok'')) Serve = Some S"
    and w: "answerWaits (sigOff S) 0 = Some (WASelect ch \<lparr>WaitForAnswerRequest_Token = None,
        WaitForAnswerRequest_AnswererId = ''a1''\<rparr>)"
    and d: "sig_step (OffDoes (AnswerDelivered 0)) S = Some S'"
    by (simp add: listen_run_def offer_phase_def answer_phase_def sig_eval)
  from answers_end_to_end [OF S w d] S d show ?thesis by blast
qed

section \<open>References\<close>

text \<open>
  C15: the store is well typed. In every reachable state of the server, each host client that the host
  service's map, a listener or a notifier refers to has been allocated and is well formed; each channel
  a map, a handler or a router of the answerer service refers to is one of the kind it is used as: an
  offer channel with one slot, or a candidate channel with 1024, none of them closed; and each channel
  a map, a handler or a router of the offerer service refers to (these are unbuffered, so a reference
  is all there is to them) has been made, is used for one answerer id only, and never both for answers
  and for candidates.
\<close>

theorem references_are_valid:
  assumes "reaches sig_step Serve S"
  shows "(\<forall>r h. hs_holds (sigHost S) r h \<longrightarrow> (\<exists>c. hsHeap (sigHost S) r = Some c \<and> client_wf c)) \<and>
     (\<forall>c. offer_refs (sigAns S) c \<longrightarrow>
        (\<exists>ch. offerChans (sigAns S) c = Some ch \<and> chCap ch = 1 \<and> \<not> chClosed ch)) \<and>
     (\<forall>c. candidate_refs (sigAns S) c \<longrightarrow>
        (\<exists>ch. iceChans (sigAns S) c = Some ch \<and> chCap ch = 1024 \<and> \<not> chClosed ch)) \<and>
     (\<forall>c a. holds_answer_chan (sigOff S) c a \<longrightarrow>
        c < offNext (sigOff S) \<and> (\<forall>b. holds_answer_chan (sigOff S) c b \<longrightarrow> b = a) \<and>
        (\<forall>b. \<not> holds_ice_chan (sigOff S) c b)) \<and>
     (\<forall>c a. holds_ice_chan (sigOff S) c a \<longrightarrow>
        c < offNext (sigOff S) \<and> (\<forall>b. holds_ice_chan (sigOff S) c b \<longrightarrow> b = a))"
proof -
  from reaches_exec [OF assms] obtain ls where ls: "exec sig_step ls Serve = Some S" ..
  have host: "hs_inv (sigHost S)" by (rule hs_run_inv [OF host_run [OF ls]])
  have run: "reaches ans_step (NewAnswererServer new_bus) (sigAns S)"
    by (rule exec_reaches [OF ans_run [OF ls]])
  have refs: "refs_ok (sigAns S)" by (rule ans_refs.reaches_inv [OF run]) simp
  have wf: "offers_wf (sigAns S)" "ice_wf (sigAns S)"
    using hosts_own.reaches_good [OF run] cands_own.reaches_good [OF run] by auto
  note off = off_run [OF ls]
  have answers: "c < offNext (sigOff S)" "\<not> holds_ice_chan (sigOff S) c b"
    if "holds_answer_chan (sigOff S) c a" for c a b
    using off_answers.exec_allocated [OF off that] kinds_apart_run [OF off] that
    by (auto simp: kinds_apart_def)
  have unique: "holds_answer_chan (sigOff S) c a \<Longrightarrow> holds_answer_chan (sigOff S) c b \<Longrightarrow> b = a"
    "holds_ice_chan (sigOff S) c a \<Longrightarrow> holds_ice_chan (sigOff S) c b \<Longrightarrow> b = a" for c a b
    using off_answers.exec_owner_unique [OF off] off_ices.exec_owner_unique [OF off] by blast+
  have chans: "offer_refs (sigAns S) c \<Longrightarrow>
        \<exists>ch. offerChans (sigAns S) c = Some ch \<and> chCap ch = 1 \<and> \<not> chClosed ch"
    "candidate_refs (sigAns S) c \<Longrightarrow>
        \<exists>ch. iceChans (sigAns S) c = Some ch \<and> chCap ch = 1024 \<and> \<not> chClosed ch" for c
    using refs wf unfolding refs_ok_def offers_wf_def ice_wf_def by blast+
  have clients: "\<exists>c. hsHeap (sigHost S) r = Some c \<and> client_wf c" if "hs_holds (sigHost S) r h" for r h
    using hs_inv_client [OF host that] by blast
  show ?thesis
    by (intro conjI allI impI)
      (fact clients chans answers unique off_ices.exec_allocated [OF off] |
       erule (1) clients chans answers unique off_ices.exec_allocated [OF off] |
       erule clients chans answers unique off_ices.exec_allocated [OF off])+
qed

theorem references_are_valid_witness:
  "\<exists>S c d. exec sig_step (listen_run ''h'' ''jwt'' @ offer_phase ''h'' ''sdp'' ''a1'' ''o1'') Serve = Some S \<and>
     candidate_refs (sigAns S) c \<and> (\<exists>ch. iceChans (sigAns S) c = Some ch \<and> chCap ch = 1024) \<and>
     holds_answer_chan (sigOff S) d ''a1'' \<and> d < offNext (sigOff S)"
proof -
  obtain S c d where S: "exec sig_step (listen_run ''h'' ''jwt'' @ offer_phase ''h'' ''sdp'' ''a1'' ''o1'') Serve = Some S"
    and c: "AnsID2iceToAnsChan (sigAns S) ''a1'' = Some c" and d: "offAnsMap (sigOff S) ''a1'' = Some d"
    by (simp add: listen_run_def offer_phase_def sig_eval)
  have "candidate_refs (sigAns S) c" "holds_answer_chan (sigOff S) d ''a1''"
    using c d by (auto simp: candidate_refs_def holds_answer_chan_def)
  with references_are_valid [OF exec_reaches [OF S]] S show ?thesis by blast
qed

end
