(* ===== verification/Candidates.thy ===== *)
theory Candidates
  imports SignalServerProps
begin

text \<open>
  ICE candidates from one end of the signalling server to the other. Both services let a client stream
  candidates (\<open>SendIceCandidate\<close>) with the same goroutines, stated once as the contract
  \<open>candidate_sender\<close>; what \<open>WaitForICECandidate\<close> passes on was streamed by the other side for the
  answerer id asked for, and a candidate can travel all the way.
\<close>

section \<open>Where a forwarded candidate comes from\<close>

definition candidate_packet :: "ReplyToRequest \<Rightarrow> IcePacket" where
  "candidate_packet r =
     \<lparr>ice_answererID = ReplyToRequest_AnswererId r, iceCandidate = ReplyToRequest_Body r\<rparr>"

lemma ice_stream_origin:
  assumes "ice_stream ev pc f b = Some (pc', b')" "pkt \<in> set (forwarded (Some pc'))"
  shows "pkt \<in> set (forwarded pc) \<or> (\<exists>r err. ev = SIRecv (Some r) err \<and> pkt = candidate_packet r)"
  using assms
  by (cases "(ev, pc, f, b)" rule: ice_stream.cases)
    (auto simp: forwarded_def ice_received_def candidate_packet_def split: option.splits)

lemma forwarded_None [simp]: "forwarded None = []"
  by (simp add: forwarded_def)

locale candidate_sender =
  fixes step :: "'l \<Rightarrow> 's \<Rightarrow> 's option"
    and sends :: "'s \<Rightarrow> nat \<Rightarrow> send_ice_pc option"
    and label :: "nat \<Rightarrow> send_ice_event \<Rightarrow> 'l"
    and start :: 's
  assumes start_idle: "sends start g = None"
    and step_origin: "step l s = Some s' \<Longrightarrow> pkt \<in> set (forwarded (sends s' g)) \<Longrightarrow>
      pkt \<in> set (forwarded (sends s g)) \<or>
      (\<exists>r err. l = label g (SIRecv (Some r) err) \<and> pkt = candidate_packet r)"
begin

lemma forwarded_origin:
  "exec step ls start = Some s \<Longrightarrow> pkt \<in> set (forwarded (sends s g)) \<Longrightarrow>
     \<exists>r err. label g (SIRecv (Some r) err) \<in> set ls \<and> pkt = candidate_packet r"
proof (induction rule: exec_trace_induct)
  case start
  then show ?case by (simp add: start_idle)
next
  case (step ls l t u)
  from step_origin [OF step.hyps(2) step.prems] step.IH show ?case by fastforce
qed

end

lemma iceSends_other:
  assumes "off_step l s = Some s'" "\<And>g ev. l \<noteq> SendIceBy g ev"
  shows "iceSends s' = iceSends s"
  using assms(1)
proof (cases rule: off_stepE)
  case (send_offer g ev)
  from send_offer(2) show ?thesis by (cases rule: SendOffer_cases) (simp_all add: SendOffer_begin_def)
next
  case (wait_answer g ev)
  from wait_answer(2) show ?thesis by (cases rule: WaitForAnswer_cases) simp_all
next
  case (wait_ice g ev)
  from wait_ice(2) show ?thesis by (cases rule: WaitForICECandidate_off_cases) simp_all
qed (use assms(2) in auto)

interpretation off_sender: candidate_sender off_step iceSends SendIceBy "NewOffererServer b" for b
proof unfold_locales
  show "iceSends (NewOffererServer b) g = None" for g by (simp add: NewOffererServer_def)
next
  fix l s s' pkt g assume step: "off_step l s = Some s'" and pkt: "pkt \<in> set (forwarded (iceSends s' g))"
  show "pkt \<in> set (forwarded (iceSends s g)) \<or>
      (\<exists>r err. l = SendIceBy g (SIRecv (Some r) err) \<and> pkt = candidate_packet r)"
  proof (cases "\<exists>k ev. l = SendIceBy k ev")
    case True
    with step pkt show ?thesis
      by (auto simp: SendIceCandidate_off_def split: if_splits) (metis ice_stream_origin)
  next
    case False
    with iceSends_other [OF step] pkt show ?thesis by simp
  qed
qed

lemma ansIceSends_other:
  assumes "ans_step l s = Some s'" "\<And>g ev. l \<noteq> AnsSendIceBy g ev"
  shows "ansIceSends s' = ansIceSends s"
proof (cases l)
  case (WaitOfferBy g ev)
  with assms show ?thesis
    by (cases ev) (auto simp: WaitForOffer.simps waiting_chan_def ice_chan_def Let_def
        split: option.splits wait_offer_pc.splits)
next
  case (SendAnswerBy g ev)
  with assms show ?thesis
    by (cases ev) (auto simp: SendAnswer.simps split: option.splits send_answer_pc.splits)
next
  case (AnsWaitIceBy g ev)
  with assms show ?thesis
    by (cases ev) (auto simp: WaitForICECandidate_ans.simps
        split: option.splits ans_wait_ice_pc.splits if_splits)
qed (use assms in \<open>auto simp: offerRouter_def waiting_chan_def
      offerRouter_send_def iceCandidateRouter_ans_def ice_chan_def Let_def
      iceCandidateRouter_ans_send_def iceCandidateRouter_ans_close_def host_timer_def ice_timer_def
      split: option.splits offer_router.splits ans_ice_router.splits if_splits\<close>)

interpretation ans_sender: candidate_sender ans_step ansIceSends AnsSendIceBy "NewAnswererServer b" for b
proof unfold_locales
  show "ansIceSends (NewAnswererServer b) g = None" for g by (simp add: NewAnswererServer_def)
next
  fix l s s' pkt g assume step: "ans_step l s = Some s'" and pkt: "pkt \<in> set (forwarded (ansIceSends s' g))"
  show "pkt \<in> set (forwarded (ansIceSends s g)) \<or>
      (\<exists>r err. l = AnsSendIceBy g (SIRecv (Some r) err) \<and> pkt = candidate_packet r)"
  proof (cases "\<exists>k ev. l = AnsSendIceBy k ev")
    case True
    with step pkt show ?thesis
      by (auto simp: SendIceCandidate_ans_def split: if_splits) (metis ice_stream_origin)
  next
    case False
    with ansIceSends_other [OF step] pkt show ?thesis by simp
  qed
qed

section \<open>The candidates inside the offerer service\<close>

fun wi_known :: "IcePacket set \<Rightarrow> wait_ice_pc option \<Rightarrow> bool" where
  "wi_known H (Some (WISend ch req d ice)) =
     (\<exists>pkt\<in>H. ice_answererID pkt = WaitForICECandidateRequest_AnswererId req \<and> iceCandidate pkt = ice)"
| "wi_known H _ = True"

fun ir_known :: "IcePacket set \<Rightarrow> ice_router \<Rightarrow> bool" where
  "ir_known H (IRSend ch pkt) = (pkt \<in> H)"
| "ir_known H IRIdle = True"

definition ices_history :: "IcePacket set \<Rightarrow> OffererServer \<Rightarrow> bool" where
  "ices_history H s \<longleftrightarrow>
     (\<forall>pkt\<in>set (chBuf (iceToOfferCh (offBus s))). pkt \<in> H) \<and> ir_known H (iceRouterPc s) \<and>
     (\<forall>g. wi_known H (iceWaits s g))"

lemma ices_history_mono: "ices_history H s \<Longrightarrow> H \<subseteq> K \<Longrightarrow> ices_history K s"
proof -
  have "wi_known H pc \<Longrightarrow> H \<subseteq> K \<Longrightarrow> wi_known K pc" for pc
    by (induction H pc rule: wi_known.induct) auto
  moreover have "ir_known H r \<Longrightarrow> H \<subseteq> K \<Longrightarrow> ir_known K r" for r by (cases r) auto
  ultimately show "ices_history H s \<Longrightarrow> H \<subseteq> K \<Longrightarrow> ices_history K s"
    unfolding ices_history_def by blast
qed

lemma ice_stream_to_ans:
  assumes "ice_stream ev pc
      (\<lambda>pkt. map_option (\<lambda>c. B\<lparr>iceToAnsCh := c\<rparr>) (chan_put (iceToAnsCh B) pkt)) B = Some (pc', b)"
  shows "iceToOfferCh b = iceToOfferCh B"
  using assms
  by (cases "(ev, pc, \<lambda>pkt. map_option (\<lambda>c. B\<lparr>iceToAnsCh := c\<rparr>) (chan_put (iceToAnsCh B) pkt), B)"
      rule: ice_stream.cases) auto

lemma ices_history_step:
  assumes H: "ices_history H s" and step: "off_step l s = Some s'"
    and new: "\<And>pkt. l = IceArrives pkt \<Longrightarrow> pkt \<in> H"
    and own: "\<And>c a b. holds_ice_chan s c a \<Longrightarrow> holds_ice_chan s c b \<Longrightarrow> a = b"
  shows "ices_history H s'"
proof (cases l)
  case (SendOfferBy g ev)
  with step have st: "SendOffer g ev s = Some s'" by simp
  from st H show ?thesis by (cases rule: SendOffer_cases) (simp_all add: ices_history_def SendOffer_begin_def)
next
  case (WaitAnswerBy g ev)
  with step have st: "WaitForAnswer g ev s = Some s'" by simp
  from st H show ?thesis by (cases rule: WaitForAnswer_cases) (simp_all add: ices_history_def)
next
  case (WaitIceBy g ev)
  with step have st: "WaitForICECandidate_off g ev s = Some s'" by simp
  from st H show ?thesis by (cases rule: WaitForICECandidate_off_cases) (simp_all add: ices_history_def)
next
  case (SendIceBy g ev)
  with step H show ?thesis
    by (auto simp: SendIceCandidate_off_def ices_history_def dest!: ice_stream_to_ans)
next
  case (IceDelivered g)
  with step obtain ch pkt req d where r: "iceRouterPc s = IRSend ch pkt"
      and w: "iceWaits s g = Some (WISelect ch req d)"
      and s': "s' = s\<lparr>iceRouterPc := IRIdle,
        iceWaits := (iceWaits s)(g \<mapsto> WISend ch req d (iceCandidate pkt))\<rparr>"
    by (auto simp: ice_handover_def split: ice_router.splits option.splits wait_ice_pc.splits if_splits)
  have "ice_answererID pkt = WaitForICECandidateRequest_AnswererId req"
    by (rule own) (rule holds_ice_chan_intros(2) [OF r] holds_ice_chan_intros(3) [OF w])+
  with H r s' show ?thesis by (auto simp: ices_history_def)
next
  case IceRouted
  with step H show ?thesis
    by (auto simp: iceCandidateRouter_off_def ices_history_def chan_take_Some_iff Let_def
        split: ice_router.splits option.splits)
qed (use step H new in \<open>auto simp: ices_history_def answerRouter_def answer_handover_def
      SendOffer_cleanup_def chan_put_Some_iff Let_def
      split: answer_router.splits option.splits wait_answer_pc.splits if_splits\<close>)

lemma ices_history_run:
  "exec off_step ls (NewOffererServer new_bus) = Some s \<Longrightarrow>
     ices_history {pkt. IceArrives pkt \<in> set ls} s"
proof (induction rule: exec_trace_induct)
  case start
  show ?case by (simp add: NewOffererServer_def ices_history_def new_bus_def)
next
  case (step ls l t u)
  have "ices_history {pkt. IceArrives pkt \<in> set (ls @ [l])} t"
    by (rule ices_history_mono [OF step.IH]) auto
  then show ?case
    by (rule ices_history_step [OF _ step.hyps(2)])
      (use off_ices.exec_owner_unique [OF step.hyps(1)] in auto)
qed

section \<open>Across the two services\<close>

lemma off_trace_recv:
  assumes "exec sig_step ls Serve = Some S" "SendIceBy g (SIRecv r err) \<in> set (off_trace ls)"
  shows "OffDoes (SendIceBy g (SIRecv r err)) \<in> set ls"
proof -
  from abstract_trace_mem [OF assms(2,1)] obtain pre l post T
    where "ls = pre @ l # post" "SendIceBy g (SIRecv r err) \<in> set (off_proj l T)"
    by blast
  then show ?thesis
    by (cases "(l, T)" rule: off_proj.cases) (auto split: option.splits send_answer_pc.splits)
qed

lemma ans_trace_recv:
  assumes "exec sig_step ls Serve = Some S" "AnsSendIceBy g (SIRecv r err) \<in> set (ans_trace ls)"
  shows "AnsDoes (AnsSendIceBy g (SIRecv r err)) \<in> set ls"
proof -
  from abstract_trace_mem [OF assms(2,1)] obtain pre l post T
    where "ls = pre @ l # post" "AnsSendIceBy g (SIRecv r err) \<in> set (ans_proj l T)"
    by blast
  then show ?thesis by (cases "(l, T)" rule: ans_proj.cases) (auto split: option.splits)
qed

lemma arriving_at_offerer:
  assumes "exec sig_step ls Serve = Some S" "IceArrives pkt \<in> set (off_trace ls)"
  shows "\<exists>g r err. AnsDoes (AnsSendIceBy g (SIRecv (Some r) err)) \<in> set ls \<and> pkt = candidate_packet r"
proof -
  from abstract_trace_mem [OF assms(2,1)] obtain pre l post T
    where ls: "ls = pre @ l # post" and T: "exec sig_step pre Serve = Some T"
      and l: "IceArrives pkt \<in> set (off_proj l T)"
    by blast
  from assms(1) ls T have "sig_step l T \<noteq> None" by (auto simp: exec_append split: option.splits)
  with l obtain g where "pkt \<in> set (forwarded (ansIceSends (sigAns T) g))"
    by (cases "(l, T)" rule: off_proj.cases) (auto split: option.splits send_answer_pc.splits if_splits)
  from ans_sender.forwarded_origin [OF ans_run [OF T] this] ans_trace_recv [OF T] ls show ?thesis
    by fastforce
qed

lemma arriving_at_answerer:
  assumes "exec sig_step ls Serve = Some S" "IceToAnsArrives pkt \<in> set (ans_trace ls)"
  shows "\<exists>g r err. OffDoes (SendIceBy g (SIRecv (Some r) err)) \<in> set ls \<and> pkt = candidate_packet r"
proof -
  from abstract_trace_mem [OF assms(2,1)] obtain pre l post T
    where ls: "ls = pre @ l # post" and T: "exec sig_step pre Serve = Some T"
      and l: "IceToAnsArrives pkt \<in> set (ans_proj l T)"
    by blast
  from assms(1) ls T have "sig_step l T \<noteq> None" by (auto simp: exec_append split: option.splits)
  with l obtain g where "pkt \<in> set (forwarded (iceSends (sigOff T) g))"
    by (cases "(l, T)" rule: ans_proj.cases) (auto split: option.splits if_splits)
  from off_sender.forwarded_origin [OF off_run [OF T] this] off_trace_recv [OF T] ls show ?thesis
    by fastforce
qed

section \<open>Properties\<close>

text \<open>
  C9: the host's candidates are delivered end to end. In every run of the whole server, what the
  offerer's \<open>WaitForICECandidate\<close> is about to send to the client is the body of a message that was
  received on a \<open>SendIceCandidate\<close> stream of the answerer service for the answerer id asked for.
\<close>

theorem host_candidates_end_to_end:
  assumes "exec sig_step ls Serve = Some S"
    and "iceWaits (sigOff S) g = Some (WISend ch req d ice)"
  shows "\<exists>g' r err. AnsDoes (AnsSendIceBy g' (SIRecv (Some r) err)) \<in> set ls \<and>
     ReplyToRequest_AnswererId r = WaitForICECandidateRequest_AnswererId req \<and> ReplyToRequest_Body r = ice"
proof -
  from ices_history_run [OF off_run [OF assms(1)]]
  have "wi_known {pkt. IceArrives pkt \<in> set (off_trace ls)} (iceWaits (sigOff S) g)"
    unfolding ices_history_def by blast
  with assms(2) obtain pkt where "IceArrives pkt \<in> set (off_trace ls)"
      "ice_answererID pkt = WaitForICECandidateRequest_AnswererId req" "iceCandidate pkt = ice"
    by auto
  with arriving_at_offerer [OF assms(1), of pkt] show ?thesis by (fastforce simp: candidate_packet_def)
qed

text \<open>
  C10: the client's candidates are delivered end to end. In every run of the whole server, what the
  answerer's \<open>WaitForICECandidate\<close> is about to send to the host is the body of a message that was
  received on a \<open>SendIceCandidate\<close> stream of the offerer service for the answerer id asked for.
\<close>

theorem client_candidates_end_to_end:
  assumes "exec sig_step ls Serve = Some S"
    and "ansIceWaits (sigAns S) g = Some (AWSend ch req d ice)"
  shows "\<exists>g' r err. OffDoes (SendIceBy g' (SIRecv (Some r) err)) \<in> set ls \<and>
     ReplyToRequest_AnswererId r = WaitForICECandidateRequest_AnswererId req \<and> ReplyToRequest_Body r = ice"
proof -
  from cands_history_run [OF ans_run [OF assms(1)]] assms(2)
  obtain pkt where "IceToAnsArrives pkt \<in> set (ans_trace ls)"
      "ice_answererID pkt = WaitForICECandidateRequest_AnswererId req" "iceCandidate pkt = ice"
    unfolding cands_history_def cands_arrived_def cand_known_def by blast
  with arriving_at_answerer [OF assms(1), of pkt] show ?thesis by (fastforce simp: candidate_packet_def)
qed

section \<open>Runs\<close>

text \<open>After the handshake both sides stream one candidate and ask for those of the other.\<close>

abbreviation ice_req :: "string \<Rightarrow> WaitForICECandidateRequest" where
  "ice_req a \<equiv> \<lparr>WaitForICECandidateRequest_Token = None, WaitForICECandidateRequest_AnswererId = a\<rparr>"

abbreviation cand_msg :: "string \<Rightarrow> string \<Rightarrow> ReplyToRequest" where
  "cand_msg a c \<equiv> \<lparr>ReplyToRequest_Token = None, ReplyToRequest_OffererId = '''',
     ReplyToRequest_AnswererId = a, ReplyToRequest_Body = c\<rparr>"

definition host_candidate_phase :: "string \<Rightarrow> string \<Rightarrow> sig_label list" where
  "host_candidate_phase a c =
     [OffDoes (WaitIceBy 0 (WICall (ice_req a))), AnsDoes (AnsSendIceBy 0 SICall),
      AnsDoes (AnsSendIceBy 0 (SIRecv (Some (cand_msg a c)) None)), AnsDoes (AnsSendIceBy 0 SIForward),
      OffDoes IceRouted, OffDoes (IceDelivered 0)]"

definition client_candidate_phase :: "string \<Rightarrow> string \<Rightarrow> sig_label list" where
  "client_candidate_phase a c =
     [AnsDoes (AnsWaitIceBy 0 (AWCall (ice_req a))), OffDoes (SendIceBy 0 SICall),
      OffDoes (SendIceBy 0 (SIRecv (Some (cand_msg a c)) None)), OffDoes (SendIceBy 0 SIForward),
      AnsDoes AnsIceTaken, AnsDoes AnsIceRouted, AnsDoes (AnsWaitIceBy 0 AWTake)]"

lemmas phases =
  listen_run_def offer_phase_def answer_phase_def host_candidate_phase_def client_candidate_phase_def

text \<open>
  C8: the whole signalling can complete. For all ids, descriptions and candidates, the freshly started
  server lets a host log in and listen, a client's offer reach it, its answer return, and then one
  candidate of each side reach the other, where it is about to be sent on the stream.
\<close>

theorem signalling_completes:
  "\<exists>S ch ch' d d'. exec sig_step (listen_run h jwt @ offer_phase h sdp a o' @ answer_phase a ans @
       host_candidate_phase a hc @ client_candidate_phase a cc) Serve = Some S \<and>
     offerWaits (sigAns S) 0 = Some (WODone \<lparr>WaitForOfferRequest_Token = None, WaitForOfferRequest_HostId = h\<rparr>
       (Inr \<lparr>OfferResponse_OffererId = '''', OfferResponse_AnswererId = a, OfferResponse_Body = sdp\<rparr>)) \<and>
     answerWaits (sigOff S) 0 = Some (WADone (Inr \<lparr>AnswerResponse_Answer = ans\<rparr>)) \<and>
     iceWaits (sigOff S) 0 = Some (WISend ch (ice_req a) d hc) \<and>
     ansIceWaits (sigAns S) 0 = Some (AWSend ch' (ice_req a) d' cc)"
  by (simp add: phases sig_eval)

theorem host_candidates_end_to_end_witness:
  "\<exists>g' r err. AnsDoes (AnsSendIceBy g' (SIRecv (Some r) err))
       \<in> set (listen_run ''h'' ''jwt'' @ offer_phase ''h'' ''sdp'' ''a1'' ''o1'' @
           host_candidate_phase ''a1'' ''c1'') \<and>
     ReplyToRequest_AnswererId r = ''a1'' \<and> ReplyToRequest_Body r = ''c1''"
proof -
  obtain S ch d where S: "exec sig_step (listen_run ''h'' ''jwt'' @ offer_phase ''h'' ''sdp'' ''a1'' ''o1'' @
        host_candidate_phase ''a1'' ''c1'') Serve = Some S"
    and w: "iceWaits (sigOff S) 0 = Some (WISend ch (ice_req ''a1'') d ''c1'')"
    by (simp add: phases sig_eval)
  from host_candidates_end_to_end [OF S w] show ?thesis by simp
qed

theorem client_candidates_end_to_end_witness:
  "\<exists>g' r err. OffDoes (SendIceBy g' (SIRecv (Some r) err))
       \<in> set (listen_run ''h'' ''jwt'' @ offer_phase ''h'' ''sdp'' ''a1'' ''o1'' @
           client_candidate_phase ''a1'' ''c2'') \<and>
     ReplyToRequest_AnswererId r = ''a1'' \<and> ReplyToRequest_Body r = ''c2''"
proof -
  obtain S ch d where S: "exec sig_step (listen_run ''h'' ''jwt'' @ offer_phase ''h'' ''sdp'' ''a1'' ''o1'' @
        client_candidate_phase ''a1'' ''c2'') Serve = Some S"
    and w: "ansIceWaits (sigAns S) 0 = Some (AWSend ch (ice_req ''a1'') d ''c2'')"
    by (simp add: phases sig_eval)
  from client_candidates_end_to_end [OF S w] show ?thesis by simp
qed

end
