(* ===== verification/Relay.thy ===== *)
theory Relay
  imports OffererProps
begin

text \<open>
  The offerer service as a relay of answers. The channel it shares with the answerer service and the hand
  of its router form one queue: answers leave it in the order they arrived, each either delivered to a
  call of \<open>WaitForAnswer\<close> for its answerer id or discarded because its id is not registered.
\<close>

section \<open>The queue\<close>

datatype 'p relay_op = Arrive 'p | Deliver string 'p | Discard 'p

fun relay_step :: "('p \<Rightarrow> string) \<Rightarrow> 'p relay_op \<Rightarrow> 'p list \<Rightarrow> 'p list option" where
  "relay_step addr (Arrive pkt) q = Some (q @ [pkt])"
| "relay_step addr (Deliver a pkt) (p # q) = (if p = pkt \<and> addr p = a then Some q else None)"
| "relay_step addr (Discard pkt) (p # q) = (if p = pkt then Some q else None)"
| "relay_step addr _ [] = None"

fun arrived :: "'p relay_op list \<Rightarrow> 'p list" where
  "arrived [] = []"
| "arrived (Arrive pkt # ops) = pkt # arrived ops"
| "arrived (_ # ops) = arrived ops"

fun departed :: "'p relay_op list \<Rightarrow> 'p list" where
  "departed [] = []"
| "departed (Deliver a pkt # ops) = pkt # departed ops"
| "departed (Discard pkt # ops) = pkt # departed ops"
| "departed (Arrive pkt # ops) = departed ops"

lemma relay_fifo: "exec (relay_step addr) ops q = Some q' \<Longrightarrow> q @ arrived ops = departed ops @ q'"
proof (induction ops arbitrary: q)
  case Nil
  then show ?case by simp
next
  case (Cons l ops)
  then obtain t where t: "relay_step addr l q = Some t" "exec (relay_step addr) ops t = Some q'"
    by (auto split: option.splits)
  from Cons.IH [OF t(2)] t(1) show ?case
    by (cases "(addr, l, q)" rule: relay_step.cases) (auto split: if_splits)
qed

section \<open>The queue of a state of the service\<close>

fun in_hand_answer :: "answer_router \<Rightarrow> AnsPacket list" where
  "in_hand_answer ARIdle = []"
| "in_hand_answer (ARSend ch pkt) = [pkt]"

definition answers_in_flight :: "OffererServer \<Rightarrow> AnsPacket list" where
  "answers_in_flight s = in_hand_answer (answerRouterPc s) @ chBuf (answerCh (offBus s))"

fun relay_ops :: "off_label \<Rightarrow> OffererServer \<Rightarrow> AnsPacket relay_op list" where
  "relay_ops (AnswerArrives pkt) s = [Arrive pkt]"
| "relay_ops (AnswerDelivered g) s =
     (case (answerRouterPc s, answerWaits s g) of
        (ARSend ch pkt, Some (WASelect c req)) \<Rightarrow> [Deliver (WaitForAnswerRequest_AnswererId req) pkt]
      | _ \<Rightarrow> [])"
| "relay_ops AnswerRouted s =
     (case chBuf (answerCh (offBus s)) of
        pkt # _ \<Rightarrow> if offAnsMap s (ans_answererID pkt) = None then [Discard pkt] else []
      | [] \<Rightarrow> [])"
| "relay_ops _ s = []"

lemma delivered_to_its_id:
  assumes "off_answers.owned s" "answerRouterPc s = ARSend ch pkt" "answerWaits s g = Some (WASelect ch req)"
  shows "ans_answererID pkt = WaitForAnswerRequest_AnswererId req"
proof -
  have "holds_answer_chan s ch (ans_answererID pkt)"
    "holds_answer_chan s ch (WaitForAnswerRequest_AnswererId req)"
    using assms(2,3) by (auto intro: holds_answer_chan_intros)
  with assms(1) show ?thesis unfolding off_answers.owned_def by blast
qed

interpretation relay_sim: simulation off_step "relay_step ans_answererID" answers_in_flight relay_ops off_answers.owned
proof unfold_locales
  show "off_answers.owned s'" if "off_answers.owned s" "off_step l s = Some s'" for s l s'
    using off_answers.step_keeps [OF that(1) _ that(2)] by simp
next
  fix s l s' assume own: "off_answers.owned s" and step: "off_step l s = Some s'"
  show "exec (relay_step ans_answererID) (relay_ops l s) (answers_in_flight s) = Some (answers_in_flight s')"
  proof (cases "\<exists>pkt. l = AnswerArrives pkt")
    case True
    with step show ?thesis by (auto simp: answers_in_flight_def chan_put_Some_iff)
  next
    case arrives: False
    from step show ?thesis
    proof (cases rule: off_stepE)
      case (send_offer g ev)
      from send_offer(2) have "answers_in_flight s' = answers_in_flight s"
        by (cases rule: SendOffer_cases) (simp_all add: answers_in_flight_def SendOffer_begin_def)
      with send_offer(1) show ?thesis by simp
    next
      case (wait_answer g ev)
      from wait_answer(2) have "answers_in_flight s' = answers_in_flight s"
        by (cases rule: WaitForAnswer_cases) (simp_all add: answers_in_flight_def)
      with wait_answer(1) show ?thesis by simp
    next
      case (wait_ice g ev)
      from wait_ice(2) have "answers_in_flight s' = answers_in_flight s"
        by (cases rule: WaitForICECandidate_off_cases) (simp_all add: answers_in_flight_def)
      with wait_ice(1) show ?thesis by simp
    next
      case (answer_delivered g ch pkt req)
      with delivered_to_its_id [OF own answer_delivered(2,3)] show ?thesis
        by (simp add: answers_in_flight_def)
    next
      case (shared b more)
      with arrives have "answers_in_flight s' = answers_in_flight s"
        by (auto simp: answers_in_flight_def)
      moreover have "answerRouterPc s' = answerRouterPc s" using shared(1) by simp
      then have "relay_ops l s = []"
        using shared(4) arrives step
        by (cases "(l, s)" rule: relay_ops.cases) (auto simp: answer_handover_def
            split: option.splits answer_router.splits wait_answer_pc.splits if_splits)
      ultimately show ?thesis by simp
    qed (use arrives in \<open>auto simp: answers_in_flight_def chan_take_Some_iff\<close>)
  qed
qed

section \<open>Properties\<close>

fun answers_arriving :: "off_label list \<Rightarrow> AnsPacket list" where
  "answers_arriving [] = []"
| "answers_arriving (AnswerArrives pkt # ls) = pkt # answers_arriving ls"
| "answers_arriving (_ # ls) = answers_arriving ls"

lemma arrived_append [simp]: "arrived (xs @ ys) = arrived xs @ arrived ys"
  by (induction xs rule: arrived.induct) auto

lemma arrived_ops [simp]: "arrived (relay_ops l s) = answers_arriving [l]"
  by (cases "(l, s)" rule: relay_ops.cases)
    (simp_all split: list.splits answer_router.splits wait_answer_pc.splits option.splits)

lemma answers_arriving_Cons: "answers_arriving (l # ls) = answers_arriving [l] @ answers_arriving ls"
  by (cases l) simp_all

lemma arrived_trace:
  "exec off_step ls s = Some s' \<Longrightarrow>
     arrived (abstract_trace off_step relay_ops ls s) = answers_arriving ls"
proof (induction ls arbitrary: s)
  case Nil
  then show ?case by simp
next
  case (Cons l ls)
  then obtain t where t: "off_step l s = Some t" "exec off_step ls t = Some s'"
    by (auto split: option.splits)
  with Cons.IH [OF t(2)] show ?case by (simp add: answers_arriving_Cons [of l ls])
qed

lemma answers_start [simp]: "answers_in_flight (NewOffererServer b) = chBuf (answerCh b)"
  by (simp add: answers_in_flight_def NewOffererServer_def)

lemma relay_run:
  assumes "exec off_step ls (NewOffererServer b) = Some s"
  shows "exec (relay_step ans_answererID) (abstract_trace off_step relay_ops ls (NewOffererServer b))
     (chBuf (answerCh b)) = Some (answers_in_flight s)"
  using relay_sim.exec_sim [OF assms off_answers.start_holds] by simp

text \<open>
  C16: the offerer service implements one first-in first-out relay of answers. In every run, with any
  interleaving of handlers, router and timers, the arrivals, deliveries and discards of answers are a run
  of the queue that ends in the answers the channel and the router hold: an answer departs only from the
  head, a delivery is to the answerer id the packet carries, and no answer is lost otherwise.
\<close>

theorem offerer_refines_relay:
  assumes "exec off_step ls (NewOffererServer b) = Some s"
  shows "exec (relay_step ans_answererID) (abstract_trace off_step relay_ops ls (NewOffererServer b))
     (chBuf (answerCh b)) = Some (answers_in_flight s)"
  using assms by (rule relay_run)

definition relay_demo :: "off_label list" where
  "relay_demo = answer_run @ [AnswerArrives \<lparr>ans_answererID = ''a9'', ans_answer = ''stray''\<rparr>,
     AnswerDelivered 1, AnswerRouted, AnswerArrives \<lparr>ans_answererID = ''a1'', ans_answer = ''again''\<rparr>]"

theorem offerer_refines_relay_witness:
  "\<exists>s. exec off_step relay_demo (NewOffererServer new_bus) = Some s \<and>
     exec (relay_step ans_answererID)
       [Arrive \<lparr>ans_answererID = ''a1'', ans_answer = ''ok''\<rparr>,
        Arrive \<lparr>ans_answererID = ''a9'', ans_answer = ''stray''\<rparr>,
        Deliver ''a1'' \<lparr>ans_answererID = ''a1'', ans_answer = ''ok''\<rparr>,
        Discard \<lparr>ans_answererID = ''a9'', ans_answer = ''stray''\<rparr>,
        Arrive \<lparr>ans_answererID = ''a1'', ans_answer = ''again''\<rparr>] [] = Some (answers_in_flight s)"
proof -
  obtain s where s: "exec off_step relay_demo (NewOffererServer new_bus) = Some s"
    by (simp add: relay_demo_def answer_run_def off_eval)
  have "abstract_trace off_step relay_ops relay_demo (NewOffererServer new_bus) =
      [Arrive \<lparr>ans_answererID = ''a1'', ans_answer = ''ok''\<rparr>,
        Arrive \<lparr>ans_answererID = ''a9'', ans_answer = ''stray''\<rparr>,
        Deliver ''a1'' \<lparr>ans_answererID = ''a1'', ans_answer = ''ok''\<rparr>,
        Discard \<lparr>ans_answererID = ''a9'', ans_answer = ''stray''\<rparr>,
        Arrive \<lparr>ans_answererID = ''a1'', ans_answer = ''again''\<rparr>]"
    by (simp add: relay_demo_def answer_run_def off_eval)
  with offerer_refines_relay [OF s] s show ?thesis by (auto simp: new_bus_def make_chan_def)
qed

text \<open>
  Answers keep their order through the offerer service. In every run from a fresh server, the answers
  that arrived are, in this order, the ones that were delivered or discarded followed by those still in
  the router's hand and in the channel.
\<close>

theorem answers_keep_their_order:
  assumes "exec off_step ls (NewOffererServer new_bus) = Some s"
  shows "answers_arriving ls =
     departed (abstract_trace off_step relay_ops ls (NewOffererServer new_bus)) @ answers_in_flight s"
  using relay_fifo [OF relay_run [OF assms]] arrived_trace [OF assms]
  by (simp add: new_bus_def make_chan_def)

theorem answers_keep_their_order_witness:
  "\<exists>s. exec off_step relay_demo (NewOffererServer new_bus) = Some s \<and>
     answers_arriving relay_demo =
       [\<lparr>ans_answererID = ''a1'', ans_answer = ''ok''\<rparr>,
        \<lparr>ans_answererID = ''a9'', ans_answer = ''stray''\<rparr>] @ answers_in_flight s"
proof -
  obtain s where s: "exec off_step relay_demo (NewOffererServer new_bus) = Some s"
    by (simp add: relay_demo_def answer_run_def off_eval)
  have "departed (abstract_trace off_step relay_ops relay_demo (NewOffererServer new_bus)) =
      [\<lparr>ans_answererID = ''a1'', ans_answer = ''ok''\<rparr>,
        \<lparr>ans_answererID = ''a9'', ans_answer = ''stray''\<rparr>]"
    by (simp add: relay_demo_def answer_run_def off_eval)
  with answers_keep_their_order [OF s] s show ?thesis by auto
qed

end
