(* ===== verification/CandidateOrder.thy ===== *)
theory CandidateOrder
  imports Candidates Relay "HOL-Library.Sublist"
begin

text \<open>
  The order of ICE candidates through the signalling server, in both directions. Three parts are put in a
  row: the stream of a client (\<open>candidate_stream\<close>), the queue inside the offerer or the answerer service,
  and the calls of \<open>WaitForICECandidate\<close>. What a call passes on is a subsequence of what one stream got.
\<close>

section \<open>One stream of candidates\<close>

text \<open>
  The contract of a service as the sender of candidates: what a stream has received is what it has
  forwarded (\<open>arrivals\<close>) and what its goroutine still holds. \<open>label g ev\<close> is the stream \<open>g\<close> doing \<open>ev\<close>.
\<close>

fun received_packet :: "send_ice_event \<Rightarrow> IcePacket list" where
  "received_packet (SIRecv (Some r) err) = [candidate_packet r]"
| "received_packet _ = []"

lemma ice_stream_balance:
  assumes "ice_stream ev pc f b = Some (pc', b')"
  shows "(if ev = SIForward then forwarded pc else []) @ forwarded (Some pc') =
     forwarded pc @ received_packet ev"
  using assms
  by (cases "(ev, pc, f, b)" rule: ice_stream.cases)
    (auto simp: forwarded_def ice_received_def candidate_packet_def split: option.splits)

abbreviation for_id :: "string \<Rightarrow> IcePacket list \<Rightarrow> IcePacket list" where
  "for_id a \<equiv> filter (\<lambda>pkt. ice_answererID pkt = a)"

fun received_on :: "('l \<Rightarrow> (nat \<times> send_ice_event) option) \<Rightarrow> nat \<Rightarrow> 'l list \<Rightarrow> IcePacket list" where
  "received_on stream_of k [] = []"
| "received_on stream_of k (l # ls) =
     (case stream_of l of
        Some (g, ev) \<Rightarrow> (if g = k then received_packet ev else [])
      | None \<Rightarrow> []) @ received_on stream_of k ls"

lemma received_on_append [simp]:
  "received_on stream_of k (xs @ ys) = received_on stream_of k xs @ received_on stream_of k ys"
  by (induction xs) auto

text \<open>Nobody but the stream \<open>k\<close> got candidates for the id \<open>a\<close>.\<close>

definition only_stream :: "('l \<Rightarrow> (nat \<times> send_ice_event) option) \<Rightarrow> nat \<Rightarrow> string \<Rightarrow> 'l list \<Rightarrow> bool" where
  "only_stream stream_of k a ls \<longleftrightarrow> (\<forall>g. g \<noteq> k \<longrightarrow> for_id a (received_on stream_of g ls) = [])"

lemma only_stream_append:
  "only_stream stream_of k a (xs @ ys) \<longleftrightarrow> only_stream stream_of k a xs \<and> only_stream stream_of k a ys"
  by (auto simp: only_stream_def)

locale candidate_stream =
  fixes step :: "'l \<Rightarrow> 's \<Rightarrow> 's option"
    and sends :: "'s \<Rightarrow> nat \<Rightarrow> send_ice_pc option"
    and stream_of :: "'l \<Rightarrow> (nat \<times> send_ice_event) option"
    and arrivals :: "'l \<Rightarrow> 's \<Rightarrow> IcePacket list"
    and start :: 's
  assumes start_idle: "sends start g = None"
    and balance: "step l s = Some s' \<Longrightarrow> stream_of l = Some (g, ev) \<Longrightarrow>
      arrivals l s @ forwarded (sends s' g) = forwarded (sends s g) @ received_packet ev"
    and others: "step l s = Some s' \<Longrightarrow> stream_of l = Some (g, ev) \<Longrightarrow> g' \<noteq> g \<Longrightarrow>
      sends s' g' = sends s g'"
    and silent: "step l s = Some s' \<Longrightarrow> stream_of l = None \<Longrightarrow>
      arrivals l s = [] \<and> sends s' = sends s"
begin

lemma stream_balance_step:
  assumes step: "step l s = Some s'" and only: "only_stream stream_of k a [l]"
    and rest: "\<forall>g. g \<noteq> k \<longrightarrow> for_id a (forwarded (sends s g)) = []"
  shows "for_id a (arrivals l s) @ for_id a (forwarded (sends s' k)) =
      for_id a (forwarded (sends s k)) @ for_id a (received_on stream_of k [l]) \<and>
    (\<forall>g. g \<noteq> k \<longrightarrow> for_id a (forwarded (sends s' g)) = [])"
proof (cases "stream_of l")
  case None
  with silent [OF step None] rest show ?thesis by simp
next
  case (Some p)
  then obtain g ev where l: "stream_of l = Some (g, ev)" by (cases p) auto
  have bal: "for_id a (arrivals l s) @ for_id a (forwarded (sends s' g)) =
      for_id a (forwarded (sends s g)) @ for_id a (received_packet ev)"
    using arg_cong [OF balance [OF step l], of "for_id a"] by simp
  show ?thesis
  proof (cases "g = k")
    case True
    with bal l others [OF step l] rest show ?thesis by auto
  next
    case False
    with only l have "for_id a (received_packet ev) = []" by (auto simp: only_stream_def)
    with bal rest False have "for_id a (arrivals l s) = []" "for_id a (forwarded (sends s' g)) = []" by auto
    moreover have "sends s' k = sends s k" using others [OF step l] False by simp
    moreover have "for_id a (forwarded (sends s' h)) = []" if "h \<noteq> k" for h
      using calculation(2) rest that others [OF step l, of h] by (cases "h = g") auto
    ultimately show ?thesis using False l by simp
  qed
qed

lemma stream_balance:
  "exec step ls start = Some s \<Longrightarrow> only_stream stream_of k a ls \<Longrightarrow>
     for_id a (abstract_trace step arrivals ls start) @ for_id a (forwarded (sends s k)) =
       for_id a (received_on stream_of k ls) \<and>
     (\<forall>g. g \<noteq> k \<longrightarrow> for_id a (forwarded (sends s g)) = [])"
proof (induction rule: exec_trace_induct)
  case start
  show ?case by (simp add: start_idle)
next
  case (step ls l t u)
  from step.prems have only: "only_stream stream_of k a ls" "only_stream stream_of k a [l]"
    by (simp_all add: only_stream_append)
  from step.IH [OF only(1)] stream_balance_step [OF step.hyps(2) only(2)] show ?case
    by (auto simp: abstract_trace_append [OF step.hyps(1)] step.hyps(2))
qed

end

section \<open>The streams of the two services\<close>

fun host_stream :: "sig_label \<Rightarrow> (nat \<times> send_ice_event) option" where
  "host_stream (AnsDoes (AnsSendIceBy g ev)) = Some (g, ev)"
| "host_stream _ = None"

fun client_stream :: "sig_label \<Rightarrow> (nat \<times> send_ice_event) option" where
  "client_stream (OffDoes (SendIceBy g ev)) = Some (g, ev)"
| "client_stream _ = None"

fun ices_arriving :: "off_label list \<Rightarrow> IcePacket list" where
  "ices_arriving [] = []"
| "ices_arriving (IceArrives pkt # ls) = pkt # ices_arriving ls"
| "ices_arriving (_ # ls) = ices_arriving ls"

fun cands_arriving :: "ans_label list \<Rightarrow> IcePacket list" where
  "cands_arriving [] = []"
| "cands_arriving (IceToAnsArrives pkt # ls) = pkt # cands_arriving ls"
| "cands_arriving (_ # ls) = cands_arriving ls"

lemma ices_arriving_append [simp]: "ices_arriving (xs @ ys) = ices_arriving xs @ ices_arriving ys"
  by (induction xs rule: ices_arriving.induct) auto

lemma cands_arriving_append [simp]: "cands_arriving (xs @ ys) = cands_arriving xs @ cands_arriving ys"
  by (induction xs rule: cands_arriving.induct) auto

lemma ices_arriving_map [simp]: "ices_arriving (map IceArrives pkts) = pkts"
  by (induction pkts) auto

lemma cands_arriving_map [simp]: "cands_arriving (map IceToAnsArrives pkts) = pkts"
  by (induction pkts) auto

lemma host_stream_Some: "host_stream l = Some (g, ev) \<Longrightarrow> l = AnsDoes (AnsSendIceBy g ev)"
  by (cases l rule: host_stream.cases) simp_all

lemma client_stream_Some: "client_stream l = Some (g, ev) \<Longrightarrow> l = OffDoes (SendIceBy g ev)"
  by (cases l rule: client_stream.cases) simp_all

lemma ans_send_step:
  assumes "SendIceCandidate_ans g ev s = Some s'"
  obtains f and b :: bus and pc b' where "ice_stream ev (ansIceSends s g) f b = Some (pc, b')"
    "ansIceSends s' = (ansIceSends s)(g \<mapsto> pc)"
proof -
  from assms obtain p where "ice_stream ev (ansIceSends s g)
      (\<lambda>pkt. map_option (\<lambda>c. (ansBus s)\<lparr>iceToOfferCh := c\<rparr>) (chan_put (iceToOfferCh (ansBus s)) pkt))
      (ansBus s) = Some p" "s' = s\<lparr>ansIceSends := (ansIceSends s)(g \<mapsto> fst p), ansBus := snd p\<rparr>"
    by (auto simp: SendIceCandidate_ans_def)
  then show thesis by (intro that [where pc = "fst p" and b' = "snd p"]) simp_all
qed

lemma off_send_step:
  assumes "SendIceCandidate_off g ev s = Some s'"
  obtains f and b :: bus and pc b' where "ice_stream ev (iceSends s g) f b = Some (pc, b')"
    "iceSends s' = (iceSends s)(g \<mapsto> pc)"
proof -
  from assms obtain p where "ice_stream ev (iceSends s g)
      (\<lambda>pkt. map_option (\<lambda>c. (offBus s)\<lparr>iceToAnsCh := c\<rparr>) (chan_put (iceToAnsCh (offBus s)) pkt))
      (offBus s) = Some p" "s' = s\<lparr>iceSends := (iceSends s)(g \<mapsto> fst p), offBus := snd p\<rparr>"
    by (auto simp: SendIceCandidate_off_def)
  then show thesis by (intro that [where pc = "fst p" and b' = "snd p"]) simp_all
qed

lemma ansIceSends_handover:
  "offerRouter off s = Some s' \<Longrightarrow> ansIceSends s' = ansIceSends s"
  "iceCandidateRouter_ans_close s = Some s' \<Longrightarrow> ansIceSends s' = ansIceSends s"
  using ansIceSends_other [of "OfferHanded off" s s'] ansIceSends_other [of CloseIceHanded s s'] by simp_all

lemma iceSends_handover:
  "SendOffer g ev s = Some s' \<Longrightarrow> iceSends s' = iceSends s"
  "WaitForICECandidate_off g ev' s = Some s' \<Longrightarrow> iceSends s' = iceSends s"
  using iceSends_other [of "SendOfferBy g ev" s s'] iceSends_other [of "WaitIceBy g ev'" s s'] by simp_all

lemma local_arrivals:
  "off_local k \<Longrightarrow> ices_arriving [k] = []" "ans_local k' \<Longrightarrow> cands_arriving [k'] = []"
  by (cases k; simp) (cases k'; simp)

interpretation host_candidates: candidate_stream sig_step "\<lambda>S. ansIceSends (sigAns S)" host_stream
  "\<lambda>l S. ices_arriving (off_proj l S)" Serve
proof unfold_locales
  show "ansIceSends (sigAns Serve) g = None" for g by (simp add: NewAnswererServer_def)
next
  fix l S S' g ev assume step: "sig_step l S = Some S'" and "host_stream l = Some (g, ev)"
  then have l: "l = AnsDoes (AnsSendIceBy g ev)" by (rule_tac host_stream_Some)
  with step obtain s where s: "SendIceCandidate_ans g ev (sigAns S) = Some s" and
    S': "ansIceSends (sigAns S') = ansIceSends s"
    by (auto split: if_splits)
  from s obtain f and b :: bus and pc b' where "ice_stream ev (ansIceSends (sigAns S) g) f b = Some (pc, b')"
      and upd: "ansIceSends s = (ansIceSends (sigAns S))(g \<mapsto> pc)"
    by (rule ans_send_step)
  from ice_stream_balance [OF this(1)] upd S' l
  show "ices_arriving (off_proj l S) @ forwarded (ansIceSends (sigAns S') g) =
      forwarded (ansIceSends (sigAns S) g) @ received_packet ev"
    by (cases ev) simp_all
  show "ansIceSends (sigAns S') g' = ansIceSends (sigAns S) g'" if "g' \<noteq> g" for g'
    using S' upd that by simp
next
  fix l S S' assume step: "sig_step l S = Some S'" and l: "host_stream l = None"
  have "ices_arriving (off_proj l S) = []" using l step
    by (cases "(l, S)" rule: off_proj.cases)
      (auto simp: local_arrivals split: option.splits send_answer_pc.splits if_splits)
  moreover have "ansIceSends (sigAns S') = ansIceSends (sigAns S)"
    using step l by (cases l) (auto split: option.splits if_splits dest!: ansIceSends_other ansIceSends_handover)
  ultimately show "ices_arriving (off_proj l S) = [] \<and> ansIceSends (sigAns S') = ansIceSends (sigAns S)" ..
qed

interpretation client_candidates: candidate_stream sig_step "\<lambda>S. iceSends (sigOff S)" client_stream
  "\<lambda>l S. cands_arriving (ans_proj l S)" Serve
proof unfold_locales
  show "iceSends (sigOff Serve) g = None" for g by (simp add: NewOffererServer_def)
next
  fix l S S' g ev assume step: "sig_step l S = Some S'" and "client_stream l = Some (g, ev)"
  then have l: "l = OffDoes (SendIceBy g ev)" by (rule_tac client_stream_Some)
  with step obtain s where s: "SendIceCandidate_off g ev (sigOff S) = Some s" and
    S': "iceSends (sigOff S') = iceSends s"
    by (auto split: if_splits)
  from s obtain f and b :: bus and pc b' where "ice_stream ev (iceSends (sigOff S) g) f b = Some (pc, b')"
      and upd: "iceSends s = (iceSends (sigOff S))(g \<mapsto> pc)"
    by (rule off_send_step)
  from ice_stream_balance [OF this(1)] upd S' l
  show "cands_arriving (ans_proj l S) @ forwarded (iceSends (sigOff S') g) =
      forwarded (iceSends (sigOff S) g) @ received_packet ev"
    by (cases ev) simp_all
  show "iceSends (sigOff S') g' = iceSends (sigOff S) g'" if "g' \<noteq> g" for g'
    using S' upd that by simp
next
  fix l S S' assume step: "sig_step l S = Some S'" and l: "client_stream l = None"
  have "cands_arriving (ans_proj l S) = []" using l step
    by (cases "(l, S)" rule: ans_proj.cases) (auto simp: local_arrivals split: option.splits if_splits)
  moreover have "iceSends (sigOff S') = iceSends (sigOff S)"
    using step l by (cases l) (auto split: option.splits if_splits dest!: iceSends_other iceSends_handover)
  ultimately show "cands_arriving (ans_proj l S) = [] \<and> iceSends (sigOff S') = iceSends (sigOff S)" ..
qed

section \<open>From the host to the client\<close>

text \<open>Inside the offerer service candidates pass through a relay like the one for answers.\<close>

fun in_hand_candidate :: "ice_router \<Rightarrow> IcePacket list" where
  "in_hand_candidate IRIdle = []"
| "in_hand_candidate (IRSend ch pkt) = [pkt]"

definition candidates_in_flight :: "OffererServer \<Rightarrow> IcePacket list" where
  "candidates_in_flight s = in_hand_candidate (iceRouterPc s) @ chBuf (iceToOfferCh (offBus s))"

fun candidate_ops :: "off_label \<Rightarrow> OffererServer \<Rightarrow> IcePacket relay_op list" where
  "candidate_ops (IceArrives pkt) s = [Arrive pkt]"
| "candidate_ops (IceDelivered g) s =
     (case (iceRouterPc s, iceWaits s g) of
        (IRSend ch pkt, Some (WISelect c req d)) \<Rightarrow> [Deliver (WaitForICECandidateRequest_AnswererId req) pkt]
      | _ \<Rightarrow> [])"
| "candidate_ops IceRouted s =
     (case chBuf (iceToOfferCh (offBus s)) of
        pkt # _ \<Rightarrow> if offIceMap s (ice_answererID pkt) = None then [Discard pkt] else []
      | [] \<Rightarrow> [])"
| "candidate_ops _ s = []"

lemma candidate_ops_step:
  assumes own: "off_ices.owned s" and step: "off_step l s = Some s'"
  shows "exec (relay_step ice_answererID) (candidate_ops l s) (candidates_in_flight s) =
     Some (candidates_in_flight s')"
proof (cases l)
  case (SendOfferBy g ev)
  with step have st: "SendOffer g ev s = Some s'" by simp
  from st SendOfferBy show ?thesis
    by (cases rule: SendOffer_cases) (simp_all add: candidates_in_flight_def SendOffer_begin_def)
next
  case (WaitAnswerBy g ev)
  with step have st: "WaitForAnswer g ev s = Some s'" by simp
  from st WaitAnswerBy show ?thesis
    by (cases rule: WaitForAnswer_cases) (simp_all add: candidates_in_flight_def)
next
  case (WaitIceBy g ev)
  with step have st: "WaitForICECandidate_off g ev s = Some s'" by simp
  from st WaitIceBy show ?thesis
    by (cases rule: WaitForICECandidate_off_cases) (simp_all add: candidates_in_flight_def)
next
  case (SendIceBy g ev)
  with step show ?thesis
    by (auto simp: SendIceCandidate_off_def candidates_in_flight_def dest!: ice_stream_to_ans)
next
  case (IceDelivered g)
  with step obtain ch pkt req d where r: "iceRouterPc s = IRSend ch pkt"
      and w: "iceWaits s g = Some (WISelect ch req d)"
      and s': "s' = s\<lparr>iceRouterPc := IRIdle,
        iceWaits := (iceWaits s)(g \<mapsto> WISend ch req d (iceCandidate pkt))\<rparr>"
    by (auto simp: ice_handover_def split: ice_router.splits option.splits wait_ice_pc.splits if_splits)
  have "holds_ice_chan s ch (ice_answererID pkt)"
    "holds_ice_chan s ch (WaitForICECandidateRequest_AnswererId req)"
    by (rule holds_ice_chan_intros(2) [OF r] holds_ice_chan_intros(3) [OF w])+
  with own have "ice_answererID pkt = WaitForICECandidateRequest_AnswererId req"
    unfolding off_ices.owned_def by blast
  with IceDelivered r w s' show ?thesis by (simp add: candidates_in_flight_def)
next
  case IceRouted
  with step show ?thesis
    by (auto simp: iceCandidateRouter_off_def candidates_in_flight_def chan_take_Some_iff Let_def
        split: ice_router.splits option.splits)
qed (use step in \<open>auto simp: candidates_in_flight_def answerRouter_def answer_handover_def
      SendOffer_cleanup_def chan_put_Some_iff Let_def
      split: answer_router.splits option.splits wait_answer_pc.splits if_splits\<close>)

interpretation candidate_relay: simulation off_step "relay_step ice_answererID" candidates_in_flight
  candidate_ops off_ices.owned
proof unfold_locales
  show "off_ices.owned s'" if "off_ices.owned s" "off_step l s = Some s'" for s l s'
    using off_ices.step_keeps [OF that(1) _ that(2)] by simp
qed (rule candidate_ops_step)

lemma arrived_candidate_ops [simp]: "arrived (candidate_ops l s) = ices_arriving [l]"
  by (cases "(l, s)" rule: candidate_ops.cases)
    (simp_all split: list.splits ice_router.splits wait_ice_pc.splits option.splits)

fun delivered :: "'p relay_op list \<Rightarrow> 'p list" where
  "delivered [] = []"
| "delivered (Deliver a pkt # ops) = pkt # delivered ops"
| "delivered (_ # ops) = delivered ops"

lemma delivered_append [simp]: "delivered (xs @ ys) = delivered xs @ delivered ys"
  by (induction xs rule: delivered.induct) auto

lemma delivered_departed: "subseq (delivered ops) (departed ops)"
  by (induction ops rule: delivered.induct) auto

text \<open>The hand-overs to calls of the offerer's \<open>WaitForICECandidate\<close>: which call, and which packet.\<close>

fun handed_candidates :: "off_label \<Rightarrow> OffererServer \<Rightarrow> (nat \<times> IcePacket) list" where
  "handed_candidates (IceDelivered g) s =
     (case iceRouterPc s of IRSend ch pkt \<Rightarrow> [(g, pkt)] | IRIdle \<Rightarrow> [])"
| "handed_candidates _ s = []"

fun handed_to_client :: "sig_label \<Rightarrow> signal_server \<Rightarrow> (nat \<times> IcePacket) list" where
  "handed_to_client (OffDoes l) S = handed_candidates l (sigOff S)"
| "handed_to_client _ S = []"

lemma delivered_ops:
  "off_step l s = Some s' \<Longrightarrow> delivered (candidate_ops l s) = map snd (handed_candidates l s)"
  by (cases "(l, s)" rule: candidate_ops.cases)
    (auto simp: ice_handover_def split: list.splits ice_router.splits wait_ice_pc.splits option.splits)

lemma handed_candidates_none [simp]:
  "abstract_trace off_step handed_candidates (map IceArrives pkts) s = []"
  by (induction pkts arbitrary: s) (auto split: option.splits)

lemma handed_to_client_proj:
  assumes "sig_step l S = Some S'"
  shows "abstract_trace off_step handed_candidates (off_proj l S) (sigOff S) = handed_to_client l S"
  using assms
  by (cases "(l, S)" rule: off_proj.cases) (auto split: option.splits send_answer_pc.splits)

definition client_handovers :: "sig_label list \<Rightarrow> (nat \<times> IcePacket) list" where
  "client_handovers ls = abstract_trace sig_step handed_to_client ls Serve"

lemma client_handovers_off:
  assumes "exec sig_step ls Serve = Some S"
  shows "abstract_trace off_step handed_candidates (off_trace ls) (NewOffererServer new_bus) = client_handovers ls"
  using off_view.trace_compose [OF assms same_bus_Serve, of handed_candidates]
    abstract_trace_cong [OF handed_to_client_proj assms]
  by (simp add: client_handovers_def)

lemma candidates_start: "candidates_in_flight (NewOffererServer new_bus) = []"
  by (simp add: candidates_in_flight_def NewOffererServer_def new_bus_def make_chan_def)

lemma handed_in_order:
  assumes "exec off_step ls (NewOffererServer new_bus) = Some s"
  shows "subseq (map snd (abstract_trace off_step handed_candidates ls (NewOffererServer new_bus)))
     (ices_arriving ls)"
proof -
  let ?s = "NewOffererServer new_bus" and ?ops = "abstract_trace off_step candidate_ops ls (NewOffererServer new_bus)"
  have "abstract_trace off_step (\<lambda>l s. map snd (handed_candidates l s)) ls ?s =
      abstract_trace off_step (\<lambda>l s. delivered (candidate_ops l s)) ls ?s"
    by (rule abstract_trace_cong [OF _ assms]) (simp add: delivered_ops)
  then have "map snd (abstract_trace off_step handed_candidates ls ?s) = delivered ?ops"
    by (simp add: abstract_trace_hom [where h = "map snd"] abstract_trace_hom [where h = delivered])
  moreover have "arrived ?ops = ices_arriving ls"
  proof -
    have "arrived ?ops = abstract_trace off_step (\<lambda>l s. ices_arriving [l]) ls ?s"
      by (simp add: abstract_trace_hom [where h = arrived])
    also have "\<dots> = ices_arriving ls"
      using assms
    proof (induction ls arbitrary: s rule: rev_induct)
      case Nil
      show ?case by simp
    next
      case (snoc l ls)
      then obtain t where t: "exec off_step ls ?s = Some t" by (auto simp: exec_append split: option.splits)
      with snoc.IH [OF t] snoc.prems show ?case
        by (simp add: abstract_trace_append [OF t] exec_append split: option.splits)
    qed
    finally show ?thesis .
  qed
  moreover have "[] @ arrived ?ops = departed ?ops @ candidates_in_flight s"
    using candidate_relay.exec_sim [OF assms off_ices.start_holds] candidates_start
    by (intro relay_fifo [where addr = ice_answererID]) simp
  ultimately show ?thesis
    using delivered_departed [of ?ops] by (metis append_Nil subseq_rev_drop_many)
qed

lemma handed_over_in_order:
  assumes "exec sig_step ls Serve = Some S" and "only_stream host_stream k a ls"
  shows "subseq (for_id a (map snd (client_handovers ls))) (for_id a (received_on host_stream k ls))"
proof -
  have "for_id a (ices_arriving (off_trace ls)) @ for_id a (forwarded (ansIceSends (sigAns S) k)) =
      for_id a (received_on host_stream k ls)"
    using host_candidates.stream_balance [OF assms] by (simp add: abstract_trace_hom [where h = ices_arriving])
  moreover have "subseq (for_id a (map snd (client_handovers ls))) (for_id a (ices_arriving (off_trace ls)))"
    using handed_in_order [OF off_run [OF assms(1)]] client_handovers_off [OF assms(1)]
    by (intro subseq_filter) simp
  ultimately show ?thesis by (metis subseq_rev_drop_many)
qed

text \<open>
  C11: the host's candidates keep their order through the whole server. In every run in which the candidates
  for an answerer id come from one stream \<open>k\<close> of the answerer service, those handed over to calls of the
  offerer's \<open>WaitForICECandidate\<close> are, in this order, among those the stream got: none is made up,
  duplicated or overtaken by a later one, whatever else the server does.
\<close>

theorem host_candidates_keep_their_order:
  assumes "exec sig_step ls Serve = Some S" and "only_stream host_stream k a ls"
  shows "subseq (for_id a (map snd (client_handovers ls))) (for_id a (received_on host_stream k ls))"
  using assms by (rule handed_over_in_order)

definition second_to_client :: "string \<Rightarrow> string \<Rightarrow> sig_label list" where
  "second_to_client a c =
     [AnsDoes (AnsSendIceBy 0 SISignal), AnsDoes (AnsSendIceBy 0 (SIRecv (Some (cand_msg a c)) None)),
      AnsDoes (AnsSendIceBy 0 SIForward), OffDoes IceRouted, OffDoes (WaitIceBy 0 (WISent None)),
      OffDoes (IceDelivered 0)]"

abbreviation to_client_run :: "sig_label list" where
  "to_client_run \<equiv> listen_run ''h'' ''jwt'' @ offer_phase ''h'' ''sdp'' ''a1'' ''o1'' @
     host_candidate_phase ''a1'' ''c1'' @ second_to_client ''a1'' ''c2''"

abbreviation packet_a1 :: "string \<Rightarrow> IcePacket" where
  "packet_a1 c \<equiv> \<lparr>ice_answererID = ''a1'', iceCandidate = c\<rparr>"

theorem host_candidates_keep_their_order_witness:
  "client_handovers to_client_run = [(0, packet_a1 ''c1''), (0, packet_a1 ''c2'')] \<and>
   subseq [packet_a1 ''c1'', packet_a1 ''c2''] (for_id ''a1'' (received_on host_stream 0 to_client_run))"
proof -
  obtain S where S: "exec sig_step to_client_run Serve = Some S"
    by (simp add: second_to_client_def phases sig_eval)
  have t: "client_handovers to_client_run = [(0, packet_a1 ''c1''), (0, packet_a1 ''c2'')]"
    by (simp add: client_handovers_def second_to_client_def phases sig_eval)
  have o: "only_stream host_stream 0 ''a1'' to_client_run"
    by (simp add: only_stream_def second_to_client_def phases)
  from host_candidates_keep_their_order [OF S o] t show ?thesis by simp
qed

end
