(* ===== verification/ClientCandidates.thy ===== *)
theory ClientCandidates
  imports CandidateOrder
begin

text \<open>
  The other direction: candidates of the client on their way to the host. The answerer service sorts them
  into one buffered channel for each answerer id, which the timer may forget while a call still reads
  from it; so two channels for one id can be in use at a time, and the order is that of each call.
\<close>

section \<open>The queue a call reads from\<close>

lemma iceToAnsCh_arrivals:
  assumes "ans_step l s = Some s'" "l \<noteq> AnsIceTaken"
  shows "chBuf (iceToAnsCh (ansBus s')) = chBuf (iceToAnsCh (ansBus s)) @ cands_arriving [l]"
proof (cases l)
  case (AnsSendIceBy g ev)
  with assms obtain pc b where "s' = s\<lparr>ansIceSends := (ansIceSends s)(g \<mapsto> pc), ansBus := b\<rparr>"
    and st: "ice_stream ev (ansIceSends s g)
         (\<lambda>pkt. map_option (\<lambda>c. (ansBus s)\<lparr>iceToOfferCh := c\<rparr>) (chan_put (iceToOfferCh (ansBus s)) pkt))
         (ansBus s) = Some (pc, b)"
    by (auto simp: SendIceCandidate_ans_def)
  moreover from st have "iceToAnsCh b = iceToAnsCh (ansBus s)"
    by (rule ice_stream_keeps) auto
  ultimately show ?thesis using AnsSendIceBy by simp
next
  case (WaitOfferBy g ev)
  with assms show ?thesis
    by (cases ev) (auto simp: WaitForOffer.simps case_prod_unfold Let_def
        split: option.splits wait_offer_pc.splits)
next
  case (SendAnswerBy g ev)
  with assms show ?thesis
    by (cases ev) (auto simp: SendAnswer.simps split: option.splits send_answer_pc.splits)
next
  case (AnsWaitIceBy g ev)
  with assms show ?thesis
    by (cases ev) (auto simp: WaitForICECandidate_ans.simps
        split: option.splits ans_wait_ice_pc.splits if_splits)
qed (use assms in \<open>auto simp: offerRouter_def offerRouter_send_def iceCandidateRouter_ans_send_def
    iceCandidateRouter_ans_close_def host_timer_def ice_timer_def case_prod_unfold Let_def
    chan_put_Some_iff chan_take_Some_iff
    split: option.splits offer_router.splits ans_ice_router.splits if_splits\<close>)

fun hand_for :: "ans_ice_router \<Rightarrow> nat \<Rightarrow> string list" where
  "hand_for (AISend k pkt) c = (if k = c then [iceCandidate pkt] else [])"
| "hand_for AIIdle c = []"

definition queue_of :: "nat \<Rightarrow> AnswererServer \<Rightarrow> string list" where
  "queue_of c s =
     (case iceChans s c of Some ch \<Rightarrow> chBuf ch | None \<Rightarrow> []) @ hand_for (ansIceRouterPc s) c"

definition bus_for :: "string \<Rightarrow> AnswererServer \<Rightarrow> string list" where
  "bus_for a s = map iceCandidate (for_id a (chBuf (iceToAnsCh (ansBus s))))"

text \<open>
  \<open>X\<close> are the candidates for the id \<open>a\<close> that have arrived and \<open>T\<close> those the call \<open>g\<close> has taken: what can
  still come to a reader of a channel for \<open>a\<close> is behind what it has taken, and in order.
\<close>

definition in_order :: "string \<Rightarrow> nat \<Rightarrow> string list \<Rightarrow> string list \<Rightarrow> AnswererServer \<Rightarrow> bool" where
  "in_order a g X T s \<longleftrightarrow>
     subseq (T @ bus_for a s) X \<and>
     (\<forall>c. cand_holds s c a \<longrightarrow> subseq (queue_of c s @ bus_for a s) X) \<and>
     (\<forall>c x. aw_holds (ansIceWaits s g) c x \<longrightarrow> x = a \<and> subseq (T @ queue_of c s @ bus_for a s) X) \<and>
     (ansIceWaits s g = None \<longrightarrow> T = [])"

lemma subseq_middle:
  assumes "subseq (xs @ ys @ zs) X" "subseq ys' ys"
  shows "subseq (xs @ ys' @ zs @ new) (X @ new)"
proof -
  have "subseq (xs @ ys' @ zs) (xs @ ys @ zs)" using assms(2) by (simp add: list_emb_append_mono)
  then have "subseq (xs @ ys' @ zs) X" using assms(1) by (rule subseq_order.trans)
  then have "subseq ((xs @ ys' @ zs) @ new) (X @ new)" by (rule list_emb_append_mono) simp
  then show ?thesis by simp
qed

lemma in_order_mono:
  assumes "in_order a g X T s"
    and "\<And>c. cand_holds s' c a \<Longrightarrow> cand_holds s c a"
    and "\<And>c x. aw_holds (ansIceWaits s' g) c x \<Longrightarrow> aw_holds (ansIceWaits s g) c x"
    and "\<And>c. subseq (queue_of c s') (queue_of c s)"
    and "bus_for a s' = bus_for a s @ new"
    and "ansIceWaits s' g = None \<Longrightarrow> ansIceWaits s g = None"
  shows "in_order a g (X @ new) T s'"
  unfolding in_order_def
proof (intro conjI allI impI)
  show "subseq (T @ bus_for a s') (X @ new)"
    using assms(1,5) subseq_middle [of T "[]" "bus_for a s" X "[]" new] by (simp add: in_order_def)
  show "subseq (queue_of c s' @ bus_for a s') (X @ new)" if "cand_holds s' c a" for c
    using assms(1,5) assms(2) [OF that] subseq_middle [of "[]" "queue_of c s" _ X _ new] assms(4)
    by (simp add: in_order_def)
  fix c x assume "aw_holds (ansIceWaits s' g) c x"
  from assms(1) assms(3) [OF this] have "x = a" "subseq (T @ queue_of c s @ bus_for a s) X"
    unfolding in_order_def by blast+
  with subseq_middle [OF this(2) assms(4)] assms(5)
  show "x = a" "subseq (T @ queue_of c s' @ bus_for a s') (X @ new)" by simp_all
next
  show "T = []" if "ansIceWaits s' g = None"
    using assms(1) assms(6) [OF that] by (simp add: in_order_def)
qed

text \<open>What the calls of \<open>WaitForICECandidate\<close> take: which call, and which candidate.\<close>

fun taken_candidates :: "ans_label \<Rightarrow> AnswererServer \<Rightarrow> (nat \<times> string) list" where
  "taken_candidates (AnsWaitIceBy g AWTake) s =
     (case ansIceWaits s g of
        Some (AWSelect ch req d) \<Rightarrow>
          (case Option.bind (iceChans s ch) chan_take of Some (ice, _) \<Rightarrow> [(g, ice)] | None \<Rightarrow> [])
      | _ \<Rightarrow> [])"
| "taken_candidates _ s = []"

abbreviation for_call :: "nat \<Rightarrow> (nat \<times> 'c) list \<Rightarrow> 'c list" where
  "for_call g xs \<equiv> map snd (filter (\<lambda>p. fst p = g) xs)"

lemma queue_of_new:
  assumes "cands_own.owned s"
  shows "queue_of (ansNext s) s = []"
proof -
  have "ice_wf s" and alloc: "cand_holds s c x \<Longrightarrow> c < ansNext s" for c x
    using assms unfolding cands_own.owned_def by blast+
  then have "iceChans s (ansNext s) = None"
    unfolding ice_wf_def by (metis less_irrefl not_None_eq)
  moreover have "hand_for (ansIceRouterPc s) (ansNext s) = []"
  proof (cases "ansIceRouterPc s")
    case (AISend k pkt)
    then have "cand_holds s k (ice_answererID pkt)" by (simp add: cand_holds_def)
    with alloc AISend show ?thesis by fastforce
  qed simp
  ultimately show ?thesis by (simp add: queue_of_def)
qed

lemma ice_chan_queue:
  assumes "cands_own.owned s"
  shows "queue_of c (snd (ice_chan x s)) = queue_of c s"
  using queue_of_new [OF assms]
  by (cases rule: ice_chanE [of s x]) (auto simp: queue_of_def make_chan_def)

lemma ice_chan_holds_queue:
  assumes "cands_own.owned s" "cand_holds (snd (ice_chan x s)) c a"
  shows "cand_holds s c a \<or> queue_of c s = []"
  using ice_chan_holds [OF assms(2)] queue_of_new [OF assms(1)]
  by (cases rule: ice_chanE [of s x]) (auto simp: less_Suc_eq)

lemma taken_only [simp]: "(\<And>g. l \<noteq> AnsWaitIceBy g AWTake) \<Longrightarrow> taken_candidates l s = []"
  by (cases "(l, s)" rule: taken_candidates.cases) auto

lemma bus_for_step:
  assumes "ans_step l s = Some s'" "l \<noteq> AnsIceTaken"
  shows "bus_for a s' = bus_for a s @ map iceCandidate (for_id a (cands_arriving [l]))"
  using iceToAnsCh_arrivals [OF assms] by (simp add: bus_for_def)

lemma in_order_opened:
  assumes ord: "in_order a g X T s" and own: "cands_own.owned s"
    and part: "candidate_part s' = candidate_part (snd (ice_chan x s))"
    and bus: "bus_for a s' = bus_for a s"
  shows "in_order a g X T s'"
  unfolding in_order_def
proof (intro conjI allI impI)
  have q: "queue_of c s' = queue_of c s" for c
    using ice_chan_queue [OF own, of c x] part by (simp add: queue_of_def candidate_part_def)
  have w: "ansIceWaits s' = ansIceWaits s" using part by (simp add: candidate_part_def)
  show "subseq (T @ bus_for a s') X" "ansIceWaits s' g = None \<Longrightarrow> T = []"
    using ord bus w by (simp_all add: in_order_def)
  show "subseq (queue_of c s' @ bus_for a s') X" if "cand_holds s' c a" for c
  proof -
    have "cand_holds (snd (ice_chan x s)) c a"
      using that part by (simp add: cand_holds_def candidate_part_def)
    from ice_chan_holds_queue [OF own this] show ?thesis
    proof
      assume "cand_holds s c a"
      with ord show ?thesis unfolding q bus in_order_def by blast
    next
      assume "queue_of c s = []"
      moreover have "subseq (T @ bus_for a s) X" using ord by (simp add: in_order_def)
      ultimately show ?thesis unfolding q bus
        by (metis append_Nil subseq_drop_many subseq_order.order_refl subseq_order.trans)
    qed
  qed
  fix c y assume "aw_holds (ansIceWaits s' g) c y"
  with ord show "y = a" "subseq (T @ queue_of c s' @ bus_for a s') X"
    unfolding q bus w in_order_def by blast+
qed

lemma in_order_taken:
  assumes ord: "in_order a g X T s" and own: "cands_own.owned s" and own': "cands_own.owned s'"
    and idle: "ansIceRouterPc s = AIIdle"
    and take: "chan_take (iceToAnsCh (ansBus s)) = Some (pkt, b)"
    and s': "s' = (snd (ice_chan (ice_answererID pkt) s))\<lparr>ansBus := (ansBus s)\<lparr>iceToAnsCh := b\<rparr>,
         ansIceRouterPc := AISend (fst (ice_chan (ice_answererID pkt) s)) pkt\<rparr>"
  shows "in_order a g X T s'"
proof -
  let ?k = "fst (ice_chan (ice_answererID pkt) s)" and ?t = "snd (ice_chan (ice_answererID pkt) s)"
  have t: "in_order a g X T ?t" by (rule in_order_opened [OF ord own]) (simp_all add: bus_for_def)
  have bus: "bus_for a s = (if ice_answererID pkt = a then [iceCandidate pkt] else []) @ bus_for a s'"
    using take s' by (auto simp: bus_for_def chan_take_Some_iff)
  have q: "queue_of c s' = queue_of c ?t @ (if c = ?k then [iceCandidate pkt] else [])" for c
    using idle s' by (simp add: queue_of_def)
  have k: "ice_answererID pkt = a" if "cand_holds s' ?k a"
  proof -
    have "cand_holds s' ?k (ice_answererID pkt)" using s' by (simp add: cand_holds_def)
    with own' that show ?thesis unfolding cands_own.owned_def by blast
  qed
  have le: "subseq (queue_of c s' @ bus_for a s') (queue_of c ?t @ bus_for a s)" if "cand_holds s' c a" for c
    using k that unfolding q bus by (cases "c = ?k") (auto simp: list_emb_append_mono subseq_drop_many)
  have held: "cand_holds ?t c a" if "cand_holds s' c a" for c
    using that k ice_chan_registered [of "ice_answererID pkt" s] unfolding s' by (auto simp: cand_holds_def)
  have b: "bus_for a ?t = bus_for a s" by (simp add: bus_for_def)
  show ?thesis
    unfolding in_order_def
  proof (intro conjI allI impI)
    have "subseq (bus_for a s') (bus_for a s)" unfolding bus by (rule subseq_drop_many) simp
    then show "subseq (T @ bus_for a s') X"
      using ord by (meson in_order_def list_emb_append_mono subseq_order.order_refl subseq_order.trans)
    show "subseq (queue_of c s' @ bus_for a s') X" if "cand_holds s' c a" for c
      using t held [OF that] le [OF that] subseq_order.trans unfolding in_order_def b by blast
    show "T = []" if "ansIceWaits s' g = None" using ord that s' by (simp add: in_order_def)
    fix c x assume w: "aw_holds (ansIceWaits s' g) c x"
    then have "aw_holds (ansIceWaits ?t g) c x" using s' by simp
    with t have x: "x = a" and sub: "subseq (T @ queue_of c ?t @ bus_for a s) X"
      unfolding in_order_def b by blast+
    have "cand_holds s' c a" using w x by (auto simp: cand_holds_def)
    from subseq_order.trans [OF list_emb_append_mono [OF subseq_order.order_refl le [OF this]] sub]
    show "x = a" "subseq (T @ queue_of c s' @ bus_for a s') X" using x by simp_all
  qed
qed

lemma in_order_own_take:
  assumes ord: "in_order a g X T s"
    and w: "ansIceWaits s g = Some (AWSelect ch req d)"
    and c: "iceChans s ch = Some q" "chBuf q = ice # vs"
    and s': "s' = s\<lparr>iceChans := (iceChans s)(ch \<mapsto> q\<lparr>chBuf := vs\<rparr>),
             ansIceWaits := (ansIceWaits s)(g \<mapsto> AWSend ch req d ice)\<rparr>"
  shows "in_order a g X (T @ [ice]) s'"
proof -
  have bus: "bus_for a s' = bus_for a s" using s' by (simp add: bus_for_def)
  have head: "queue_of ch s = ice # queue_of ch s'" using c s' by (simp add: queue_of_def)
  have q: "subseq (queue_of k s') (queue_of k s)" for k using c s' by (auto simp: queue_of_def)
  have "aw_holds (ansIceWaits s g) ch (WaitForICECandidateRequest_AnswererId req)" using w by simp
  with ord have a: "WaitForICECandidateRequest_AnswererId req = a"
    and "subseq (T @ queue_of ch s @ bus_for a s) X"
    unfolding in_order_def by blast+
  then have sub: "subseq ((T @ [ice]) @ queue_of ch s' @ bus_for a s') X" by (simp add: head bus)
  have held: "cand_holds s k a" if "cand_holds s' k a" for k
    using that w unfolding cand_holds_def s' by (auto split: if_splits) (metis aw_holds.simps(1))+
  show ?thesis
    unfolding in_order_def
  proof (intro conjI allI impI)
    from subseq_middle [OF sub, of "[]" "[]"] show "subseq ((T @ [ice]) @ bus_for a s') X" by simp
    show "subseq (queue_of k s' @ bus_for a s') X" if "cand_holds s' k a" for k
      using ord held [OF that] subseq_middle [OF _ q, of "[]" k "bus_for a s" X "[]"]
      unfolding in_order_def bus by simp
    show "T @ [ice] = []" if "ansIceWaits s' g = None" using that s' by simp
    fix k x assume "aw_holds (ansIceWaits s' g) k x"
    with a sub show "x = a" "subseq ((T @ [ice]) @ queue_of k s' @ bus_for a s') X"
      by (simp_all add: s')
  qed
qed

lemma in_order_called:
  assumes ord: "in_order a g X T s"
    and w: "ansIceWaits s h = None"
    and m: "AnsID2iceToAnsChan s (WaitForICECandidateRequest_AnswererId req) = Some ch"
    and s': "s' = s\<lparr>ansIceWaits := (ansIceWaits s)(h \<mapsto> AWSelect ch req d)\<rparr>"
    and a: "h = g \<Longrightarrow> WaitForICECandidateRequest_AnswererId req = a"
  shows "in_order a g X T s'"
proof -
  have eq: "queue_of k s' = queue_of k s" "bus_for a s' = bus_for a s" for k
    using s' by (simp_all add: queue_of_def bus_for_def)
  have held: "cand_holds s k a" if "cand_holds s' k a" for k
    using that m unfolding cand_holds_def s' by (auto split: if_splits)
  show ?thesis
    unfolding in_order_def
  proof (intro conjI allI impI)
    show "subseq (T @ bus_for a s') X" using ord unfolding in_order_def eq by blast
    show "subseq (queue_of k s' @ bus_for a s') X" if "cand_holds s' k a" for k
      using ord held [OF that] unfolding in_order_def eq by blast
    show "T = []" if "ansIceWaits s' g = None" using that ord s' by (simp add: in_order_def split: if_splits)
    fix k x assume "aw_holds (ansIceWaits s' g) k x"
    then consider "h = g" "k = ch" "x = a" | "aw_holds (ansIceWaits s g) k x"
      using s' a by (auto split: if_splits)
    then have "x = a \<and> subseq (T @ queue_of k s @ bus_for a s) X"
    proof cases
      case 1
      then have "T = []" "cand_holds s ch a" using ord w m a by (simp_all add: in_order_def cand_holds_def)
      with ord 1 show ?thesis unfolding in_order_def by simp
    next
      case 2
      with ord show ?thesis unfolding in_order_def by blast
    qed
    then show "x = a" "subseq (T @ queue_of k s' @ bus_for a s') X" unfolding eq by simp_all
  qed
qed

lemma in_order_step:
  assumes ord: "in_order a g X T s" and own: "cands_own.owned s" and step: "ans_step l s = Some s'"
    and a: "\<And>req. l = AnsWaitIceBy g (AWCall req) \<Longrightarrow> WaitForICECandidateRequest_AnswererId req = a"
  shows "in_order a g (X @ map iceCandidate (for_id a (cands_arriving [l])))
     (T @ for_call g (taken_candidates l s)) s'"
  using step
proof (cases rule: candidate_stepE)
  case (opened h off req)
  have "bus_for a s' = bus_for a s" using bus_for_step [OF step] opened(1) by simp
  from in_order_opened [OF ord own opened(3) this] opened(1) show ?thesis by simp
next
  case (taken pkt b)
  have "cands_own.owned s'" by (rule cands_own.step_keeps [OF own _ step]) simp
  from in_order_taken [OF ord own this taken(2-4)] taken(1) show ?thesis by simp
next
  case (routed ch pkt c)
  have "in_order a g (X @ []) T s'"
    by (rule in_order_mono [OF ord]) (use routed in \<open>auto simp: queue_of_def bus_for_def cand_holds_def\<close>)
  with routed(1) show ?thesis by simp
next
  case (refused h req)
  have "in_order a g (X @ []) T s'" if "h \<noteq> g \<or> T = []"
    using ord refused that
    by (auto simp: in_order_def queue_of_def bus_for_def cand_holds_def split: if_splits)
  moreover have "h \<noteq> g \<or> T = []" using ord refused(2) by (auto simp: in_order_def)
  ultimately show ?thesis using refused(1) by simp
next
  case (called h req ch)
  from in_order_called [OF ord called(2-4)] a called(1) show ?thesis by auto
next
  case (take h ch req d c ice vs)
  show ?thesis
  proof (cases "h = g")
    case True
    from in_order_own_take [OF ord take(2) [unfolded True] take(3,4) take(5) [unfolded True]] take True
    show ?thesis by (simp add: chan_take_Some_iff chan_take_def chan_recv_def)
  next
    case False
    have "in_order a g (X @ []) T s'"
    proof (rule in_order_mono [OF ord])
      show "cand_holds s k a" if "cand_holds s' k a" for k
        using that take(2) unfolding cand_holds_def take(5) by (auto split: if_splits) (metis aw_holds.simps(1))+
    qed (use take False in \<open>auto simp: queue_of_def bus_for_def\<close>)
    with take False show ?thesis by (simp add: chan_take_def chan_recv_def split: option.splits)
  qed
next
  case (resume h ch req d ice)
  have "in_order a g (X @ []) T s'"
  proof (rule in_order_mono [OF ord])
    show "cand_holds s k a" if "cand_holds s' k a" for k
      using that resume(2) unfolding cand_holds_def resume(3) by (auto split: if_splits) (metis aw_holds.simps(2))+
  qed (use resume in \<open>auto simp: queue_of_def bus_for_def split: if_splits\<close>)
  with resume(1) show ?thesis by simp
next
  case (leave h ev pc req res)
  have "ansIceWaits s' h = Some (AWUnregister req res)" using leave(3) by simp
  then have "ev \<noteq> AWTake" using step leave(1)
    by (auto simp: WaitForICECandidate_ans.simps split: option.splits ans_wait_ice_pc.splits)
  moreover have "in_order a g (X @ []) T s'"
    by (rule in_order_mono [OF ord])
      (use leave in \<open>auto simp: queue_of_def bus_for_def cand_holds_def split: if_splits\<close>)
  ultimately show ?thesis using leave(1) by (cases ev) simp_all
next
  case (unregister h req res)
  have "in_order a g (X @ []) T s'"
    by (rule in_order_mono [OF ord])
      (use unregister in \<open>auto simp: queue_of_def bus_for_def cand_holds_def split: if_splits\<close>)
  with unregister(1) show ?thesis by simp
next
  case (expire i x d)
  have "in_order a g (X @ []) T s'"
    by (rule in_order_mono [OF ord])
      (use expire in \<open>auto simp: queue_of_def bus_for_def cand_holds_def split: if_splits\<close>)
  with expire(1) show ?thesis by simp
next
  case other
  have "in_order a g (X @ map iceCandidate (for_id a (cands_arriving [l]))) T s'"
    by (rule in_order_mono [OF ord _ _ _ bus_for_step [OF step other(5)]])
      (use other in \<open>auto simp: candidate_part_def queue_of_def cand_holds_def\<close>)
  with other(4) show ?thesis by simp
qed

lemma in_order_run:
  "exec ans_step ls (NewAnswererServer new_bus) = Some s \<Longrightarrow>
     \<forall>req. AnsWaitIceBy g (AWCall req) \<in> set ls \<longrightarrow> WaitForICECandidateRequest_AnswererId req = a \<Longrightarrow>
     in_order a g (map iceCandidate (for_id a (cands_arriving ls)))
       (for_call g (abstract_trace ans_step taken_candidates ls (NewAnswererServer new_bus))) s"
proof (induction rule: exec_trace_induct)
  case start
  show ?case
    by (simp add: in_order_def NewAnswererServer_def bus_for_def cand_holds_def new_bus_def make_chan_def)
next
  case (step ls l t u)
  have a: "WaitForICECandidateRequest_AnswererId req = a" if "l = AnsWaitIceBy g (AWCall req)" for req
    using step.prems [rule_format, of req] that by simp
  have "in_order a g (map iceCandidate (for_id a (cands_arriving ls)))
      (for_call g (abstract_trace ans_step taken_candidates ls (NewAnswererServer new_bus))) t"
    using step.prems by (intro step.IH) simp
  from in_order_step [OF this cands_own.exec_owned [OF step.hyps(1)] step.hyps(2) a]
  show ?case by (simp add: abstract_trace_append [OF step.hyps(1)] step.hyps(2))
qed

section \<open>Through the whole server\<close>

fun taken_by_host :: "sig_label \<Rightarrow> signal_server \<Rightarrow> (nat \<times> string) list" where
  "taken_by_host (AnsDoes l) S = taken_candidates l (sigAns S)"
| "taken_by_host _ S = []"

definition host_takings :: "sig_label list \<Rightarrow> (nat \<times> string) list" where
  "host_takings ls = abstract_trace sig_step taken_by_host ls Serve"

lemma taken_candidates_none [simp]:
  "abstract_trace ans_step taken_candidates (map IceToAnsArrives pkts) s = []"
  by (induction pkts arbitrary: s) (auto split: option.splits)

lemma taken_by_host_proj:
  assumes "sig_step l S = Some S'"
  shows "abstract_trace ans_step taken_candidates (ans_proj l S) (sigAns S) = taken_by_host l S"
  using assms
  by (cases "(l, S)" rule: ans_proj.cases) (auto split: option.splits)

lemma host_takings_ans:
  assumes "exec sig_step ls Serve = Some S"
  shows "abstract_trace ans_step taken_candidates (ans_trace ls) (NewAnswererServer new_bus) = host_takings ls"
  using ans_view.trace_compose [OF assms same_bus_Serve, of taken_candidates]
    abstract_trace_cong [OF taken_by_host_proj assms]
  by (simp add: host_takings_def)

lemma ans_trace_ice_call:
  assumes "exec sig_step ls Serve = Some S" "AnsWaitIceBy g (AWCall req) \<in> set (ans_trace ls)"
  shows "AnsDoes (AnsWaitIceBy g (AWCall req)) \<in> set ls"
proof -
  from abstract_trace_mem [OF assms(2,1)] obtain pre l post T
    where "ls = pre @ l # post" "AnsWaitIceBy g (AWCall req) \<in> set (ans_proj l T)"
    by blast
  then show ?thesis by (cases "(l, T)" rule: ans_proj.cases) (auto split: option.splits)
qed

lemma takings_in_order:
  assumes "exec sig_step ls Serve = Some S" and "only_stream client_stream k a ls"
    and "\<forall>req. AnsDoes (AnsWaitIceBy g (AWCall req)) \<in> set ls \<longrightarrow>
      WaitForICECandidateRequest_AnswererId req = a"
  shows "subseq (for_call g (host_takings ls)) (map iceCandidate (for_id a (received_on client_stream k ls)))"
proof -
  have "for_id a (cands_arriving (ans_trace ls)) @ for_id a (forwarded (iceSends (sigOff S) k)) =
      for_id a (received_on client_stream k ls)"
    using client_candidates.stream_balance [OF assms(1,2)]
    by (simp add: abstract_trace_hom [where h = cands_arriving])
  then have "map iceCandidate (for_id a (received_on client_stream k ls)) =
      map iceCandidate (for_id a (cands_arriving (ans_trace ls))) @
      map iceCandidate (for_id a (forwarded (iceSends (sigOff S) k)))"
    by (metis map_append)
  moreover have "subseq (for_call g (host_takings ls)) (map iceCandidate (for_id a (cands_arriving (ans_trace ls))))"
  proof -
    have "in_order a g (map iceCandidate (for_id a (cands_arriving (ans_trace ls))))
        (for_call g (host_takings ls)) (sigAns S)"
      using in_order_run [OF ans_run [OF assms(1)], of g a] assms(3) ans_trace_ice_call [OF assms(1)]
        host_takings_ans [OF assms(1)] by auto
    then show ?thesis
      unfolding in_order_def by (metis subseq_order.order_refl subseq_rev_drop_many subseq_order.trans)
  qed
  ultimately show ?thesis by (simp add: subseq_rev_drop_many)
qed

section \<open>Properties\<close>

text \<open>
  C12: the client's candidates keep their order through the whole server. In every run in which the
  candidates for an answerer id come from one stream \<open>k\<close> of the offerer service, those that one call
  \<open>g\<close> of the answerer's \<open>WaitForICECandidate\<close> takes for this id are, in this order, among those the stream
  got, even when the timer has replaced the channel of the id in between.
\<close>

theorem client_candidates_keep_their_order:
  assumes "exec sig_step ls Serve = Some S" and "only_stream client_stream k a ls"
    and "\<forall>req. AnsDoes (AnsWaitIceBy g (AWCall req)) \<in> set ls \<longrightarrow>
      WaitForICECandidateRequest_AnswererId req = a"
  shows "subseq (for_call g (host_takings ls)) (map iceCandidate (for_id a (received_on client_stream k ls)))"
  using assms by (rule takings_in_order)

definition second_to_host :: "string \<Rightarrow> string \<Rightarrow> sig_label list" where
  "second_to_host a c =
     [OffDoes (SendIceBy 0 SISignal), OffDoes (SendIceBy 0 (SIRecv (Some (cand_msg a c)) None)),
      OffDoes (SendIceBy 0 SIForward), AnsDoes AnsIceTaken, AnsDoes AnsIceRouted,
      AnsDoes (AnsWaitIceBy 0 (AWSent None)), AnsDoes (AnsWaitIceBy 0 AWTake)]"

abbreviation to_host_run :: "sig_label list" where
  "to_host_run \<equiv> listen_run ''h'' ''jwt'' @ offer_phase ''h'' ''sdp'' ''a1'' ''o1'' @
     client_candidate_phase ''a1'' ''c1'' @ second_to_host ''a1'' ''c2''"

theorem client_candidates_keep_their_order_witness:
  "for_call 0 (host_takings to_host_run) = [''c1'', ''c2''] \<and>
   subseq [''c1'', ''c2''] (map iceCandidate (for_id ''a1'' (received_on client_stream 0 to_host_run)))"
proof -
  obtain S where S: "exec sig_step to_host_run Serve = Some S"
    by (simp add: second_to_host_def phases sig_eval)
  have t: "host_takings to_host_run = [(0, ''c1''), (0, ''c2'')]"
    by (simp add: host_takings_def second_to_host_def phases sig_eval)
  have o: "only_stream client_stream 0 ''a1'' to_host_run"
    by (simp add: only_stream_def second_to_host_def phases)
  have c: "\<forall>req. AnsDoes (AnsWaitIceBy 0 (AWCall req)) \<in> set to_host_run \<longrightarrow>
      WaitForICECandidateRequest_AnswererId req = ''a1''"
    by (simp add: second_to_host_def phases)
  from client_candidates_keep_their_order [OF S o c] t show ?thesis by simp
qed

end
