(* ===== verification/Async.thy ===== *)
theory Async
  imports GoChan
begin

text \<open>
  The futures of \<^verbatim>\<open>utils/async/future.go\<close>. A \<open>Future\<close> is a channel of capacity 1;
  \<open>Async\<close>, \<open>AsyncWithErr\<close> and \<open>Ret\<close> start a goroutine that sends one value on it. A
  \<open>Future\<close> is passed by value but holds a channel, so futures are references into a store,
  and the same future may occur twice in an argument list. The store keeps, per future, its
  channel and the value its goroutine has yet to send (none for a bare \<open>NewFuture\<close>).
  A function that waits returns \<open>None\<close> when it blocks for ever.
\<close>

section \<open>Futures\<close>

record 'a future =
  fch :: "'a chan"
  producer :: "'a option"

type_synonym 'a fstore = "nat \<rightharpoonup> 'a future"

record 'a val_with_err =
  Val :: 'a
  Err :: "go_error option"

definition NewFuture :: "'a future" where
  "NewFuture = \<lparr>fch = make_chan 1, producer = None\<rparr>"

text \<open>\<open>f\<close> is the value the Go closure computes.\<close>

definition Async :: "'a \<Rightarrow> 'a future" where
  "Async f = \<lparr>fch = make_chan 1, producer = Some f\<rparr>"

definition AsyncWithErr :: "'a \<times> go_error option \<Rightarrow> 'a val_with_err future" where
  "AsyncWithErr f =
     (case f of (v, err) \<Rightarrow>
        \<lparr>fch = make_chan 1, producer = Some \<lparr>Val = v, Err = err\<rparr>\<rparr>)"

definition Ret :: "'a \<Rightarrow> 'a future" where
  "Ret v = \<lparr>fch = make_chan 1, producer = Some v\<rparr>"

text \<open>\<open>None\<close>: the buffer is full, so the second \<open>Resolve\<close> of an unread future blocks.\<close>

definition Resolve :: "'a future \<Rightarrow> 'a \<Rightarrow> 'a future option" where
  "Resolve f v = map_option (\<lambda>c. f\<lparr>fch := c\<rparr>) (chan_put (fch f) v)"

text \<open>The producing goroutine runs: it sends its value and ends.\<close>

definition produce :: "'a future \<Rightarrow> 'a future" where
  "produce f =
     (case producer f of
        None \<Rightarrow> f
      | Some v \<Rightarrow>
          (case chan_put (fch f) v of
             None \<Rightarrow> f
           | Some c \<Rightarrow> \<lparr>fch = c, producer = None\<rparr>))"

definition store_produce :: "nat \<Rightarrow> 'a fstore \<Rightarrow> 'a fstore" where
  "store_produce r h = (case h r of None \<Rightarrow> h | Some f \<Rightarrow> h(r \<mapsto> produce f))"

section \<open>Waiting\<close>

text \<open>
  \<open><-f.ch\<close> where nothing but the future's own goroutine sends: if the buffer is empty the
  receiver sleeps until that goroutine has sent, and for ever if there is none.
\<close>

definition Await :: "'a fstore \<Rightarrow> nat \<Rightarrow> ('a \<times> 'a fstore) option" where
  "Await h r =
     (case h r of
        None \<Rightarrow> None
      | Some f \<Rightarrow>
          (let g = (if chBuf (fch f) = [] then produce f else f)
           in case chan_take (fch g) of
                None \<Rightarrow> None
              | Some (v, c) \<Rightarrow> Some (v, h(r \<mapsto> g\<lparr>fch := c\<rparr>))))"

text \<open>A receive in a \<open>select\<close> with a \<open>default\<close> branch: only what is there now.\<close>

definition poll :: "'a fstore \<Rightarrow> nat \<Rightarrow> ('a \<times> 'a fstore) option" where
  "poll h r =
     (case h r of
        None \<Rightarrow> None
      | Some f \<Rightarrow> map_option (\<lambda>(v, c). (v, h(r \<mapsto> f\<lparr>fch := c\<rparr>))) (chan_take (fch f)))"

fun AwaitAll :: "'a fstore \<Rightarrow> nat list \<Rightarrow> ('a list \<times> 'a fstore) option" where
  "AwaitAll h [] = Some ([], h)"
| "AwaitAll h (f # fs) =
     (case Await h f of
        None \<Rightarrow> None
      | Some (v, h') \<Rightarrow> map_option (\<lambda>(vs, h''). (v # vs, h'')) (AwaitAll h' fs))"

text \<open>
  \<open>AwaitAny\<close> polls for ever. The first argument is the schedule: before each poll, the
  futures whose goroutines complete in the meantime. \<open>None\<close>: still polling at its end.
\<close>

fun AwaitAny :: "nat list list \<Rightarrow> nat list \<Rightarrow> nat list \<Rightarrow> 'a fstore \<Rightarrow> ('a \<times> 'a fstore) option"
where
  "AwaitAny [] rest fs h = None"
| "AwaitAny (e # es) (f # rest) fs h =
     (let h' = fold store_produce e h
      in case poll h' f of
           Some r \<Rightarrow> Some r
         | None \<Rightarrow> AwaitAny es rest fs h')"
| "AwaitAny (e # es) [] fs h =
     (case fs of
        [] \<Rightarrow> None
      | f # rest \<Rightarrow>
          (let h' = fold store_produce e h
           in case poll h' f of
                Some r \<Rightarrow> Some r
              | None \<Rightarrow> AwaitAny es rest fs h'))"

text \<open>
  One pass of the inner loop of \<open>AwaitUnordered\<close>. Both operands of the send case
  \<open>ret <- <-f.ch\<close> are evaluated when the \<open>select\<close> is entered, so the receive from
  \<open>f.ch\<close> blocks whatever the \<open>default\<close> branch says; only the send on \<open>ret\<close> is optional.
\<close>

fun unordered_pass ::
  "nat list \<Rightarrow> 'a chan \<Rightarrow> nat \<Rightarrow> 'a fstore \<Rightarrow> ('a chan \<times> nat \<times> 'a fstore) option" where
  "unordered_pass [] ret cnt h = Some (ret, cnt, h)"
| "unordered_pass (f # fs) ret cnt h =
     (case Await h f of
        None \<Rightarrow> None
      | Some (v, h') \<Rightarrow>
          (case chan_put ret v of
             Some ret' \<Rightarrow> unordered_pass fs ret' (cnt + 1) h'
           | None \<Rightarrow> unordered_pass fs ret cnt h'))"

partial_function (option) unordered_loop ::
  "nat list \<Rightarrow> 'a chan \<Rightarrow> nat \<Rightarrow> 'a fstore \<Rightarrow> ('a chan \<times> 'a fstore) option" where
  "unordered_loop fs ret cnt h =
     (if cnt < length fs
      then (case unordered_pass fs ret cnt h of
              None \<Rightarrow> None
            | Some p \<Rightarrow> unordered_loop fs (fst p) (fst (snd p)) (snd (snd p)))
      else Some (ret, h))"

definition AwaitUnordered :: "'a fstore \<Rightarrow> nat list \<Rightarrow> ('a chan \<times> 'a fstore) option" where
  "AwaitUnordered h fs =
     (case unordered_loop fs (make_chan (length fs)) 0 h of
        None \<Rightarrow> None
      | Some (ret, h') \<Rightarrow> map_option (\<lambda>c. (c, h')) (chan_close ret))"

section \<open>Facts about waiting\<close>

definition fut_values :: "'a future \<Rightarrow> 'a set" where
  "fut_values f = set (chBuf (fch f)) \<union> set_option (producer f)"

definition ready :: "'a fstore \<Rightarrow> nat \<Rightarrow> bool" where
  "ready h r \<longleftrightarrow> (\<exists>f. h r = Some f \<and> chBuf (fch f) \<noteq> [])"

lemma fut_values_simps [simp]:
  "fut_values NewFuture = {}" "fut_values (Async v) = {v}" "fut_values (Ret v) = {v}"
  by (simp_all add: fut_values_def NewFuture_def Async_def Ret_def)

lemma fut_values_produce [simp]: "fut_values (produce f) = fut_values f"
  by (auto simp: fut_values_def produce_def chan_put_Some_iff split: option.splits)

lemma produce_keeps_buffer: "chBuf (fch f) \<noteq> [] \<Longrightarrow> chBuf (fch (produce f)) \<noteq> []"
  by (auto simp: produce_def chan_put_Some_iff split: option.splits)

lemma Await_frame: "Await h r = Some (v, h') \<Longrightarrow> q \<noteq> r \<Longrightarrow> h' q = h q"
  by (auto simp: Await_def Let_def split: option.splits prod.splits if_splits)

lemma Await_value: "Await h r = Some (v, h') \<Longrightarrow> \<exists>f. h r = Some f \<and> v \<in> fut_values f"
proof -
  assume "Await h r = Some (v, h')"
  then obtain f g c where f: "h r = Some f" and g: "g = f \<or> g = produce f"
    and c: "chan_take (fch g) = Some (v, c)"
    by (auto simp: Await_def Let_def split: option.splits prod.splits if_splits)
  from c have "v \<in> fut_values g" by (auto simp: chan_take_Some_iff fut_values_def)
  with g have "v \<in> fut_values f" by auto
  with f show ?thesis by blast
qed

lemma Await_Async: "h r = Some (Async v) \<Longrightarrow> Await h r = Some (v, h(r \<mapsto> NewFuture))"
  by (simp add: Await_def Async_def NewFuture_def produce_def chan_put_def chan_send_def
      chan_take_def chan_recv_def make_chan_def)

lemma Await_NewFuture: "h r = Some NewFuture \<Longrightarrow> Await h r = None"
  by (simp add: Await_def NewFuture_def produce_def chan_take_def chan_recv_def make_chan_def)

lemma AwaitAll_length: "AwaitAll h rs = Some (vs, h') \<Longrightarrow> length vs = length rs"
  by (induction rs arbitrary: h vs) (auto split: option.splits prod.splits)

lemma AwaitAll_spent: "q \<in> set rs \<Longrightarrow> h q = Some NewFuture \<Longrightarrow> AwaitAll h rs = None"
proof (induction rs arbitrary: h)
  case Nil
  then show ?case by simp
next
  case (Cons r rs)
  then show ?case
    by (cases "r = q") (auto simp: Await_NewFuture Await_frame split: option.splits)
qed

lemma AwaitAll_single_shot:
  assumes "\<forall>r\<in>set rs. h r = Some (Async (val r))"
  shows "AwaitAll h rs =
    (if distinct rs then Some (map val rs, \<lambda>r. if r \<in> set rs then Some NewFuture else h r)
     else None)"
  using assms
proof (induction rs arbitrary: h)
  case Nil
  then show ?case by (simp add: fun_eq_iff)
next
  case (Cons r rs)
  have aw: "Await h r = Some (val r, h(r \<mapsto> NewFuture))"
    using Cons.prems by (intro Await_Async) simp
  show ?case
  proof (cases "r \<in> set rs")
    case True
    then have "AwaitAll (h(r \<mapsto> NewFuture)) rs = None" by (simp add: AwaitAll_spent)
    with aw True show ?thesis by simp
  next
    case False
    with Cons.prems have "\<forall>q\<in>set rs. (h(r \<mapsto> NewFuture)) q = Some (Async (val q))" by auto
    from Cons.IH [OF this] show ?thesis
      unfolding AwaitAll.simps aw option.case prod.case using False
      by (auto simp only: ) (auto simp: fun_eq_iff)
  qed
qed

lemma unordered_pass_eq:
  "\<not> chClosed ret \<Longrightarrow> length (chBuf ret) + length fs \<le> chCap ret \<Longrightarrow>
     unordered_pass fs ret cnt h =
       map_option (\<lambda>(vs, h'). (ret\<lparr>chBuf := chBuf ret @ vs\<rparr>, cnt + length fs, h')) (AwaitAll h fs)"
proof (induction fs arbitrary: ret cnt h)
  case Nil
  then show ?case by simp
next
  case (Cons f fs)
  show ?case
  proof (cases "Await h f")
    case None
    then show ?thesis by simp
  next
    case (Some p)
    obtain v h' where p: "p = (v, h')" by force
    have put: "chan_put ret v = Some (ret\<lparr>chBuf := chBuf ret @ [v]\<rparr>)"
      using Cons.prems by (simp add: chan_put_Some_iff)
    show ?thesis
      using Cons.prems Some p put
      by (simp add: Cons.IH option.map_comp comp_def case_prod_beta)
  qed
qed

lemma unordered_loop_eq:
  "unordered_loop fs (make_chan (length fs)) 0 h =
     map_option (\<lambda>(vs, h'). ((make_chan (length fs))\<lparr>chBuf := vs\<rparr>, h')) (AwaitAll h fs)"
proof (cases fs)
  case Nil
  then show ?thesis by (simp add: unordered_loop.simps make_chan_def)
next
  case (Cons f gs)
  then have "0 < length fs" by simp
  then show ?thesis
    by (subst unordered_loop.simps)
      (cases "AwaitAll h fs", auto simp: unordered_pass_eq unordered_loop.simps)
qed

lemma poll_ready: "ready h f \<Longrightarrow> poll h f \<noteq> None"
  by (auto simp: ready_def poll_def dest: gochan.get_ready)

lemma poll_value: "poll h r = Some (v, h') \<Longrightarrow> \<exists>f. h r = Some f \<and> v \<in> fut_values f"
  by (auto simp: poll_def chan_take_Some_iff fut_values_def split: option.splits)

lemma ready_store_produce: "ready h f \<Longrightarrow> ready (store_produce r h) f"
  by (auto simp: ready_def store_produce_def produce_keeps_buffer split: option.splits)

lemma ready_fold_produce: "ready h f \<Longrightarrow> ready (fold store_produce e h) f"
  by (induction e arbitrary: h) (auto simp: ready_store_produce)

lemma fut_values_fold_produce:
  "fold store_produce e h r = Some g \<Longrightarrow> \<exists>f. h r = Some f \<and> fut_values f = fut_values g"
proof (induction e arbitrary: h)
  case Nil
  then show ?case by simp
next
  case (Cons q e)
  then have "\<exists>f. store_produce q h r = Some f \<and> fut_values f = fut_values g"
    using Cons.IH [of "store_produce q h"] by simp
  then show ?case
    by (auto simp: store_produce_def split: option.splits if_splits)
qed

section \<open>Properties\<close>

text \<open>
  C38: \<open>AwaitUnordered\<close> collects the results in the order of its arguments, exactly as
  \<open>AwaitAll\<close> does, and blocks exactly when \<open>AwaitAll\<close> blocks, although its comment promises
  "any order" and its \<open>select\<close> has a \<open>default\<close> branch. The channel it returns is closed and
  holds one value per future.
\<close>

theorem AwaitUnordered_is_AwaitAll:
  "AwaitUnordered h fs =
     map_option (\<lambda>(vs, h'). (\<lparr>chBuf = vs, chCap = length fs, chClosed = True\<rparr>, h')) (AwaitAll h fs)"
  unfolding AwaitUnordered_def unordered_loop_eq
  by (cases "AwaitAll h fs") (auto simp: chan_close_def make_chan_def)

text \<open>
  C39: for futures made by \<open>Async\<close> or \<open>Ret\<close>, \<open>AwaitAll\<close> returns their values in argument
  order when no future is passed twice, and blocks for ever when one is.
\<close>

theorem AwaitAll_single_shot_iff_distinct:
  assumes "\<forall>r\<in>set rs. h r = Some (Async (val r))"
  shows "map_option fst (AwaitAll h rs) = (if distinct rs then Some (map val rs) else None)"
  by (simp add: AwaitAll_single_shot [OF assms])

theorem AwaitAll_single_shot_iff_distinct_witness:
  "map_option fst (AwaitAll [0 \<mapsto> Async (7 :: nat), 1 \<mapsto> Async 8] [1, 0]) = Some [8, 7]"
  using AwaitAll_single_shot_iff_distinct
    [of "[1, 0]" "[0 \<mapsto> Async (7 :: nat), 1 \<mapsto> Async 8]" "\<lambda>r. if r = 0 then 7 else 8"]
  by simp

text \<open>
  \<open>AwaitAny\<close> returns within one pass over its arguments once one of them is ready,
  whatever the other goroutines do between the polls.
\<close>

theorem AwaitAny_returns:
  assumes "f \<in> set fs" and "ready h f" and "length fs \<le> length sched"
  shows "AwaitAny sched fs fs h \<noteq> None"
proof -
  have "f \<in> set rest \<Longrightarrow> ready h f \<Longrightarrow> length rest \<le> length sched \<Longrightarrow>
      AwaitAny sched rest fs h \<noteq> None" for rest
  proof (induction sched arbitrary: rest h)
    case Nil
    then show ?case by simp
  next
    case (Cons e es)
    then obtain g rest' where rest: "rest = g # rest'" by (cases rest) auto
    have rd: "ready (fold store_produce e h) f" using Cons.prems by (simp add: ready_fold_produce)
    show ?case
    proof (cases "g = f")
      case True
      with poll_ready [OF rd] rest show ?thesis by (auto simp: Let_def split: option.splits)
    next
      case False
      with Cons.prems rest have "AwaitAny es rest' fs (fold store_produce e h) \<noteq> None"
        by (intro Cons.IH rd) auto
      with rest show ?thesis by (auto simp: Let_def split: option.splits)
    qed
  qed
  with assms show ?thesis by simp
qed

theorem AwaitAny_returns_witness:
  "AwaitAny [[], []] [0, 1] [0, 1] [0 \<mapsto> (NewFuture :: nat future), 1 \<mapsto> produce (Async 5)] \<noteq> None"
  by (rule AwaitAny_returns [where f = 1])
    (simp_all add: ready_def produce_def Async_def chan_put_def chan_send_def make_chan_def)

text \<open>
  the value \<open>AwaitAny\<close> returns is one a future of its argument list holds or will
  produce; no value is invented or taken from elsewhere.
\<close>

theorem AwaitAny_value:
  assumes "AwaitAny sched fs fs h = Some (v, h')"
  shows "\<exists>r\<in>set fs. \<exists>f. h r = Some f \<and> v \<in> fut_values f"
proof -
  have val: "poll (fold store_produce e h) f = Some (v, h') \<Longrightarrow> \<exists>g. h f = Some g \<and> v \<in> fut_values g"
    for e f and h h' :: "'a fstore"
    using poll_value fut_values_fold_produce by metis
  have earlier: "\<exists>r\<in>R. \<exists>f. fold store_produce e h r = Some f \<and> v \<in> fut_values f \<Longrightarrow>
      \<exists>r\<in>R. \<exists>f. h r = Some f \<and> v \<in> fut_values f" for e R and h :: "'a fstore"
    using fut_values_fold_produce by metis
  have "AwaitAny sched rest fs h = Some (v, h') \<Longrightarrow> set rest \<subseteq> set fs \<Longrightarrow>
      \<exists>r\<in>set fs. \<exists>f. h r = Some f \<and> v \<in> fut_values f" for rest
  proof (induction sched rest fs h rule: AwaitAny.induct)
    case (2 e es f rest fs h)
    then show ?case
      using val [of e h f] earlier [of "set fs" e h]
      by (cases "poll (fold store_produce e h) f") (auto simp: Let_def)
  next
    case (3 e es fs h)
    then show ?case
    proof (cases fs)
      case (Cons f rest)
      show ?thesis
      proof (cases "poll (fold store_produce e h) f")
        case None
        with 3 Cons have "\<exists>r\<in>set fs. \<exists>f. fold store_produce e h r = Some f \<and> v \<in> fut_values f"
          by (auto simp: Let_def)
        then show ?thesis by (rule earlier)
      next
        case (Some p)
        with 3 Cons val [of e h f] show ?thesis by (auto simp: Let_def)
      qed
    qed simp
  qed simp
  with assms show ?thesis by blast
qed

theorem AwaitAny_value_witness:
  "\<exists>r\<in>set [0, 1 :: nat]. \<exists>f. [0 \<mapsto> NewFuture, 1 \<mapsto> Async (5 :: nat)] r = Some f \<and> 5 \<in> fut_values f"
  by (rule AwaitAny_value [where sched = "[[], [1]]" and fs = "[0, 1]"
        and h' = "[0 \<mapsto> NewFuture, 1 \<mapsto> NewFuture]"])
    (simp add: store_produce_def produce_def poll_def Async_def NewFuture_def chan_put_def
      chan_send_def chan_take_def chan_recv_def make_chan_def fun_eq_iff)

end
