(* ===== verification/Listener.thy ===== *)
theory Listener
  imports Async Auth GoChan
begin

text \<open>
  The listener on the connecting client's side, \<^verbatim>\<open>client/listener.go\<close>, in three groups: the
  registry of proxies (\<open>BindListener\<close>, \<open>startProxy\<close>, \<open>cleanupProxy\<close>) as a machine, the exchange of
  ICE candidates (\<open>exchangeICE\<close> and the goroutine it starts) as a machine, and the set-up of the
  peer connection (\<open>initAndSendOffer\<close>, \<open>waitForAnswer\<close>, \<open>initWebRTCAsOfferer\<close>,
  \<open>setupWebRTC\<close>, \<open>Connect\<close>) as functions of what the WebRTC library and the gRPC stubs
  return, which are arguments.
\<close>

section \<open>The registry of proxies\<close>

text \<open>
  The goroutine of one \<open>startProxy\<close>: from the construction of the proxy over its registration to the
  resolution of the returned future; and the callback it installs with \<open>OnClose\<close>.
\<close>

datatype start_pc =
    SPRegister
  | SPWait
  | SPCleanup "go_error option"
  | SPCloseChannel "go_error option"
  | SPResolve "go_error option"
  | SPDone "go_error option"

datatype callback_pc = CBCleanup | CBSignal | CBDone

record started =
  spID :: string
  spPc :: start_pc
  spEoL :: "go_error option chan"
  spCloses :: nat
  spChannelClosed :: bool

record listener =
  lsProxies :: "string \<rightharpoonup> nat"
  lsStarted :: "nat \<rightharpoonup> started"
  lsCallbacks :: "nat \<rightharpoonup> nat \<times> callback_pc"
  lsCtxDone :: bool

definition NewListener :: listener where
  "NewListener = \<lparr>lsProxies = Map.empty, lsStarted = Map.empty, lsCallbacks = Map.empty,
                  lsCtxDone = False\<rparr>"

text \<open>\<open>proxy.Close\<close> is counted; what it does is the theory \<open>Proxy\<close>.\<close>

definition cleanupProxy :: "string \<Rightarrow> listener \<Rightarrow> listener" where
  "cleanupProxy proxyID s =
     (case lsProxies s proxyID of
        None \<Rightarrow> s
      | Some k \<Rightarrow>
          s\<lparr>lsProxies := (lsProxies s)(proxyID := None),
            lsStarted := (lsStarted s)(k :=
              map_option (\<lambda>sp. sp\<lparr>spCloses := Suc (spCloses sp)\<rparr>) (lsStarted s k))\<rparr>)"

definition set_pc :: "nat \<Rightarrow> start_pc \<Rightarrow> listener \<Rightarrow> listener" where
  "set_pc k pc s =
     s\<lparr>lsStarted := (lsStarted s)(k := map_option (\<lambda>sp. sp\<lparr>spPc := pc\<rparr>) (lsStarted s k))\<rparr>"

datatype start_event =
    SPCall string
  | SPRegistered
  | SPReceived
  | SPCanceled
  | SPCleaned
  | SPChannelClosed
  | SPResolved

fun startProxy :: "nat \<Rightarrow> start_event \<Rightarrow> listener \<Rightarrow> listener option" where
  "startProxy k ev s =
     (case (ev, lsStarted s k) of
        (SPCall proxyID, None) \<Rightarrow>
          Some (s\<lparr>lsStarted := (lsStarted s)(k \<mapsto>
            \<lparr>spID = proxyID, spPc = SPRegister, spEoL = make_chan 1, spCloses = 0,
             spChannelClosed = False\<rparr>)\<rparr>)
      | (SPRegistered, Some sp) \<Rightarrow>
          if spPc sp = SPRegister
          then Some (set_pc k SPWait (s\<lparr>lsProxies := (lsProxies s)(spID sp \<mapsto> k)\<rparr>))
          else None
      | (SPReceived, Some sp) \<Rightarrow>
          if spPc sp = SPWait then
            (case chan_take (spEoL sp) of
               None \<Rightarrow> None
             | Some (err, c) \<Rightarrow>
                 Some (s\<lparr>lsStarted := (lsStarted s)(k \<mapsto> sp\<lparr>spEoL := c, spPc := SPCleanup err\<rparr>)\<rparr>))
          else None
      | (SPCanceled, Some sp) \<Rightarrow>
          if spPc sp = SPWait \<and> lsCtxDone s
          then Some (set_pc k (SPCleanup (Some CtxCanceled)) s) else None
      | (SPCleaned, Some sp) \<Rightarrow>
          (case spPc sp of
             SPCleanup err \<Rightarrow> Some (set_pc k (SPCloseChannel err) (cleanupProxy (spID sp) s))
           | _ \<Rightarrow> None)
      | (SPChannelClosed, Some sp) \<Rightarrow>
          (case spPc sp of
             SPCloseChannel err \<Rightarrow>
               Some (s\<lparr>lsStarted := (lsStarted s)(k \<mapsto>
                 sp\<lparr>spChannelClosed := True, spPc := SPResolve err\<rparr>)\<rparr>)
           | _ \<Rightarrow> None)
      | (SPResolved, Some sp) \<Rightarrow>
          (case spPc sp of
             SPResolve err \<Rightarrow> Some (set_pc k (SPDone err) s)
           | _ \<Rightarrow> None)
      | _ \<Rightarrow> None)"

datatype callback_event = CBFires nat | CBCleaned | CBSignalled

text \<open>The callback \<open>OnClose\<close> of the data channel; its signal is dropped when one is pending.\<close>

fun onClose :: "nat \<Rightarrow> callback_event \<Rightarrow> listener \<Rightarrow> listener option" where
  "onClose c ev s =
     (case (ev, lsCallbacks s c) of
        (CBFires k, None) \<Rightarrow>
          if lsStarted s k \<noteq> None
          then Some (s\<lparr>lsCallbacks := (lsCallbacks s)(c \<mapsto> (k, CBCleanup))\<rparr>) else None
      | (CBCleaned, Some (k, CBCleanup)) \<Rightarrow>
          (case lsStarted s k of
             None \<Rightarrow> None
           | Some sp \<Rightarrow>
               Some ((cleanupProxy (spID sp) s)\<lparr>lsCallbacks := (lsCallbacks s)(c \<mapsto> (k, CBSignal))\<rparr>))
      | (CBSignalled, Some (k, CBSignal)) \<Rightarrow>
          (case lsStarted s k of
             None \<Rightarrow> None
           | Some sp \<Rightarrow>
               Some (s\<lparr>lsStarted := (lsStarted s)(k \<mapsto>
                         (case chan_put (spEoL sp) None of
                            Some ch \<Rightarrow> sp\<lparr>spEoL := ch\<rparr> | None \<Rightarrow> sp)),
                       lsCallbacks := (lsCallbacks s)(c \<mapsto> (k, CBDone))\<rparr>))
      | _ \<Rightarrow> None)"

text \<open>\<open>LoopSignals\<close> is a loop of the proxy that sends its error on the end-of-life channel.\<close>

datatype ls_label =
    Start nat start_event
  | Callback nat callback_event
  | LoopSignals nat "go_error option"
  | CancelListener

fun ls_step :: "ls_label \<Rightarrow> listener \<Rightarrow> listener option" where
  "ls_step (Start k ev) s = startProxy k ev s"
| "ls_step (Callback c ev) s = onClose c ev s"
| "ls_step (LoopSignals k err) s =
     (case lsStarted s k of
        None \<Rightarrow> None
      | Some sp \<Rightarrow>
          map_option (\<lambda>ch. s\<lparr>lsStarted := (lsStarted s)(k \<mapsto> sp\<lparr>spEoL := ch\<rparr>)\<rparr>)
            (chan_put (spEoL sp) err))"
| "ls_step CancelListener s = Some (s\<lparr>lsCtxDone := True\<rparr>)"

declare startProxy.simps [simp del] onClose.simps [simp del]

text \<open>
  One round of the loop of \<open>BindListener\<close>: the context is done, or \<open>Accept\<close> has returned a connection
  (its peer's address), an error or both. \<open>conn.RemoteAddr()\<close> is called before the error is looked at,
  so an \<open>Accept\<close> that returns no connection panics. The other parameters are the id drawn and the
  result of \<open>CreateDataChannel\<close>; the value says how the loop goes on, and \<open>BindInstallsOnOpen\<close> is
  the callback that calls \<open>startProxy\<close> with this id.
\<close>

datatype bind_event = BindCtxDone | BindAccepted "string option" "go_error option"

datatype bind_round = BindPanics | BindReturns go_error | BindSkips | BindInstallsOnOpen string

definition BindListener_round :: "bind_event \<Rightarrow> string \<Rightarrow> go_error option \<Rightarrow> bind_round" where
  "BindListener_round ev uuid createErr =
     (case ev of
        BindCtxDone \<Rightarrow> BindReturns CtxCanceled
      | BindAccepted None err \<Rightarrow> BindPanics
      | BindAccepted (Some addr) err \<Rightarrow>
          if err \<noteq> None \<and> err \<noteq> Some EOF then BindReturns (the err)
          else if createErr \<noteq> None then BindSkips
          else BindInstallsOnOpen uuid)"

text \<open>
  The loop: the rounds the listener goes through, the ids of the callbacks it has installed, and how
  it ended, \<open>None\<close> while it is still running.
\<close>

fun BindListener ::
  "(bind_event \<times> string \<times> go_error option) list \<Rightarrow> string list \<times> bind_round option"
where
  "BindListener [] = ([], None)"
| "BindListener ((ev, uuid, createErr) # rounds) =
     (case BindListener_round ev uuid createErr of
        BindSkips \<Rightarrow> BindListener rounds
      | BindInstallsOnOpen i \<Rightarrow> (i # fst (BindListener rounds), snd (BindListener rounds))
      | r \<Rightarrow> ([], Some r))"

end
