(* ===== verification/ListenerSetup.thy ===== *)
theory ListenerSetup
  imports Listener
begin

text \<open>
  How the listener of \<^verbatim>\<open>client/listener.go\<close> connects: the exchange of ICE candidates as a
  machine of the function's main loop and the goroutine that receives, and the set-up functions
  around it. What the WebRTC library, JSON and the gRPC client return are arguments; the order in
  which the ready branches of a select are taken is the list of labels or events.
\<close>

section \<open>The exchange of candidates\<close>

datatype receiver_pc =
    RxOpen
  | RxTop
  | RxRecv
  | RxCheck string
  | RxPut string
  | RxReturned

datatype exchange_pc = MxOpen | MxSelect | MxReturned go_error

record ice_exchange =
  ixRemote :: "string chan"
  ixPending :: "string chan"
  ixRecv :: receiver_pc
  ixMain :: exchange_pc
  ixCtxDone :: bool
  ixSent :: "(string \<times> go_error option) list"
  ixAdded :: "(string \<times> go_error option) list"
  ixPanicked :: bool

definition start_exchange :: ice_exchange where
  "start_exchange =
     \<lparr>ixRemote = make_chan 1024, ixPending = make_chan 1024, ixRecv = RxOpen, ixMain = MxOpen,
      ixCtxDone = False, ixSent = [], ixAdded = [], ixPanicked = False\<rparr>"

datatype receiver_event =
    RxOpened "go_error option"
  | RxCtxDone
  | RxDefault
  | RxGot "go_error + string"
  | RxSend

text \<open>
  The receiving goroutine. Both of its selects only poll the context, so between the second poll
  and the send on \<open>remoteIceCh\<close> the context can be cancelled and the channel closed.
\<close>

fun receive_candidates :: "receiver_event \<Rightarrow> ice_exchange \<Rightarrow> ice_exchange option" where
  "receive_candidates ev s =
     (case (ev, ixRecv s) of
        (RxOpened err, RxOpen) \<Rightarrow>
          Some (s\<lparr>ixRecv := (if err = None then RxTop else RxReturned)\<rparr>)
      | (RxCtxDone, RxTop) \<Rightarrow> if ixCtxDone s then Some (s\<lparr>ixRecv := RxReturned\<rparr>) else None
      | (RxDefault, RxTop) \<Rightarrow> if ixCtxDone s then None else Some (s\<lparr>ixRecv := RxRecv\<rparr>)
      | (RxGot (Inl err), RxRecv) \<Rightarrow> Some (s\<lparr>ixRecv := RxReturned\<rparr>)
      | (RxGot (Inr ice), RxRecv) \<Rightarrow> Some (s\<lparr>ixRecv := RxCheck ice\<rparr>)
      | (RxCtxDone, RxCheck ice) \<Rightarrow> if ixCtxDone s then Some (s\<lparr>ixRecv := RxReturned\<rparr>) else None
      | (RxDefault, RxCheck ice) \<Rightarrow> if ixCtxDone s then None else Some (s\<lparr>ixRecv := RxPut ice\<rparr>)
      | (RxSend, RxPut ice) \<Rightarrow>
          (case chan_send (ixRemote s) ice of
             Sent c \<Rightarrow> Some (s\<lparr>ixRemote := c, ixRecv := RxTop\<rparr>)
           | SendBlocks \<Rightarrow> None
           | SendPanics \<Rightarrow> Some (s\<lparr>ixPanicked := True\<rparr>))
      | _ \<Rightarrow> None)"

datatype exchange_event =
    MxOpened "go_error option"
  | MxCtxDone
  | MxSend "go_error option"
  | MxAdd "go_error option"

text \<open>The main loop: an error of \<open>Send\<close> is logged only, an error of \<open>AddICECandidate\<close> ends it.\<close>

fun exchangeICE :: "exchange_event \<Rightarrow> ice_exchange \<Rightarrow> ice_exchange option" where
  "exchangeICE ev s =
     (case (ev, ixMain s) of
        (MxOpened None, MxOpen) \<Rightarrow> Some (s\<lparr>ixMain := MxSelect\<rparr>)
      | (MxOpened (Some err), MxOpen) \<Rightarrow> Some (s\<lparr>ixMain := MxReturned err\<rparr>)
      | (MxCtxDone, MxSelect) \<Rightarrow>
          if ixCtxDone s
          then Some (s\<lparr>ixRemote := (ixRemote s)\<lparr>chClosed := True\<rparr>, ixMain := MxReturned CtxCanceled\<rparr>)
          else None
      | (MxSend err, MxSelect) \<Rightarrow>
          map_option (\<lambda>(ice, c). s\<lparr>ixPending := c, ixSent := ixSent s @ [(ice, err)]\<rparr>)
            (chan_take (ixPending s))
      | (MxAdd err, MxSelect) \<Rightarrow>
          map_option (\<lambda>(ice, c).
              s\<lparr>ixRemote := c, ixAdded := ixAdded s @ [(ice, err)],
                ixMain := (case err of None \<Rightarrow> MxSelect | Some e \<Rightarrow> MxReturned e)\<rparr>)
            (chan_take (ixRemote s))
      | _ \<Rightarrow> None)"

text \<open>\<open>Gathered\<close> is the callback \<open>OnICECandidate\<close> of \<open>initWebRTCAsOfferer\<close>.\<close>

datatype ix_label =
    Receiver receiver_event
  | Exchange exchange_event
  | Gathered string
  | CancelSetup

definition ix_step :: "ix_label \<Rightarrow> ice_exchange \<Rightarrow> ice_exchange option" where
  "ix_step l s =
     (if ixPanicked s then None
      else case l of
        Receiver ev \<Rightarrow> receive_candidates ev s
      | Exchange ev \<Rightarrow> exchangeICE ev s
      | Gathered ice \<Rightarrow> map_option (\<lambda>c. s\<lparr>ixPending := c\<rparr>) (chan_put (ixPending s) ice)
      | CancelSetup \<Rightarrow> Some (s\<lparr>ixCtxDone := True\<rparr>))"

declare receive_candidates.simps [simp del] exchangeICE.simps [simp del]

section \<open>Setting the connection up\<close>

text \<open>\<open>err != nil \<and> err != io.EOF\<close>, the test the client code uses throughout.\<close>

definition failed :: "go_error option \<Rightarrow> bool" where
  "failed err \<longleftrightarrow> err \<noteq> None \<and> err \<noteq> Some EOF"

text \<open>
  With \<open>io.EOF\<close> the response of \<open>SendOffer\<close> may be \<open>nil\<close> although the test lets it pass; then
  \<open>res.AnswererId\<close> panics.
\<close>

definition initAndSendOffer ::
  "'sdp \<times> go_error option \<Rightarrow> ('sdp \<Rightarrow> go_error option) \<Rightarrow> ('sdp \<Rightarrow> go_error + string) \<Rightarrow>
     (SendOfferRequest \<Rightarrow> OfferResponse option \<times> go_error option) \<Rightarrow> string \<Rightarrow> string \<Rightarrow>
     string handler_result"
where
  "initAndSendOffer createOffer SetLocalDescription Marshal SendOffer authToken hostID =
     (case createOffer of
        (sdp, err) \<Rightarrow>
          if failed err then Returns (Inl (the err))
          else case SetLocalDescription sdp of
            Some err \<Rightarrow> Returns (Inl err)
          | None \<Rightarrow>
              (case Marshal sdp of
                 Inl err \<Rightarrow> Returns (Inl err)
               | Inr payload \<Rightarrow>
                   (case SendOffer \<lparr>SendOfferRequest_Token = Some \<lparr>AuthToken_Token = authToken\<rparr>,
                       SendOfferRequest_HostId = hostID, SendOfferRequest_Offer = payload\<rparr> of
                      (res, err) \<Rightarrow>
                        if failed err then Returns (Inl (the err))
                        else case res of
                          None \<Rightarrow> Panics
                        | Some r \<Rightarrow> Returns (Inr (OfferResponse_AnswererId r)))))"

definition waitForAnswer ::
  "(WaitForAnswerRequest \<Rightarrow> go_error + AnswerResponse) \<Rightarrow> (string \<Rightarrow> go_error option) \<Rightarrow>
     string \<Rightarrow> string \<Rightarrow> go_error option"
where
  "waitForAnswer WaitForAnswer SetRemoteDescription authToken answererID =
     (case WaitForAnswer \<lparr>WaitForAnswerRequest_Token = Some \<lparr>AuthToken_Token = authToken\<rparr>,
         WaitForAnswerRequest_AnswererId = answererID\<rparr> of
        Inl err \<Rightarrow> Some err
      | Inr ret \<Rightarrow> SetRemoteDescription (AnswerResponse_Answer ret))"

datatype setup_event =
    SetupCtxDone
  | SetupConnected
  | SetupFailed
  | SetupIceDone "go_error option"

text \<open>
  The final loop of \<open>initWebRTCAsOfferer\<close>: the events in the order the select takes them.
  \<open>None\<close> says that it has not returned; the future of \<open>exchangeICE\<close> resolves at most once, so a
  second \<open>SetupIceDone\<close> never becomes ready.
\<close>

fun setup_loop :: "bool \<Rightarrow> setup_event list \<Rightarrow> go_error option option" where
  "setup_loop pending [] = None"
| "setup_loop pending (SetupCtxDone # evs) = Some (Some CtxCanceled)"
| "setup_loop pending (SetupConnected # evs) = Some None"
| "setup_loop pending (SetupFailed # evs) = Some (Some (ErrNew ''connection failed''))"
| "setup_loop pending (SetupIceDone (Some err) # evs) = (if pending then Some (Some err) else None)"
| "setup_loop pending (SetupIceDone None # evs) = (if pending then setup_loop False evs else None)"

datatype setup_outcome = SetupPanics | SetupWaits | SetupReturns "go_error option"

definition initWebRTCAsOfferer ::
  "unit option \<times> go_error option \<Rightarrow> string handler_result \<Rightarrow> (string \<Rightarrow> go_error option) \<Rightarrow>
     setup_event list \<Rightarrow> setup_outcome"
where
  "initWebRTCAsOfferer newPeerConn offer answer evs =
     (if failed (snd newPeerConn) then SetupReturns (snd newPeerConn)
      else if fst newPeerConn = None then SetupPanics
      else case offer of
        Panics \<Rightarrow> SetupPanics
      | Returns (Inl err) \<Rightarrow> SetupReturns (Some err)
      | Returns (Inr answererID) \<Rightarrow>
          (case answer answererID of
             Some errAns \<Rightarrow> SetupReturns (Some errAns)
           | None \<Rightarrow>
               (case setup_loop True evs of None \<Rightarrow> SetupWaits | Some err \<Rightarrow> SetupReturns err)))"

text \<open>
  \<open>setupWebRTC\<close> reads the results of its only method from the channel of \<open>AwaitUnordered\<close> until
  one is \<open>nil\<close> or the channel is closed.
\<close>

fun drain_results :: "go_error option list \<Rightarrow> go_error option" where
  "drain_results [] = Some (ErrNew ''failed to setup webrtc'')"
| "drain_results (None # rs) = None"
| "drain_results (Some err # rs) = drain_results rs"

definition setupWebRTC_off :: "go_error option \<Rightarrow> go_error option option" where
  "setupWebRTC_off err =
     map_option (\<lambda>(ch, fs). drain_results (chBuf ch)) (AwaitUnordered [0 \<mapsto> Async err] [0])"

text \<open>
  \<open>Connect\<close>: the value to be sent is computed before the select looks at the context, so a
  cancelled context is noticed only after the set-up; then either branch may be taken.
\<close>

definition Connect_results :: "setup_outcome \<Rightarrow> bool \<Rightarrow> go_error option list" where
  "Connect_results setup ctxDone =
     (case setup of
        SetupReturns err \<Rightarrow>
          (case setupWebRTC_off err of
             None \<Rightarrow> []
           | Some res \<Rightarrow> res # (if ctxDone then [Some CtxCanceled] else []))
      | _ \<Rightarrow> [])"

text \<open>\<open>Bind\<close> opens the port and starts the loop of \<open>BindListener\<close>, whose result nobody reads.\<close>

definition Bind :: "go_error option \<Rightarrow> go_error option" where
  "Bind listenErr = (if failed listenErr then listenErr else None)"

end
