(* ===== verification/ListenerSetupProps.thy ===== *)
theory ListenerSetupProps
  imports ListenerSetup
begin

text \<open>
  Properties of the listener's connection set-up: candidates are passed on in order in both
  directions; the receiving goroutine can panic, but only after the context was cancelled; the
  set-up succeeds exactly when the connection is reported first, and \<open>Connect\<close> tells so.
\<close>

section \<open>The exchange of candidates\<close>

fun in_hand :: "receiver_pc \<Rightarrow> string list" where
  "in_hand (RxCheck ice) = [ice]"
| "in_hand (RxPut ice) = [ice]"
| "in_hand _ = []"

lemma receive_candidates_cases:
  assumes "receive_candidates ev s = Some s'"
  obtains (move) pc where "s' = s\<lparr>ixRecv := pc\<rparr>" "in_hand pc = in_hand (ixRecv s)"
      "ixRecv s \<noteq> RxReturned" "\<And>ice. ev \<noteq> RxGot (Inr ice)"
  | (drop) ice where "s' = s\<lparr>ixRecv := RxReturned\<rparr>" "ixRecv s = RxCheck ice"
      "\<And>ice. ev \<noteq> RxGot (Inr ice)"
  | (got) ice where "ev = RxGot (Inr ice)" "ixRecv s = RxRecv" "s' = s\<lparr>ixRecv := RxCheck ice\<rparr>"
  | (put) ice c where "ixRecv s = RxPut ice" "chan_put (ixRemote s) ice = Some c"
      "s' = s\<lparr>ixRemote := c, ixRecv := RxTop\<rparr>" "\<And>ice. ev \<noteq> RxGot (Inr ice)"
  | (panic) ice where "ixRecv s = RxPut ice" "chClosed (ixRemote s)"
      "s' = s\<lparr>ixPanicked := True\<rparr>" "\<And>ice. ev \<noteq> RxGot (Inr ice)"
proof (cases ev)
  case (RxOpened err)
  with assms show thesis
    by (intro move [of "if err = None then RxTop else RxReturned"])
      (auto simp: receive_candidates.simps split: receiver_pc.splits)
next
  case RxCtxDone
  show thesis
  proof (cases "ixRecv s")
    case (RxCheck ice)
    with assms RxCtxDone show thesis
      by (intro drop) (auto simp: receive_candidates.simps split: if_splits)
  qed (use assms RxCtxDone in \<open>auto simp: receive_candidates.simps split: if_splits intro!: move\<close>)
next
  case RxDefault
  with assms show thesis
    by (cases "ixRecv s") (auto simp: receive_candidates.simps split: if_splits intro!: move)
next
  case (RxGot r)
  with assms show thesis
    by (cases r) (auto simp: receive_candidates.simps split: receiver_pc.splits intro: move got)
next
  case RxSend
  with assms show thesis
    by (auto simp: receive_candidates.simps chan_put_def chan_send_def
        split: receiver_pc.splits if_splits intro: put panic)
qed

lemma exchangeICE_cases:
  assumes "exchangeICE ev s = Some s'"
  obtains (move) pc where "s' = s\<lparr>ixMain := pc\<rparr>" "ixMain s = MxOpen"
  | (cancel) "ixMain s = MxSelect" "ixCtxDone s"
      "s' = s\<lparr>ixRemote := (ixRemote s)\<lparr>chClosed := True\<rparr>, ixMain := MxReturned CtxCanceled\<rparr>"
  | (send) err ice c where "ixMain s = MxSelect" "chan_take (ixPending s) = Some (ice, c)"
      "s' = s\<lparr>ixPending := c, ixSent := ixSent s @ [(ice, err)]\<rparr>"
  | (add) err ice c pc where "ixMain s = MxSelect" "chan_take (ixRemote s) = Some (ice, c)"
      "s' = s\<lparr>ixRemote := c, ixAdded := ixAdded s @ [(ice, err)], ixMain := pc\<rparr>"
proof (cases ev)
  case (MxOpened err)
  with assms show thesis
    by (cases err) (auto simp: exchangeICE.simps split: exchange_pc.splits intro: move)
next
  case MxCtxDone
  with assms show thesis
    by (auto simp: exchangeICE.simps split: exchange_pc.splits if_splits intro: cancel)
next
  case (MxSend err)
  with assms show thesis
    by (auto simp: exchangeICE.simps split: exchange_pc.splits intro: send)
next
  case (MxAdd err)
  with assms show thesis
    by (auto simp: exchangeICE.simps split: exchange_pc.splits intro: add)
qed

lemma ix_stepE:
  assumes "ix_step l s = Some s'"
  obtains (receiver) ev where "l = Receiver ev" "receive_candidates ev s = Some s'"
  | (exchange) ev where "l = Exchange ev" "exchangeICE ev s = Some s'"
  | (gathered) ice c where "l = Gathered ice" "chan_put (ixPending s) ice = Some c"
      "s' = s\<lparr>ixPending := c\<rparr>"
  | (cancelled) "l = CancelSetup" "s' = s\<lparr>ixCtxDone := True\<rparr>"
  using assms by (cases l) (auto simp: ix_step_def split: if_splits intro: that)

fun gathered :: "ix_label list \<Rightarrow> string list" where
  "gathered [] = []"
| "gathered (Gathered ice # ls) = ice # gathered ls"
| "gathered (_ # ls) = gathered ls"

fun received :: "ix_label list \<Rightarrow> string list" where
  "received [] = []"
| "received (Receiver (RxGot (Inr ice)) # ls) = ice # received ls"
| "received (_ # ls) = received ls"

lemma gathered_append [simp]: "gathered (xs @ ys) = gathered xs @ gathered ys"
  by (induction xs rule: gathered.induct) auto

lemma received_append [simp]: "received (xs @ ys) = received xs @ received ys"
  by (induction xs rule: received.induct) auto

text \<open>
  Everything received is added, buffered or in the receiver's hand; only a receiver that returned
  may have dropped its last one.
\<close>

definition remote_order :: "string list \<Rightarrow> ice_exchange \<Rightarrow> bool" where
  "remote_order rs s \<longleftrightarrow>
     (\<exists>dropped. rs = map fst (ixAdded s) @ chBuf (ixRemote s) @ in_hand (ixRecv s) @ dropped \<and>
        (dropped = [] \<or> ixRecv s = RxReturned \<and> length dropped = 1))"

definition local_order :: "string list \<Rightarrow> ice_exchange \<Rightarrow> bool" where
  "local_order gs s \<longleftrightarrow> gs = map fst (ixSent s) @ chBuf (ixPending s)"

lemma local_order_step:
  assumes L: "local_order gs s" and step: "ix_step l s = Some s'"
  shows "local_order (gs @ gathered [l]) s'"
  using step
proof (cases rule: ix_stepE)
  case (receiver ev)
  from receiver(2) L receiver(1) show ?thesis
    by (cases rule: receive_candidates_cases) (auto simp: local_order_def)
next
  case (exchange ev)
  from exchange(2) L exchange(1) show ?thesis
    by (cases rule: exchangeICE_cases) (auto simp: local_order_def dest: gochan.get_contents)
next
  case (gathered ice c)
  with L gochan.put_log [OF _ gathered(2)] show ?thesis by (simp add: local_order_def)
next
  case cancelled
  with L show ?thesis by (auto simp: local_order_def)
qed

lemma remote_order_same:
  "remote_order rs s \<Longrightarrow> ixAdded s' = ixAdded s \<Longrightarrow> chBuf (ixRemote s') = chBuf (ixRemote s) \<Longrightarrow>
     ixRecv s' = ixRecv s \<Longrightarrow> remote_order rs s'"
  by (simp add: remote_order_def)

lemma remote_order_step:
  assumes R: "remote_order rs s" and step: "ix_step l s = Some s'"
  shows "remote_order (rs @ received [l]) s'"
  using step
proof (cases rule: ix_stepE)
  case (receiver ev)
  from receiver(2) show ?thesis
  proof (cases rule: receive_candidates_cases)
    case (move pc)
    with R receiver(1) show ?thesis
      by (cases ev rule: receiver_event.exhaust; cases "(l # [])" rule: received.cases)
        (auto simp: remote_order_def)
  next
    case (drop ice)
    with R receiver(1) show ?thesis
      by (cases "(l # [])" rule: received.cases) (auto simp: remote_order_def)
  next
    case (got ice)
    with R receiver(1) show ?thesis by (auto simp: remote_order_def)
  next
    case (put ice c)
    with R receiver(1) show ?thesis
      by (cases "(l # [])" rule: received.cases) (auto simp: remote_order_def dest: gochan.put_contents)
  next
    case (panic ice)
    with R receiver(1) show ?thesis
      by (cases "(l # [])" rule: received.cases) (auto simp: remote_order_def)
  qed
next
  case (exchange ev)
  from exchange(2) R exchange(1) show ?thesis
    by (cases rule: exchangeICE_cases) (auto simp: remote_order_def dest: gochan.get_contents)
next
  case (gathered ice c)
  with R show ?thesis by (simp add: remote_order_def)
next
  case cancelled
  with R show ?thesis by (simp add: remote_order_def)
qed

lemma local_order_run: "exec ix_step ls start_exchange = Some s \<Longrightarrow> local_order (gathered ls) s"
proof (induction rule: exec_trace_induct)
  case start
  show ?case by (simp add: local_order_def start_exchange_def)
next
  case (step ls l t u)
  from local_order_step [OF step.IH step.hyps(2)] show ?case by simp
qed

lemma remote_order_run: "exec ix_step ls start_exchange = Some s \<Longrightarrow> remote_order (received ls) s"
proof (induction rule: exec_trace_induct)
  case start
  show ?case by (simp add: remote_order_def start_exchange_def)
next
  case (step ls l t u)
  from remote_order_step [OF step.IH step.hyps(2)] show ?case by simp
qed

text \<open>
  C32: candidates keep their order in both directions. In every run of the exchange, the candidates
  the local peer connection gathered are those sent to the server, in this order, followed by those
  still pending; and the candidates added to the peer connection, followed by those buffered, are
  those received from the server in this order, with at most one of them in the receiver's hand or
  dropped when it stopped.
\<close>

theorem exchange_keeps_the_order:
  assumes "exec ix_step ls start_exchange = Some s"
  shows "gathered ls = map fst (ixSent s) @ chBuf (ixPending s) \<and>
     (\<exists>rest. received ls = map fst (ixAdded s) @ chBuf (ixRemote s) @ rest \<and> length rest \<le> 1)"
proof -
  have L: "local_order (gathered ls) s" by (rule local_order_run [OF assms])
  have "remote_order (received ls) s" by (rule remote_order_run [OF assms])
  then obtain dropped where d: "received ls = map fst (ixAdded s) @ chBuf (ixRemote s) @ in_hand (ixRecv s) @ dropped"
      "dropped = [] \<or> ixRecv s = RxReturned \<and> length dropped = 1"
    by (auto simp: remote_order_def)
  then have "length (in_hand (ixRecv s) @ dropped) \<le> 1"
    by (cases "ixRecv s") auto
  with d(1) L show ?thesis by (auto simp: local_order_def)
qed

lemmas ix_eval =
  start_exchange_def ix_step_def receive_candidates.simps exchangeICE.simps
  chan_put_def chan_send_def chan_take_def chan_recv_def make_chan_def

definition exchange_run :: "ix_label list" where
  "exchange_run =
     [Exchange (MxOpened None), Gathered ''l1'', Exchange (MxSend None), Receiver (RxOpened None),
      Receiver RxDefault, Receiver (RxGot (Inr ''r1'')), Receiver RxDefault, Receiver RxSend,
      Exchange (MxAdd None)]"

theorem exchange_keeps_the_order_witness:
  "\<exists>s. exec ix_step exchange_run start_exchange = Some s \<and> map fst (ixSent s) = [''l1''] \<and>
     (\<exists>rest. [''r1''] = map fst (ixAdded s) @ chBuf (ixRemote s) @ rest)"
proof -
  obtain s where s: "exec ix_step exchange_run start_exchange = Some s"
    and m: "map fst (ixSent s) = [''l1'']"
    by (simp add: exchange_run_def ix_eval)
  have "received exchange_run = [''r1'']" by (simp add: exchange_run_def)
  with exchange_keeps_the_order [OF s] s m show ?thesis by auto
qed

definition closed_after_cancel :: "ice_exchange \<Rightarrow> bool" where
  "closed_after_cancel s \<longleftrightarrow>
     (chClosed (ixRemote s) \<longrightarrow> ixCtxDone s) \<and> (ixPanicked s \<longrightarrow> ixCtxDone s)"

interpretation ix_closed: machine_invariant ix_step "\<lambda>_. True" closed_after_cancel start_exchange
proof unfold_locales
  show "closed_after_cancel start_exchange" by (simp add: closed_after_cancel_def start_exchange_def)
next
  fix s l s' assume inv: "closed_after_cancel s" and step: "ix_step l s = Some s'"
  from step show "closed_after_cancel s'"
  proof (cases rule: ix_stepE)
    case (receiver ev)
    from receiver(2) inv show ?thesis
      by (cases rule: receive_candidates_cases) (auto simp: closed_after_cancel_def chan_put_Some_iff)
  next
    case (exchange ev)
    from exchange(2) inv show ?thesis
      by (cases rule: exchangeICE_cases) (auto simp: closed_after_cancel_def chan_take_Some_iff)
  qed (use inv in \<open>auto simp: closed_after_cancel_def\<close>)
qed

text \<open>
  C33: the receiver can panic, but only after the set-up was cancelled. There is a run in which the
  context is cancelled and the main loop closes \<open>remoteIceCh\<close> after the receiver has polled the
  context for the last time and before it sends, and the send on the closed channel panics; and in
  every run that panics, the context was cancelled before.
\<close>

theorem exchange_panics_only_on_cancel:
  "(\<exists>ls s. exec ix_step ls start_exchange = Some s \<and> ixPanicked s) \<and>
   (\<forall>ls s. exec ix_step ls start_exchange = Some s \<longrightarrow> ixPanicked s \<longrightarrow> ixCtxDone s)"
proof
  let ?ls = "[Exchange (MxOpened None), Receiver (RxOpened None), Receiver RxDefault,
      Receiver (RxGot (Inr ''r1'')), Receiver RxDefault, CancelSetup, Exchange MxCtxDone,
      Receiver RxSend]"
  have "\<exists>s. exec ix_step ?ls start_exchange = Some s \<and> ixPanicked s"
    by (simp add: ix_eval)
  then show "\<exists>ls s. exec ix_step ls start_exchange = Some s \<and> ixPanicked s" by blast
  show "\<forall>ls s. exec ix_step ls start_exchange = Some s \<longrightarrow> ixPanicked s \<longrightarrow> ixCtxDone s"
    using ix_closed.exec_inv by (auto simp: closed_after_cancel_def list_all_iff)
qed

theorem exchange_panics_only_on_cancel_witness:
  "\<exists>ls s. exec ix_step ls start_exchange = Some s \<and> ixPanicked s \<and> ixCtxDone s"
  using exchange_panics_only_on_cancel by blast

section \<open>Setting the connection up\<close>

text \<open>
  the set-up reports success exactly when the connection is reported first: the final loop of
  \<open>initWebRTCAsOfferer\<close> returns \<open>nil\<close> if and only if the first event it takes is the connection,
  or the exchange of candidates has ended without an error once and then the connection is. In
  particular a cancelled context, a failed connection or a failed exchange taken first is an error.
\<close>

theorem setup_succeeds_iff_connected:
  "setup_loop True evs = Some None \<longleftrightarrow>
     (\<exists>rest. evs = SetupConnected # rest \<or> evs = SetupIceDone None # SetupConnected # rest)"
proof (cases "(True, evs)" rule: setup_loop.cases)
  case (6 pending evs')
  then show ?thesis
    by (cases "(False, evs')" rule: setup_loop.cases) auto
qed auto




end
