(* ===== verification/Agent.thy ===== *)
theory Agent
  imports ListenerSetup
begin

text \<open>
  The host side of the client: the agent that answers an offer (\<^verbatim>\<open>client/agent.go\<close>), the host that
  logs in, listens for offers and starts agents (\<^verbatim>\<open>client/host.go\<close>), and the small types they
  use (\<^verbatim>\<open>client/user.go\<close>, \<^verbatim>\<open>client/data.go\<close>, \<^verbatim>\<open>client/webrtc_abstract.go\<close>). What the WebRTC
  library, JSON and the gRPC client return are the fields of an environment record or arguments.
\<close>

section \<open>Users and wrappers\<close>

record UserData =
  UserData_token :: string
  UserData_id :: string

definition UserData_Token :: "UserData \<Rightarrow> string" where "UserData_Token u = UserData_token u"

definition UserData_ID :: "UserData \<Rightarrow> string" where "UserData_ID u = UserData_id u"

text \<open>
  \<open>NewUser\<close> hashes the time and a random number; MD5 printed in hexadecimal and the string it is
  applied to are arguments.
\<close>

record User =
  User_token :: string
  User_id :: string

definition NewUser :: "(string \<Rightarrow> string) \<Rightarrow> string \<Rightarrow> User" where
  "NewUser md5_hex timeStr = \<lparr>User_token = ''token'', User_id = md5_hex timeStr\<rparr>"

definition User_Token :: "User \<Rightarrow> string" where "User_Token u = User_token u"

definition User_ID :: "User \<Rightarrow> string" where "User_ID u = User_id u"

definition NewPeerConnWrapperWithErr :: "'pc option \<Rightarrow> go_error option \<Rightarrow> 'pc option \<times> go_error option" where
  "NewPeerConnWrapperWithErr pc err = (case pc of None \<Rightarrow> (None, err) | Some c \<Rightarrow> (Some c, err))"

text \<open>
  A value of an interface type is \<open>nil\<close> or holds a pointer, which may itself be \<open>nil\<close>. The builder and
  \<open>CreateDataChannel\<close> convert what the library returns, so that their results are never \<open>nil\<close>.
\<close>

datatype 'p iface = NilInterface | Holds "'p option"

definition NewPeerConnWrapper :: "'pc option \<Rightarrow> 'pc option option" where
  "NewPeerConnWrapper pc = Some pc"

definition CreateDataChannel :: "'dc option \<times> go_error option \<Rightarrow> 'dc iface \<times> go_error option" where
  "CreateDataChannel result = (Holds (fst result), snd result)"

definition NewPeerConnection :: "'pc option \<times> go_error option \<Rightarrow> 'pc iface \<times> go_error option" where
  "NewPeerConnection result =
     (case NewPeerConnWrapperWithErr (fst result) (snd result) of (w, err) \<Rightarrow> (Holds w, err))"

lemma NewPeerConnection_never_nil: "fst (NewPeerConnection result) \<noteq> NilInterface"
  by (simp add: NewPeerConnection_def split: prod.splits)

text \<open>
  The agent. Of the peer connection it keeps only whether there is one; the handler of its data
  channels is installed together with it.
\<close>

record AgentNetConn =
  Agent_addr :: string
  Agent_network :: string
  Agent_user :: UserData
  Agent_hostID :: string
  Agent_peerConn :: bool

definition NewAgent :: "string \<Rightarrow> string \<Rightarrow> UserData \<Rightarrow> string \<Rightarrow> AgentNetConn" where
  "NewAgent addr network user hostID =
     \<lparr>Agent_addr = addr, Agent_network = network, Agent_user = user, Agent_hostID = hostID,
      Agent_peerConn = False\<rparr>"

section \<open>Answering an offer\<close>

text \<open>
  What the libraries return: \<open>aeNewPeerConnection\<close> says whether there is a connection, and the error.
\<close>

record 'sdp agent_env =
  aeNewPeerConnection :: "unit option \<times> go_error option"
  aeWaitForOffer :: "WaitForOfferRequest \<Rightarrow> OfferResponse option \<times> go_error option"
  aeSendIceCandidate :: "go_error option"
  aeUnmarshal :: "string \<Rightarrow> 'sdp \<times> go_error option"
  aeSetRemoteDescription :: "'sdp \<Rightarrow> go_error option"
  aeCreateAnswer :: "string \<times> go_error option"
  aeSetLocalDescription :: "string \<Rightarrow> go_error option"
  aeSendAnswer :: "ReplyToRequest \<Rightarrow> go_error option"

text \<open>
  How the function goes on: it panics, it has started a goroutine that sends an error and returns,
  or it sends the success itself, after starting a goroutine that sends the error of \<open>SendAnswer\<close>
  when there is one.
\<close>

datatype agent_outcome = AgentPanics | AgentFails "go_error option" | AgentSucceeds "go_error option"

definition on_failure :: "go_error option \<Rightarrow> agent_outcome \<Rightarrow> agent_outcome" where
  "on_failure err rest = (if failed err then AgentFails err else rest)"

definition answer_request :: "string \<Rightarrow> string \<Rightarrow> string \<Rightarrow> ReplyToRequest" where
  "answer_request token answerID sdp =
     \<lparr>ReplyToRequest_Token = Some \<lparr>AuthToken_Token = token\<rparr>, ReplyToRequest_OffererId = '''',
      ReplyToRequest_AnswererId = answerID, ReplyToRequest_Body = sdp\<rparr>"

text \<open>The steps from opening the stream for candidates to sending the answer.\<close>

definition answer_offer ::
  "'sdp agent_env \<Rightarrow> string \<Rightarrow> unit option \<Rightarrow> OfferResponse \<Rightarrow> agent_outcome"
where
  "answer_offer env token peerConn offer =
     on_failure (aeSendIceCandidate env)
       (if peerConn = None then AgentPanics
        else let (sdp, err) = aeUnmarshal env (OfferResponse_Body offer) in
          on_failure err
            (on_failure (aeSetRemoteDescription env sdp)
              (let (answer, err) = aeCreateAnswer env in
               on_failure err
                 (on_failure (aeSetLocalDescription env answer)
                   (let err = aeSendAnswer env
                          (answer_request token (OfferResponse_AnswererId offer) answer)
                    in AgentSucceeds (if failed err then err else None))))))"

definition agent_offer_request :: "AgentNetConn \<Rightarrow> WaitForOfferRequest" where
  "agent_offer_request ag =
     \<lparr>WaitForOfferRequest_Token = Some \<lparr>AuthToken_Token = UserData_Token (Agent_user ag)\<rparr>,
      WaitForOfferRequest_HostId = Agent_hostID ag\<rparr>"

definition initWebRTCAsAnswerer :: "'sdp agent_env \<Rightarrow> AgentNetConn \<Rightarrow> agent_outcome" where
  "initWebRTCAsAnswerer env ag =
     (let token = UserData_Token (Agent_user ag);
          (peerConn, err) = aeNewPeerConnection env
      in on_failure err
        (let (ret, err) = aeWaitForOffer env (agent_offer_request ag)
         in on_failure err
           (case ret of
              None \<Rightarrow> AgentPanics
            | Some offer \<Rightarrow> answer_offer env token peerConn offer)))"

text \<open>
  The callback for a candidate the library gathered: it polls once a second until the remote
  description is set, and then sends the candidate; an error of \<open>Send\<close> is only logged. \<open>polls\<close> are the
  answers of the polls; \<open>None\<close> says that nothing is sent (yet).
\<close>

fun agent_OnICECandidate :: "string \<Rightarrow> string \<Rightarrow> bool list \<Rightarrow> string option \<Rightarrow> ReplyToRequest option" where
  "agent_OnICECandidate token answerID polls None = None"
| "agent_OnICECandidate token answerID [] (Some c) = None"
| "agent_OnICECandidate token answerID (remote # polls) (Some c) =
     (if remote then Some (answer_request token answerID c)
      else agent_OnICECandidate token answerID polls (Some c))"

text \<open>
  The channel of one slot the function returns, and \<open>None\<close> when its own send blocks: nobody can
  receive before it has returned, so this happens when the goroutine's error took the slot first.
\<close>

definition result_channel :: "bool \<Rightarrow> go_error option \<Rightarrow> go_error option chan option" where
  "result_channel goroutine_first err =
     (let ch = make_chan 1 in
      if failed err \<and> goroutine_first
      then (case chan_put ch err of None \<Rightarrow> None | Some ch' \<Rightarrow> chan_put ch' None)
      else chan_put ch None)"

definition setupWebRTC_ans ::
  "bool \<Rightarrow> agent_outcome \<Rightarrow> AgentNetConn \<Rightarrow> AgentNetConn \<times> setup_outcome"
where
  "setupWebRTC_ans goroutine_first out ag =
     (let received = (\<lambda>err.
            if failed err then (ag, SetupReturns err)
            else (ag\<lparr>Agent_peerConn := True\<rparr>, SetupReturns None))
      in case out of
        AgentPanics \<Rightarrow> (ag, SetupPanics)
      | AgentFails err \<Rightarrow> received err
      | AgentSucceeds err \<Rightarrow>
          (case result_channel goroutine_first err of
             None \<Rightarrow> (ag, SetupWaits)
           | Some ch \<Rightarrow>
               (case chan_take ch of None \<Rightarrow> (ag, SetupWaits) | Some (err, _) \<Rightarrow> received err)))"

text \<open>\<open>Connect\<close> forwards the result of \<open>setupWebRTC\<close>.\<close>

definition Agent_Connect :: "'sdp agent_env \<Rightarrow> bool \<Rightarrow> AgentNetConn \<Rightarrow> AgentNetConn \<times> setup_outcome" where
  "Agent_Connect env goroutine_first ag =
     setupWebRTC_ans goroutine_first (initWebRTCAsAnswerer env ag) ag"

text \<open>
  The goroutine that receives remote candidates. \<open>recv_candidate\<close> is the goroutine one evaluation of the
  select starts: the candidate it puts into its channel, if any. \<open>agent_candidates\<close> is the inner loop, given
  what happens next: the timer, the end of the stream, or a result of \<open>Recv\<close> together with that of
  \<open>AddICECandidate\<close>. After a failed \<open>Recv\<close> the channel stays empty, so only the other two branches can end
  the select (\<open>agent_stalled\<close>). The result holds the candidates added and whether the goroutine has returned.
\<close>

definition recv_candidate :: "IceCandidate option \<Rightarrow> go_error option \<Rightarrow> string option" where
  "recv_candidate r err =
     (if failed err then None else if r = None then None else Some (IceCandidate_GetCandidate r))"

datatype agent_ice_event =
    AgentIceTimeout
  | AgentIceStreamDone
  | AgentIceRecv "IceCandidate option" "go_error option" "go_error option"

fun agent_stalled :: "agent_ice_event list \<Rightarrow> bool" where
  "agent_stalled [] = False"
| "agent_stalled (AgentIceRecv r err addErr # evs) = agent_stalled evs"
| "agent_stalled (_ # evs) = True"

fun agent_candidates :: "agent_ice_event list \<Rightarrow> string list \<times> bool" where
  "agent_candidates [] = ([], False)"
| "agent_candidates (AgentIceTimeout # evs) = ([], True)"
| "agent_candidates (AgentIceStreamDone # evs) = ([], True)"
| "agent_candidates (AgentIceRecv r err addErr # evs) =
     (case recv_candidate r err of
        None \<Rightarrow> ([], agent_stalled evs)
      | Some ice \<Rightarrow>
          if failed addErr then ([ice], True)
          else (ice # fst (agent_candidates evs), snd (agent_candidates evs)))"

text \<open>
  The goroutine as a whole: the call that opens the stream lets \<open>EOF\<close> pass, and the context of a missing
  stream is read at once, which panics. The inner loop ends only by returning, so the outer
  loop makes one round.
\<close>

datatype receiver_end = ReceiverPanics | Received "string list" bool

definition agent_receiver :: "unit option \<times> go_error option \<Rightarrow> agent_ice_event list \<Rightarrow> receiver_end" where
  "agent_receiver opened evs =
     (let (res, err) = opened
      in if failed err then Received [] True
         else if res = None then ReceiverPanics
         else Received (fst (agent_candidates evs)) (snd (agent_candidates evs)))"

fun received_in :: "agent_ice_event list \<Rightarrow> string list" where
  "received_in [] = []"
| "received_in (AgentIceRecv r err addErr # evs) =
     (case recv_candidate r err of None \<Rightarrow> received_in evs | Some ice \<Rightarrow> ice # received_in evs)"
| "received_in (_ # evs) = received_in evs"

text \<open>
  What is added is a prefix of what the stream delivers; one candidate that \<open>AddICECandidate\<close> refuses, as
  it does before the remote description is set, ends the goroutine and loses all later ones.
\<close>

lemma agent_adds_a_prefix: "\<exists>lost. received_in evs = fst (agent_candidates evs) @ lost"
  by (induction evs rule: agent_candidates.induct) (auto split: option.splits)

lemma refused_candidate_ends_the_receiver:
  assumes "\<forall>ev\<in>set pre. \<exists>m. ev = AgentIceRecv (Some m) None None" and "failed refused"
  shows "agent_receiver (Some (), None) (pre @ AgentIceRecv (Some m) None refused # evs) =
     Received (received_in pre @ [IceCandidate_Candidate m]) True"
  using assms
  by (induction pre) (auto simp: agent_receiver_def recv_candidate_def IceCandidate_GetCandidate_def failed_def)

section \<open>One incoming connection\<close>

text \<open>
  \<open>onDataChannelHandler\<close>: after a failed dial nothing is started; otherwise the proxy, the callback
  that signals the end of life, and the goroutine that closes the proxy and the channel.
\<close>

datatype conn_pc = ConnWait | ConnCloseProxy | ConnCloseChannel | ConnClosed

record agent_conn =
  acEoL :: "go_error option chan"
  acPc :: conn_pc
  acCloses :: nat
  acChannelClosed :: bool

definition onDataChannelHandler :: "go_error option \<Rightarrow> agent_conn option" where
  "onDataChannelHandler dialErr =
     (if failed dialErr then None
      else Some \<lparr>acEoL = make_chan 1, acPc = ConnWait, acCloses = 0, acChannelClosed = False\<rparr>)"

datatype conn_label =
    ChannelCloses
  | ProxyEnds "go_error option"
  | OwnerWakes
  | OwnerClosesProxy
  | OwnerClosesChannel

fun conn_step :: "conn_label \<Rightarrow> agent_conn \<Rightarrow> agent_conn option" where
  "conn_step ChannelCloses c =
     Some (case chan_put (acEoL c) (Some EOF) of Some ch \<Rightarrow> c\<lparr>acEoL := ch\<rparr> | None \<Rightarrow> c)"
| "conn_step (ProxyEnds err) c = map_option (\<lambda>ch. c\<lparr>acEoL := ch\<rparr>) (chan_put (acEoL c) err)"
| "conn_step OwnerWakes c =
     (if acPc c = ConnWait
      then map_option (\<lambda>(_, ch). c\<lparr>acEoL := ch, acPc := ConnCloseProxy\<rparr>) (chan_take (acEoL c))
      else None)"
| "conn_step OwnerClosesProxy c =
     (if acPc c = ConnCloseProxy
      then Some (c\<lparr>acCloses := Suc (acCloses c), acPc := ConnCloseChannel\<rparr>) else None)"
| "conn_step OwnerClosesChannel c =
     (if acPc c = ConnCloseChannel
      then Some (c\<lparr>acChannelClosed := True, acPc := ConnClosed\<rparr>) else None)"

section \<open>The host\<close>

text \<open>The two gRPC clients of the structure are arguments of the functions that call them.\<close>

record Host =
  Host_authToken :: string
  Host_invitationToken :: string
  Host_user :: UserData
  Host_addr :: string
  Host_agents :: "string \<rightharpoonup> AgentNetConn"
  Host_hostID :: string

text \<open>
  \<open>NewOfferListener\<close>: the result of the future, and then, for the results of \<open>Recv\<close> one after the
  other, how many agents are started and whether the loop has ended.
\<close>

definition NewOfferListener :: "(WaitForOfferRequest \<Rightarrow> go_error option) \<Rightarrow> string \<Rightarrow> go_error option" where
  "NewOfferListener ListenNewOffer hostID =
     ListenNewOffer \<lparr>WaitForOfferRequest_Token = None, WaitForOfferRequest_HostId = hostID\<rparr>"

fun offer_loop :: "go_error option list \<Rightarrow> nat \<times> bool" where
  "offer_loop [] = (0, False)"
| "offer_loop (Some err # rs) = (0, True)"
| "offer_loop (None # rs) = (Suc (fst (offer_loop rs)), snd (offer_loop rs))"

definition newHost ::
  "string \<Rightarrow> string \<Rightarrow> string \<Rightarrow> (WaitForOfferRequest \<Rightarrow> go_error option) \<Rightarrow> UserData \<Rightarrow> string \<Rightarrow>
     go_error + Host"
where
  "newHost hostID authToken invitationToken ListenNewOffer user addr =
     (case NewOfferListener ListenNewOffer hostID of
        Some err \<Rightarrow> Inl err
      | None \<Rightarrow>
          Inr \<lparr>Host_authToken = authToken, Host_invitationToken = invitationToken,
               Host_user = user, Host_addr = addr, Host_agents = Map.empty,
               Host_hostID = hostID\<rparr>)"

text \<open>
  \<open>token.Token\<close> and \<open>invitationToken.Token\<close> are fields of messages that may be absent; on \<open>nil\<close>
  they panic, unlike the getter used for the user.
\<close>

definition HostLogin ::
  "string \<Rightarrow> string \<Rightarrow> (InitHostRequest \<Rightarrow> go_error + InitHostResponse) \<Rightarrow>
     (WaitForOfferRequest \<Rightarrow> go_error option) \<Rightarrow> string \<Rightarrow> Host handler_result"
where
  "HostLogin username password loginHost listenNewOffer addr =
     (case loginHost \<lparr>InitHostRequest_UserLogin =
         Some \<lparr>UserLogin_Username = username, UserLogin_Password = password\<rparr>\<rparr> of
        Inl err \<Rightarrow> Returns (Inl err)
      | Inr res \<Rightarrow>
          (let hostID = InitHostResponse_GetHostId (Some res);
               token = InitHostResponse_GetToken (Some res);
               invitationToken = InitHostResponse_GetClientSecret (Some res);
               user = \<lparr>UserData_token = AuthToken_GetToken token, UserData_id = hostID\<rparr>
           in case (token, invitationToken) of
                (Some t, Some i) \<Rightarrow>
                  Returns (newHost hostID (AuthToken_Token t) (AuthToken_Token i) listenNewOffer user addr)
              | _ \<Rightarrow> Panics))"

text \<open>
  \<open>StartAgent\<close> makes an agent for the host and waits for the result of \<open>Connect\<close>, which it only logs.
\<close>

definition StartAgent :: "'sdp agent_env \<Rightarrow> bool \<Rightarrow> Host \<Rightarrow> AgentNetConn \<times> setup_outcome" where
  "StartAgent env goroutine_first h =
     Agent_Connect env goroutine_first (NewAgent (Host_addr h) ''tcp'' (Host_user h) (Host_hostID h))"

section \<open>Properties\<close>

text \<open>
  The answer the agent sends, when all the steps before have gone through.
\<close>

definition prepared :: "'sdp agent_env \<Rightarrow> AgentNetConn \<Rightarrow> ReplyToRequest option" where
  "prepared env ag =
     (case aeWaitForOffer env (agent_offer_request ag) of
        (Some offer, err) \<Rightarrow>
          (case aeUnmarshal env (OfferResponse_Body offer) of
             (sdp, err') \<Rightarrow>
               if fst (aeNewPeerConnection env) \<noteq> None \<and> \<not> failed (snd (aeNewPeerConnection env)) \<and>
                  \<not> failed err \<and> \<not> failed (aeSendIceCandidate env) \<and>
                  \<not> failed err' \<and> \<not> failed (aeSetRemoteDescription env sdp) \<and>
                  \<not> failed (snd (aeCreateAnswer env)) \<and>
                  \<not> failed (aeSetLocalDescription env (fst (aeCreateAnswer env)))
               then Some (answer_request (UserData_Token (Agent_user ag))
                      (OfferResponse_AnswererId offer) (fst (aeCreateAnswer env)))
               else None)
      | (None, err) \<Rightarrow> None)"

lemma initWebRTCAsAnswerer_unprepared:
  assumes "prepared env ag = None"
  shows "initWebRTCAsAnswerer env ag = AgentPanics \<or>
     (\<exists>err. failed err \<and> initWebRTCAsAnswerer env ag = AgentFails err)"
  using assms
  by (auto simp: prepared_def initWebRTCAsAnswerer_def answer_offer_def on_failure_def Let_def case_prod_unfold
      split: option.splits prod.splits if_splits)

lemma initWebRTCAsAnswerer_prepared:
  assumes "prepared env ag = Some req"
  shows "initWebRTCAsAnswerer env ag =
     (let err = aeSendAnswer env req in AgentSucceeds (if failed err then err else None))"
  using assms
  by (auto simp: prepared_def initWebRTCAsAnswerer_def answer_offer_def on_failure_def Let_def case_prod_unfold
      split: option.splits prod.splits if_splits)

lemma prepared_answers_the_offer:
  assumes "prepared env ag = Some req" "aeWaitForOffer env (agent_offer_request ag) = (Some offer, err)"
  shows "ReplyToRequest_AnswererId req = OfferResponse_AnswererId offer"
  using assms by (auto simp: prepared_def answer_request_def split: prod.splits if_splits)

lemma result_channel_take:
  "result_channel first err =
     (if failed err \<and> first then None else Some ((make_chan 1)\<lparr>chBuf := [None]\<rparr>))"
  by (simp add: result_channel_def make_chan_def chan_put_def chan_send_def Let_def)

text \<open>
  C34: a lost answer is never reported as an error. The host's agent reports an error only when a step
  before sending the answer failed. When \<open>SendAnswer\<close> fails, the missing \<open>return\<close> decides between two
  other ends: the success sent by the function itself, although the server has no answer, or, when
  the goroutine's error takes the only slot first, a function that never returns. Success is
  reported exactly when everything before went through and that race did not block the function.
\<close>

theorem agent_never_reports_a_lost_answer:
  "(snd (Agent_Connect env first ag) = SetupReturns None \<longleftrightarrow>
      (\<exists>req. prepared env ag = Some req \<and> \<not> (first \<and> failed (aeSendAnswer env req)))) \<and>
   (snd (Agent_Connect env first ag) = SetupWaits \<longleftrightarrow>
      (\<exists>req. prepared env ag = Some req \<and> first \<and> failed (aeSendAnswer env req))) \<and>
   ((\<exists>err. snd (Agent_Connect env first ag) = SetupReturns (Some err)) \<longleftrightarrow>
      initWebRTCAsAnswerer env ag \<noteq> AgentPanics \<and> prepared env ag = None)"
proof (cases "prepared env ag")
  case None
  with initWebRTCAsAnswerer_unprepared [OF None] show ?thesis
    by (auto simp: Agent_Connect_def setupWebRTC_ans_def failed_def)
next
  case (Some req)
  with initWebRTCAsAnswerer_prepared [OF Some] show ?thesis
    by (auto simp: Agent_Connect_def setupWebRTC_ans_def result_channel_take chan_take_def
        chan_recv_def failed_def Let_def)
qed

text \<open>The calls of the server's \<open>LoginHost\<close> as the client sees them; a panic ends the call.\<close>

definition login_call ::
  "string \<Rightarrow> (jwt_claims \<Rightarrow> string \<Rightarrow> go_error + string) \<Rightarrow> InitHostRequest \<Rightarrow> go_error + InitHostResponse"
where
  "login_call uuid sign req =
     (case snd (LoginHost uuid sign req) of
        Panics \<Rightarrow> Inl (ErrNew ''panic'')
      | Returns r \<Rightarrow> r)"

text \<open>
  client and server agree on the host. If \<open>HostLogin\<close> against the server's \<open>LoginHost\<close> returns a
  host, then the user is the one the server lets in, the server has announced exactly the id the
  host works with to its host manager, the host's listener was started for this id, and the host
  carries the two tokens the server made; and \<open>HostLogin\<close> never panics against this server.
\<close>

theorem HostLogin_agrees_with_the_server:
  "(HostLogin username password (login_call uuid sign) listen addr = Returns (Inr h) \<longrightarrow>
      username = ''neo'' \<and>
      fst (LoginHost uuid sign \<lparr>InitHostRequest_UserLogin =
         Some \<lparr>UserLogin_Username = username, UserLogin_Password = password\<rparr>\<rparr>) = [Host_hostID h] \<and>
      listen \<lparr>WaitForOfferRequest_Token = None, WaitForOfferRequest_HostId = Host_hostID h\<rparr> = None \<and>
      Host_authToken h = hostToken \<and> UserData_Token (Host_user h) = hostToken \<and>
      sign (clientJWT_claims (Host_hostID h)) signing_secret = Inr (Host_invitationToken h)) \<and>
   HostLogin username password (login_call uuid sign) listen addr \<noteq> Panics"
  by (auto simp: HostLogin_def login_call_def LoginHost_def newHost_def NewOfferListener_def
      UserData_Token_def getter_defs Let_def
      split: sum.splits option.splits if_splits)

theorem HostLogin_agrees_with_the_server_witness:
  "\<exists>h. HostLogin ''neo'' ''pw'' (login_call ''id'' (\<lambda>_ _. Inr ''jwt'')) (\<lambda>_. None) ''addr'' =
        Returns (Inr h) \<and> Host_hostID h = ''id''"
proof -
  obtain h where h: "HostLogin ''neo'' ''pw'' (login_call ''id'' (\<lambda>_ _. Inr ''jwt'')) (\<lambda>_. None) ''addr'' =
      Returns (Inr h)"
    by (simp add: HostLogin_def login_call_def LoginHost_def newHost_def NewOfferListener_def
        getter_defs Let_def)
  with HostLogin_agrees_with_the_server [of "''neo''" "''pw''" "''id''" "\<lambda>_ _. Inr ''jwt''"
      "\<lambda>_. None" "''addr''" h]
  show ?thesis by (auto simp: LoginHost_def Let_def)
qed

end
