(* ===== verification/CandidatePath.thy ===== *)
theory CandidatePath
  imports ClientCandidates ListenerSetupProps Agent
begin

text \<open>
  Candidates from client to client: the exchange of the listener, the streams of gRPC, the signalling
  server and the agent, put in a row. A gRPC stream delivers the messages of one stream in the order
  they were sent, up to where it ends; this documented behaviour is the named hypothesis \<open>grpc_delivers\<close>
  between what one end has received and what the other has sent.
\<close>

section \<open>The ends of the streams\<close>

definition grpc_delivers :: "'m list \<Rightarrow> 'm list \<Rightarrow> bool" where
  "grpc_delivers got put \<longleftrightarrow> prefix got put"

text \<open>
  The agent's messages: one call of its callback after the other, each with the answers of its polls and
  the candidate, if any.
\<close>

definition agent_sends :: "string \<Rightarrow> string \<Rightarrow> (bool list \<times> string option) list \<Rightarrow> ReplyToRequest list" where
  "agent_sends token answerID calls =
     List.map_filter (\<lambda>(polls, c). agent_OnICECandidate token answerID polls c) calls"

text \<open>The listener's messages: those whose \<open>Send\<close> reported no error.\<close>

definition listener_sends :: "string \<Rightarrow> string \<Rightarrow> ice_exchange \<Rightarrow> ReplyToRequest list" where
  "listener_sends token answererID x =
     map (\<lambda>(ice, err). answer_request token answererID ice) (filter (\<lambda>(ice, err). err = None) (ixSent x))"

lemma agent_OnICECandidate_Some:
  "agent_OnICECandidate token a polls c = Some r \<Longrightarrow> \<exists>ice. c = Some ice \<and> r = answer_request token a ice"
  by (induction token a polls c rule: agent_OnICECandidate.induct) (auto split: if_splits)

lemma agent_sends_packets:
  "subseq (map (iceCandidate \<circ> candidate_packet) (agent_sends token a calls)) (List.map_filter snd calls) \<and>
   for_id a (map candidate_packet (agent_sends token a calls)) = map candidate_packet (agent_sends token a calls)"
proof (induction calls)
  case Nil
  show ?case by (simp add: agent_sends_def)
next
  case (Cons call calls)
  obtain polls c where call: "call = (polls, c)" by (cases call)
  show ?case
  proof (cases "agent_OnICECandidate token a polls c")
    case None
    with Cons show ?thesis
      by (cases c) (auto simp: agent_sends_def call intro: subseq_drop_many [of _ _ "[_]", simplified])
  next
    case (Some r)
    with agent_OnICECandidate_Some [OF this] Cons show ?thesis
      by (auto simp: agent_sends_def call candidate_packet_def answer_request_def)
  qed
qed

section \<open>A call is handed only what it asked for\<close>

lemma wait_ice_asked:
  "exec off_step ls (NewOffererServer b) = Some s \<Longrightarrow> iceWaits s g = Some pc \<Longrightarrow> wait_ice_holds pc c a \<Longrightarrow>
     \<exists>req. WaitIceBy g (WICall req) \<in> set ls \<and> WaitForICECandidateRequest_AnswererId req = a"
proof (induction arbitrary: pc c rule: exec_trace_induct)
  case start
  then show ?case by (simp add: NewOffererServer_def)
next
  case (step ls l t u)
  note keep = step.IH
  from step.hyps(2) show ?case
  proof (cases rule: off_stepE)
    case (send_offer h ev)
    from send_offer(2) step.prems show ?thesis
      by (cases rule: SendOffer_cases) (auto simp: SendOffer_begin_def dest: keep)
  next
    case (wait_answer h ev)
    from wait_answer(2) step.prems show ?thesis
      by (cases rule: WaitForAnswer_cases) (auto dest: keep)
  next
    case (wait_ice h ev)
    from wait_ice(2) show ?thesis
    proof (cases rule: WaitForICECandidate_off_cases)
      case (found req ch)
      with wait_ice(1) step.prems show ?thesis by (auto split: if_splits dest: keep)
    next
      case (resume ch req d ice)
      with step.prems keep [of "WISend ch req d ice" ch] show ?thesis by (auto split: if_splits dest: keep)
    qed (use step.prems in \<open>auto split: if_splits dest: keep\<close>)
  next
    case (ice_delivered h ch pkt req d)
    with step.prems keep [of "WISelect ch req d" ch] show ?thesis by (auto split: if_splits dest: keep)
  qed (use step.prems in \<open>auto dest: keep\<close>)
qed

lemma handed_as_asked:
  assumes "exec off_step ls (NewOffererServer b) = Some s"
    and "(g, pkt) \<in> set (abstract_trace off_step handed_candidates ls (NewOffererServer b))"
  shows "\<exists>req. WaitIceBy g (WICall req) \<in> set ls \<and>
     WaitForICECandidateRequest_AnswererId req = ice_answererID pkt"
proof -
  from abstract_trace_mem [OF assms(2,1)] obtain pre l post t
    where ls: "ls = pre @ l # post" and t: "exec off_step pre (NewOffererServer b) = Some t"
      and l: "(g, pkt) \<in> set (handed_candidates l t)"
    by blast
  from assms(1) ls t have "off_step l t \<noteq> None" by (auto simp: exec_append split: option.splits)
  with l obtain ch req d where r: "iceRouterPc t = IRSend ch pkt" and w: "iceWaits t g = Some (WISelect ch req d)"
    by (cases "(l, t)" rule: handed_candidates.cases)
      (auto simp: ice_handover_def split: ice_router.splits option.splits wait_ice_pc.splits if_splits)
  have "WaitForICECandidateRequest_AnswererId req = ice_answererID pkt"
    by (rule off_ices.exec_owner_unique [OF t]) (rule holds_ice_chan_intros(3) [OF w] holds_ice_chan_intros(2) [OF r])+
  with wait_ice_asked [OF t w, of ch] ls show ?thesis by auto
qed

lemma client_call_asked:
  assumes "exec sig_step ls Serve = Some S"
    and "\<forall>req. OffDoes (WaitIceBy g (WICall req)) \<in> set ls \<longrightarrow> WaitForICECandidateRequest_AnswererId req = a"
  shows "for_id a (for_call g (client_handovers ls)) = for_call g (client_handovers ls)"
proof -
  have "ice_answererID pkt = a" if "(g, pkt) \<in> set (client_handovers ls)" for pkt
  proof -
    from handed_as_asked [OF off_run [OF assms(1)], of g pkt] client_handovers_off [OF assms(1)] that
    obtain req where req: "WaitIceBy g (WICall req) \<in> set (off_trace ls)"
      and eq: "WaitForICECandidateRequest_AnswererId req = ice_answererID pkt"
      by auto
    from abstract_trace_mem [OF req assms(1)] obtain pre l post T
      where "ls = pre @ l # post" "WaitIceBy g (WICall req) \<in> set (off_proj l T)"
      by blast
    then have "OffDoes (WaitIceBy g (WICall req)) \<in> set ls"
      by (cases "(l, T)" rule: off_proj.cases) (auto split: option.splits send_answer_pc.splits)
    with assms(2) eq show ?thesis by simp
  qed
  then show ?thesis by (intro filter_True) auto
qed

section \<open>Properties\<close>

lemma call_in_order:
  "for_id a (for_call g xs) = for_call g xs \<Longrightarrow> subseq (for_call g xs) (for_id a (map snd xs))"
  by (metis subseq_filter subseq_filter_left subseq_map)

text \<open>
  C4: the host's candidates reach the listener in order. Let the agent send its candidates on the stream
  \<open>k\<close>, let no other stream carry candidates for its answerer id, and let the listener's exchange read from
  the call \<open>g\<close>, which asks for this id. Then, in all runs of the server and of the listener, the
  candidates the listener adds to its peer connection are, in this order, among those the agent's peer
  connection gathered.
\<close>

theorem host_candidates_reach_the_listener:
  assumes "grpc_delivers (received_on host_stream k ls) (map candidate_packet (agent_sends token a calls))"
    and "only_stream host_stream k a ls" and "exec sig_step ls Serve = Some S"
    and "\<forall>req. OffDoes (WaitIceBy g (WICall req)) \<in> set ls \<longrightarrow> WaitForICECandidateRequest_AnswererId req = a"
    and "grpc_delivers (received ls') (map iceCandidate (for_call g (client_handovers ls)))"
    and "exec ix_step ls' start_exchange = Some x"
  shows "subseq (map fst (ixAdded x)) (List.map_filter snd calls)"
proof -
  have "prefix (map fst (ixAdded x)) (received ls')"
    using remote_order_run [OF assms(6)] by (auto simp: remote_order_def)
  then have "subseq (map fst (ixAdded x)) (map iceCandidate (for_call g (client_handovers ls)))"
    using assms(5) unfolding grpc_delivers_def by (blast intro: prefix_imp_subseq prefix_order.trans)
  moreover have "subseq (for_call g (client_handovers ls)) (for_id a (received_on host_stream k ls))"
    using call_in_order [OF client_call_asked [OF assms(3,4)]] handed_over_in_order [OF assms(3,2)]
    by (rule subseq_order.trans)
  moreover have "subseq (for_id a (received_on host_stream k ls)) (map candidate_packet (agent_sends token a calls))"
    using assms(1) unfolding grpc_delivers_def
    by (blast intro: prefix_imp_subseq subseq_order.trans subseq_filter_left)
  ultimately have "subseq (map fst (ixAdded x)) (map iceCandidate (map candidate_packet (agent_sends token a calls)))"
    by (blast intro: subseq_map subseq_order.trans)
  with agent_sends_packets [of token a calls] show ?thesis by (auto intro: subseq_order.trans)
qed

text \<open>
  C5: the client's candidates reach the agent in order. Let the listener send its candidates on the stream
  \<open>k\<close>, let no other stream carry candidates for its answerer id, and let the agent's receiver read from the
  call \<open>g\<close>, which asks for this id. Then, in all runs, the candidates the agent adds to its peer
  connection are, in this order, among those the listener's peer connection gathered.
\<close>

theorem client_candidates_reach_the_agent:
  assumes "exec ix_step ls' start_exchange = Some x"
    and "grpc_delivers (received_on client_stream k ls) (map candidate_packet (listener_sends token a x))"
    and "only_stream client_stream k a ls" and "exec sig_step ls Serve = Some S"
    and "\<forall>req. AnsDoes (AnsWaitIceBy g (AWCall req)) \<in> set ls \<longrightarrow> WaitForICECandidateRequest_AnswererId req = a"
    and "grpc_delivers (received_in evs) (for_call g (host_takings ls))"
  shows "subseq (fst (agent_candidates evs)) (gathered ls')"
proof -
  obtain lost where "received_in evs = fst (agent_candidates evs) @ lost" using agent_adds_a_prefix by blast
  then have "subseq (fst (agent_candidates evs)) (for_call g (host_takings ls))"
    using assms(6) unfolding grpc_delivers_def
    by (metis prefixI prefix_imp_subseq prefix_order.trans)
  also have "subseq \<dots> (map iceCandidate (for_id a (received_on client_stream k ls)))"
    by (rule takings_in_order [OF assms(4,3,5)])
  also have "subseq \<dots> (map iceCandidate (map candidate_packet (listener_sends token a x)))"
    using assms(2) unfolding grpc_delivers_def
    by (blast intro: subseq_map prefix_imp_subseq subseq_order.trans subseq_filter_left)
  also have "\<dots> = map fst (filter (\<lambda>(ice, err). err = None) (ixSent x))"
    by (auto simp: listener_sends_def candidate_packet_def answer_request_def)
  also have "subseq \<dots> (map fst (ixSent x))" by (intro subseq_map subseq_filter_left)
  also have "subseq \<dots> (gathered ls')"
    using local_order_run [OF assms(1)] by (auto simp: local_order_def)
  finally show ?thesis .
qed

definition two_calls :: "(bool list \<times> string option) list" where
  "two_calls = [([True], Some ''c1''), ([False, True], Some ''c2''), ([], None)]"

definition listening_exchange :: "ix_label list" where
  "listening_exchange =
     [Exchange (MxOpened None), Receiver (RxOpened None), Receiver RxDefault, Receiver (RxGot (Inr ''c1'')),
      Receiver RxDefault, Receiver RxSend, Receiver RxDefault, Receiver (RxGot (Inr ''c2'')),
      Exchange (MxAdd None), Receiver RxDefault, Receiver RxSend, Exchange (MxAdd None)]"

theorem host_candidates_reach_the_listener_witness:
  "\<exists>x. exec ix_step listening_exchange start_exchange = Some x \<and> map fst (ixAdded x) = [''c1'', ''c2''] \<and>
     subseq [''c1'', ''c2''] (List.map_filter snd two_calls)"
proof -
  obtain S where S: "exec sig_step to_client_run Serve = Some S"
    by (simp add: second_to_client_def phases sig_eval)
  have h: "client_handovers to_client_run = [(0, packet_a1 ''c1''), (0, packet_a1 ''c2'')]"
    by (simp add: client_handovers_def second_to_client_def phases sig_eval)
  have r: "received_on host_stream 0 to_client_run = [packet_a1 ''c1'', packet_a1 ''c2'']"
    by (simp add: second_to_client_def phases candidate_packet_def)
  have p: "map candidate_packet (agent_sends ''t'' ''a1'' two_calls) = [packet_a1 ''c1'', packet_a1 ''c2'']"
    by (simp add: agent_sends_def two_calls_def candidate_packet_def answer_request_def)
  have o: "only_stream host_stream 0 ''a1'' to_client_run"
    by (simp add: only_stream_def second_to_client_def phases)
  have c: "\<forall>req. OffDoes (WaitIceBy 0 (WICall req)) \<in> set to_client_run \<longrightarrow>
      WaitForICECandidateRequest_AnswererId req = ''a1''"
    by (simp add: second_to_client_def phases)
  obtain x where x: "exec ix_step listening_exchange start_exchange = Some x"
    and a: "map fst (ixAdded x) = [''c1'', ''c2'']"
    by (simp add: listening_exchange_def ix_eval)
  have g: "grpc_delivers (received listening_exchange) (map iceCandidate (for_call 0 (client_handovers to_client_run)))"
    by (simp add: h grpc_delivers_def listening_exchange_def)
  have k: "grpc_delivers (received_on host_stream 0 to_client_run) (map candidate_packet (agent_sends ''t'' ''a1'' two_calls))"
    unfolding r p grpc_delivers_def by simp
  from host_candidates_reach_the_listener [OF k o S c g x] x a show ?thesis by simp
qed

definition sending_exchange :: "ix_label list" where
  "sending_exchange =
     [Exchange (MxOpened None), Gathered ''c1'', Exchange (MxSend None), Gathered ''c2'', Exchange (MxSend None)]"

abbreviation agent_gets :: "string \<Rightarrow> agent_ice_event" where
  "agent_gets c \<equiv> AgentIceRecv (Some \<lparr>IceCandidate_Candidate = c\<rparr>) None None"

theorem client_candidates_reach_the_agent_witness:
  "fst (agent_candidates [agent_gets ''c1'', agent_gets ''c2'']) = [''c1'', ''c2''] \<and>
   subseq [''c1'', ''c2''] (gathered sending_exchange)"
proof -
  obtain S where S: "exec sig_step to_host_run Serve = Some S"
    by (simp add: second_to_host_def phases sig_eval)
  have t: "host_takings to_host_run = [(0, ''c1''), (0, ''c2'')]"
    by (simp add: host_takings_def second_to_host_def phases sig_eval)
  have r: "received_on client_stream 0 to_host_run = [packet_a1 ''c1'', packet_a1 ''c2'']"
    by (simp add: second_to_host_def phases candidate_packet_def)
  have o: "only_stream client_stream 0 ''a1'' to_host_run"
    by (simp add: only_stream_def second_to_host_def phases)
  have c: "\<forall>req. AnsDoes (AnsWaitIceBy 0 (AWCall req)) \<in> set to_host_run \<longrightarrow>
      WaitForICECandidateRequest_AnswererId req = ''a1''"
    by (simp add: second_to_host_def phases)
  obtain x where x: "exec ix_step sending_exchange start_exchange = Some x"
    and s: "ixSent x = [(''c1'', None), (''c2'', None)]"
    by (simp add: sending_exchange_def ix_eval)
  have k: "grpc_delivers (received_on client_stream 0 to_host_run) (map candidate_packet (listener_sends ''t'' ''a1'' x))"
    unfolding r grpc_delivers_def by (simp add: s listener_sends_def candidate_packet_def answer_request_def)
  let ?evs = "[agent_gets ''c1'', agent_gets ''c2'']"
  have e: "fst (agent_candidates ?evs) = [''c1'', ''c2'']" "received_in ?evs = [''c1'', ''c2'']"
    by (simp_all add: recv_candidate_def failed_def IceCandidate_GetCandidate_def)
  have g: "grpc_delivers (received_in ?evs) (for_call 0 (host_takings to_host_run))"
    unfolding e t grpc_delivers_def by simp
  from client_candidates_reach_the_agent [OF x k o S c g] e show ?thesis by simp
qed

end
