(* ===== verification/Mailbox.thy ===== *)
theory Mailbox
  imports AnswererProps "HOL-Library.Multiset"
begin

text \<open>
  The answerer service as a post office. Its channels, its router, its timers and its map from host
  ids to channels implement one mailbox for each host: an offering is posted once, into the box of the
  host it names, and a call of \<open>WaitForOffer\<close> fetches from the box of the host it asks for. The boxes
  are multisets, not queues: after a timer has deleted the map entry of a host, a second channel
  can be made for it while a waiting call still holds the first.
\<close>

section \<open>Mailboxes\<close>

datatype mail_op = Post offering | Fetch string offering

fun mail_step :: "mail_op \<Rightarrow> (string \<Rightarrow> offering multiset) \<Rightarrow> (string \<Rightarrow> offering multiset) option" where
  "mail_step (Post off) m = Some (m(off_hostID off := add_mset off (m (off_hostID off))))"
| "mail_step (Fetch h off) m = (if off \<in># m h then Some (m(h := m h - {#off#})) else None)"

fun posted :: "mail_op list \<Rightarrow> offering list" where
  "posted [] = []"
| "posted (Post off # ops) = off # posted ops"
| "posted (Fetch h off # ops) = posted ops"

fun fetched :: "mail_op list \<Rightarrow> offering list" where
  "fetched [] = []"
| "fetched (Fetch h off # ops) = off # fetched ops"
| "fetched (Post off # ops) = fetched ops"

text \<open>A box holds only its host's offerings, and what was fetched had been posted before.\<close>

definition sorted_mail :: "(string \<Rightarrow> offering multiset) \<Rightarrow> bool" where
  "sorted_mail m \<longleftrightarrow> (\<forall>h. \<forall>off \<in># m h. off_hostID off = h)"

lemma mail_step_sorted: "sorted_mail m \<Longrightarrow> mail_step l m = Some m' \<Longrightarrow> sorted_mail m'"
  by (cases "(l, m)" rule: mail_step.cases)
    (auto simp: sorted_mail_def split: if_splits, metis in_diffD)

lemma mail_balance:
  assumes "exec mail_step ops m = Some m'" "sorted_mail m"
  shows "filter_mset (\<lambda>off. off_hostID off = h) (mset (posted ops)) + m h =
     filter_mset (\<lambda>off. off_hostID off = h) (mset (fetched ops)) + m' h"
  using assms
proof (induction ops arbitrary: m)
  case Nil
  then show ?case by simp
next
  case (Cons l ops)
  then obtain t where t: "mail_step l m = Some t" "exec mail_step ops t = Some m'"
    by (auto split: option.splits)
  note IH = Cons.IH [OF t(2) mail_step_sorted [OF Cons.prems(2) t(1)]]
  show ?case
  proof (cases l)
    case (Post off)
    with IH t(1) show ?thesis by auto
  next
    case (Fetch k off)
    with t(1) have in_box: "off \<in># m k" and upd: "t = m(k := m k - {#off#})"
      by (auto split: if_splits)
    from in_box Cons.prems(2) have key: "off_hostID off = k" by (simp add: sorted_mail_def)
    from in_box have "m k = add_mset off (m k - {#off#})" by simp
    then have "m h = t h + (if k = h then {#off#} else {#})" using upd by auto
    with IH Fetch key show ?thesis by (auto simp: union_assoc)
  qed
qed

section \<open>The mailboxes of a state of the service\<close>

definition in_channel :: "offering chan option \<Rightarrow> offering multiset" where
  "in_channel c = (case c of None \<Rightarrow> {#} | Some ch \<Rightarrow> mset (chBuf ch))"

definition in_router :: "offer_router \<Rightarrow> offering multiset" where
  "in_router pc = (case pc of ORIdle \<Rightarrow> {#} | ORSend ch off \<Rightarrow> {#off#})"

definition in_transit :: "AnswererServer \<Rightarrow> offering multiset" where
  "in_transit s = (\<Sum>c<ansNext s. in_channel (offerChans s c)) + in_router (offerRouterPc s)"

definition mail_of :: "AnswererServer \<Rightarrow> string \<Rightarrow> offering multiset" where
  "mail_of s h = filter_mset (\<lambda>off. off_hostID off = h) (in_transit s)"

text \<open>The operations a step performs, in the state it starts from.\<close>

fun taken_offer :: "nat \<Rightarrow> AnswererServer \<Rightarrow> mail_op list" where
  "taken_offer g s =
     (case offerWaits s g of
        Some (WOSelect ch req) \<Rightarrow>
          (case Option.bind (offerChans s ch) chan_take of
             None \<Rightarrow> []
           | Some (off, c) \<Rightarrow> [Fetch (WaitForOfferRequest_HostId req) off])
      | _ \<Rightarrow> [])"

fun mail_ops :: "ans_label \<Rightarrow> AnswererServer \<Rightarrow> mail_op list" where
  "mail_ops (OfferHanded off) s = [Post off]"
| "mail_ops (WaitOfferBy g WOTake) s = taken_offer g s"
| "mail_ops _ s = []"

lemma sum_channels_update:
  assumes "c < (n::nat)"
  shows "(\<Sum>i<n. f ((m(c := x)) i)) + f (m c) = (\<Sum>i<n. f (m i)) + (f x :: 'a::comm_monoid_add)"
proof -
  have "(\<Sum>i\<in>{..<n} - {c}. f ((m(c := x)) i)) = (\<Sum>i\<in>{..<n} - {c}. f (m i))"
    by (rule sum.cong) auto
  with assms show ?thesis
    by (simp add: sum.remove [of "{..<n}" c] ac_simps)
qed

lemma in_transit_same:
  assumes "offerChans s' = offerChans s" "offerRouterPc s' = offerRouterPc s" "ansNext s \<le> ansNext s'"
    and "offers_wf s"
  shows "in_transit s' = in_transit s"
proof -
  have "offerChans s c = None" if "ansNext s \<le> c" for c
    using assms(4) that unfolding offers_wf_def by (metis leD not_Some_eq)
  then have "(\<Sum>c<ansNext s'. in_channel (offerChans s c)) = (\<Sum>c<ansNext s. in_channel (offerChans s c))"
    using assms(3) by (intro sum.mono_neutral_right) (auto simp: in_channel_def)
  with assms(1,2) show ?thesis by (simp add: in_transit_def)
qed

lemma in_transit_new:
  assumes "offerChans s' = (offerChans s)(ansNext s \<mapsto> make_chan n)" "ansNext s' = Suc (ansNext s)"
  shows "in_transit s' = (\<Sum>c<ansNext s. in_channel (offerChans s c)) + in_router (offerRouterPc s')"
  using assms by (simp add: in_transit_def in_channel_def)

lemma mail_of_same: "in_transit s' = in_transit s \<Longrightarrow> mail_of s' = mail_of s"
  by (simp add: mail_of_def fun_eq_iff)

lemma mail_of_post:
  "in_transit s' = add_mset off (in_transit s) \<Longrightarrow>
     mail_of s' = (mail_of s)(off_hostID off := add_mset off (mail_of s (off_hostID off)))"
  by (auto simp: mail_of_def fun_eq_iff)

lemma mail_of_fetch:
  assumes "in_transit s = add_mset off (in_transit s')"
  shows "off \<in># mail_of s (off_hostID off)"
    and "mail_of s' = (mail_of s)(off_hostID off := mail_of s (off_hostID off) - {#off#})"
  using assms by (auto simp: mail_of_def fun_eq_iff)

lemma take_own_host:
  assumes own: "\<And>c a b. host_holds s c a \<Longrightarrow> host_holds s c b \<Longrightarrow> a = b"
    and take: "offerWaits s g = Some (WOSelect ch req)" "offerChans s ch = Some c" "chBuf c = off # vs"
  shows "off_hostID off = WaitForOfferRequest_HostId req"
proof (rule own [of ch])
  show "host_holds s ch (off_hostID off)" using take by (simp add: host_holds_def)
  show "host_holds s ch (WaitForOfferRequest_HostId req)"
    using take(1) unfolding host_holds_def by (metis wo_holds.simps(1))
qed

interpretation mail_sim: simulation ans_step mail_step mail_of mail_ops hosts_own.owned
proof unfold_locales
  show "hosts_own.owned s'" if "hosts_own.owned s" "ans_step l s = Some s'" for s l s'
    using hosts_own.step_keeps [OF that(1) _ that(2)] by simp
next
  fix s l s' assume own: "hosts_own.owned s" and step: "ans_step l s = Some s'"
  from own have wf: "offers_wf s" by (simp add: hosts_own.owned_def)
  from own have unique: "a = b" if "host_holds s c a" "host_holds s c b" for c a b
    using that unfolding hosts_own.owned_def by blast
  from step show "exec mail_step (mail_ops l s) (mail_of s) = Some (mail_of s')"
  proof (cases rule: offer_stepE)
    case (listen_found g req ch)
    then have "mail_of s' = mail_of s" by (intro mail_of_same) (simp add: in_transit_def)
    with listen_found show ?thesis by simp
  next
    case (listen_new g req)
    then have "in_transit s' = in_transit s"
      using in_transit_new [of s' s 1] by (simp add: in_transit_def)
    from mail_of_same [OF this] listen_new show ?thesis by simp
  next
    case (take g ch req c off vs)
    have host: "off_hostID off = WaitForOfferRequest_HostId req"
      by (rule take_own_host [OF unique take(2-4)])
    have "ch < ansNext s" using wf take(3) by (auto simp: offers_wf_def)
    from sum_channels_update [OF this, of in_channel "offerChans s" "Some (c\<lparr>chBuf := vs\<rparr>)"]
    have "in_transit s = add_mset off (in_transit s')"
      using take by (simp add: in_transit_def in_channel_def)
    from mail_of_fetch [OF this] host take show ?thesis
      by (simp add: chan_take_def chan_recv_def)
  next
    case (give_up g ch req)
    then have "mail_of s' = mail_of s" by (intro mail_of_same) (simp add: in_transit_def)
    with give_up show ?thesis by simp
  next
    case (register g off req)
    then have "mail_of s' = mail_of s" by (intro mail_of_same in_transit_same) (simp_all add: wf)
    with register show ?thesis by simp
  next
    case (handed_found off ch)
    then have "in_transit s' = add_mset off (in_transit s)"
      by (simp add: in_transit_def in_router_def)
    from mail_of_post [OF this] handed_found show ?thesis by simp
  next
    case (handed_new off)
    then have "in_transit s' = add_mset off (in_transit s)"
      using in_transit_new [of s' s 1] by (simp add: in_transit_def in_router_def)
    from mail_of_post [OF this] handed_new show ?thesis by simp
  next
    case (routed ch off c)
    have "ch < ansNext s" using wf routed(3) by (auto simp: offers_wf_def)
    from sum_channels_update [OF this, of in_channel "offerChans s" "Some (c\<lparr>chBuf := chBuf c @ [off]\<rparr>)"]
    have "in_transit s' = in_transit s"
      using routed by (simp add: in_transit_def in_channel_def in_router_def)
    from mail_of_same [OF this] routed show ?thesis by simp
  next
    case (expire i h d)
    then have "mail_of s' = mail_of s" by (intro mail_of_same) (simp add: in_transit_def)
    with expire show ?thesis by simp
  next
    case other
    then have "mail_of s' = mail_of s"
      by (intro mail_of_same in_transit_same) (simp_all add: wf offer_part_def)
    moreover have "mail_ops l s = []" using other(4,5) by (cases "(l, s)" rule: mail_ops.cases) auto
    ultimately show ?thesis by simp
  qed
qed

lemma mail_run:
  assumes "exec ans_step ls (NewAnswererServer b) = Some s"
  shows "exec mail_step (abstract_trace ans_step mail_ops ls (NewAnswererServer b)) (\<lambda>_. {#}) =
     Some (mail_of s)"
proof -
  have "mail_of (NewAnswererServer b) = (\<lambda>_. {#})"
    by (simp add: mail_of_def in_transit_def NewAnswererServer_def in_router_def fun_eq_iff)
  with mail_sim.exec_sim [OF assms hosts_own.start_holds] show ?thesis by simp
qed

section \<open>Properties\<close>

text \<open>
  C13: the answerer service implements one mailbox for each host. In every run, with any interleaving of
  handlers, router and timers, the sequence of hand-overs by the offerer service and of takings by
  \<open>WaitForOffer\<close> is a run of the post office that ends in the boxes the channels and the router hold: every
  offering is put into the box of its own host and taken from it, and none that is not there is taken.
\<close>

theorem answerer_refines_mailboxes:
  assumes "exec ans_step ls (NewAnswererServer b) = Some s"
  shows "exec mail_step (abstract_trace ans_step mail_ops ls (NewAnswererServer b)) (\<lambda>_. {#}) =
     Some (mail_of s)"
  using assms by (rule mail_run)

definition mail_demo :: "ans_label list" where
  "mail_demo =
     [OfferHanded (off_h ''a1''), OfferRouted, OfferHanded (off_h ''a2''), WaitOfferBy 0 (WOCall req_h),
      WaitOfferBy 0 WOTake]"

theorem answerer_refines_mailboxes_witness:
  "\<exists>s. exec ans_step mail_demo (NewAnswererServer new_bus) = Some s \<and>
     exec mail_step [Post (off_h ''a1''), Post (off_h ''a2''), Fetch ''h'' (off_h ''a1'')] (\<lambda>_. {#}) =
       Some (mail_of s)"
proof -
  obtain s where s: "exec ans_step mail_demo (NewAnswererServer new_bus) = Some s"
    by (simp add: mail_demo_def ans_eval)
  have "abstract_trace ans_step mail_ops mail_demo (NewAnswererServer new_bus) =
      [Post (off_h ''a1''), Post (off_h ''a2''), Fetch ''h'' (off_h ''a1'')]"
    by (simp add: mail_demo_def ans_eval)
  with answerer_refines_mailboxes [OF s] s show ?thesis by auto
qed

fun handed :: "ans_label list \<Rightarrow> offering list" where
  "handed [] = []"
| "handed (OfferHanded off # ls) = off # handed ls"
| "handed (_ # ls) = handed ls"

lemma posted_append [simp]: "posted (xs @ ys) = posted xs @ posted ys"
  by (induction xs rule: posted.induct) auto

lemma posted_taken [simp]: "posted (taken_offer g s) = []"
  by (simp split: option.splits wait_offer_pc.splits)

lemma posted_trace:
  "exec ans_step ls s = Some s' \<Longrightarrow> posted (abstract_trace ans_step mail_ops ls s) = handed ls"
proof (induction ls arbitrary: s)
  case Nil
  then show ?case by simp
next
  case (Cons l ls)
  then obtain t where t: "ans_step l s = Some t" "exec ans_step ls t = Some s'"
    by (auto split: option.splits)
  have "posted (mail_ops l s) @ xs = handed [l] @ xs" for xs
    by (cases "(l, s)" rule: mail_ops.cases) (simp_all del: taken_offer.simps)
  moreover have "handed (l # ls) = handed [l] @ handed ls"
    by (cases l) simp_all
  ultimately show ?case using t Cons.IH [OF t(2)] by simp
qed

text \<open>
  C14: no offering is lost or delivered twice inside the service. In every run, the offerings handed over
  by the offerer service are, as a multiset, those \<open>WaitForOffer\<close> has taken together with those still in a
  channel or in the router's hand; time-outs and the deletion of map entries change nothing in this.
\<close>

theorem offerings_are_conserved:
  assumes "exec ans_step ls (NewAnswererServer b) = Some s"
  shows "mset (handed ls) =
     mset (fetched (abstract_trace ans_step mail_ops ls (NewAnswererServer b))) + in_transit s"
proof (rule multiset_eqI)
  fix off :: offering
  let ?tr = "abstract_trace ans_step mail_ops ls (NewAnswererServer b)"
  have "sorted_mail (\<lambda>_. {#})" by (simp add: sorted_mail_def)
  from mail_balance [OF mail_run [OF assms] this, of "off_hostID off"] posted_trace [OF assms]
  have "filter_mset (\<lambda>x. off_hostID x = off_hostID off) (mset (handed ls)) =
      filter_mset (\<lambda>x. off_hostID x = off_hostID off) (mset (fetched ?tr) + in_transit s)"
    by (simp add: mail_of_def)
  then show "count (mset (handed ls)) off = count (mset (fetched ?tr) + in_transit s) off"
    using count_filter_mset [of "\<lambda>x. off_hostID x = off_hostID off" _ off] by metis
qed

theorem offerings_are_conserved_witness:
  "\<exists>s. exec ans_step mail_demo (NewAnswererServer new_bus) = Some s \<and>
     {#off_h ''a1'', off_h ''a2''#} = {#off_h ''a1''#} + in_transit s"
proof -
  obtain s where s: "exec ans_step mail_demo (NewAnswererServer new_bus) = Some s"
    by (simp add: mail_demo_def ans_eval)
  have "fetched (abstract_trace ans_step mail_ops mail_demo (NewAnswererServer new_bus)) = [off_h ''a1'']"
    by (simp add: mail_demo_def ans_eval)
  with offerings_are_conserved [OF s] s show ?thesis by (auto simp: mail_demo_def)
qed

end
