(* ===== verification/Switchboard.thy ===== *)
theory Switchboard
  imports CandidateOrder Mailbox
begin

text \<open>
  What the signalling server is for, as one abstract machine: a registry of hosts, one mailbox of offers
  for each host, one queue of answers and one of candidates. The server with its goroutines, channels,
  locks and timers implements it; the proof puts the refinements of the services together.
\<close>

section \<open>The switchboard\<close>

record switchboard =
  swHosts :: registry
  swMail :: "string \<Rightarrow> offering multiset"
  swAnswers :: "AnsPacket list"
  swCandidates :: "IcePacket list"

datatype switch_op =
    HostOp registry_op
  | MailOp mail_op
  | AnswerOp "AnsPacket relay_op"
  | CandidateOp "IcePacket relay_op"

fun switch_step :: "switch_op \<Rightarrow> switchboard \<Rightarrow> switchboard option" where
  "switch_step (HostOp op) sw = map_option (\<lambda>r. sw\<lparr>swHosts := r\<rparr>) (registry_step op (swHosts sw))"
| "switch_step (MailOp op) sw = map_option (\<lambda>m. sw\<lparr>swMail := m\<rparr>) (mail_step op (swMail sw))"
| "switch_step (AnswerOp op) sw =
     map_option (\<lambda>q. sw\<lparr>swAnswers := q\<rparr>) (relay_step ans_answererID op (swAnswers sw))"
| "switch_step (CandidateOp op) sw =
     map_option (\<lambda>q. sw\<lparr>swCandidates := q\<rparr>) (relay_step ice_answererID op (swCandidates sw))"

definition empty_switchboard :: switchboard where
  "empty_switchboard =
     \<lparr>swHosts = \<lparr>regHosts = Map.empty, regCrashed = False\<rparr>, swMail = (\<lambda>_. {#}), swAnswers = [],
      swCandidates = []\<rparr>"

definition switch_of :: "signal_server \<Rightarrow> switchboard" where
  "switch_of S =
     \<lparr>swHosts = registry_of (sigHost S), swMail = mail_of (sigAns S),
      swAnswers = answers_in_flight (sigOff S), swCandidates = candidates_in_flight (sigOff S)\<rparr>"

text \<open>
  The operations a step of the server performs. Offers are posted by the hand-over between the services,
  answers and candidates enter their queues when a handler of the answerer service puts them on the bus.
\<close>

fun switch_ops :: "sig_label \<Rightarrow> signal_server \<Rightarrow> switch_op list" where
  "switch_ops (LoginBy uuid sign req) S = map (HostOp \<circ> AddHost) (fst (LoginHost uuid sign req))"
| "switch_ops (HostDoes l) S = map HostOp (registry_ops l (sigHost S))"
| "switch_ops (OffDoes l) S =
     map AnswerOp (relay_ops l (sigOff S)) @ map CandidateOp (candidate_ops l (sigOff S))"
| "switch_ops (AnsDoes (SendAnswerBy g SAPut)) S =
     (case sendAnswers (sigAns S) g of Some (SAPending pkt) \<Rightarrow> [AnswerOp (Arrive pkt)] | _ \<Rightarrow> [])"
| "switch_ops (AnsDoes (AnsSendIceBy g SIForward)) S =
     map (CandidateOp \<circ> Arrive) (forwarded (ansIceSends (sigAns S) g))"
| "switch_ops (AnsDoes l) S = map MailOp (mail_ops l (sigAns S))"
| "switch_ops (HandOffer g) S =
     (case offer_value (sigOff S) g of Some off \<Rightarrow> [MailOp (Post off)] | None \<Rightarrow> [])"
| "switch_ops _ S = []"

section \<open>The parts of a list of operations\<close>

fun host_part :: "switch_op list \<Rightarrow> registry_op list" where
  "host_part [] = []"
| "host_part (HostOp op # ops) = op # host_part ops"
| "host_part (_ # ops) = host_part ops"

fun mail_part :: "switch_op list \<Rightarrow> mail_op list" where
  "mail_part [] = []"
| "mail_part (MailOp op # ops) = op # mail_part ops"
| "mail_part (_ # ops) = mail_part ops"

fun answer_part :: "switch_op list \<Rightarrow> AnsPacket relay_op list" where
  "answer_part [] = []"
| "answer_part (AnswerOp op # ops) = op # answer_part ops"
| "answer_part (_ # ops) = answer_part ops"

fun candidate_part_of :: "switch_op list \<Rightarrow> IcePacket relay_op list" where
  "candidate_part_of [] = []"
| "candidate_part_of (CandidateOp op # ops) = op # candidate_part_of ops"
| "candidate_part_of (_ # ops) = candidate_part_of ops"

lemma parts_append [simp]:
  "host_part (xs @ ys) = host_part xs @ host_part ys"
  "mail_part (xs @ ys) = mail_part xs @ mail_part ys"
  "answer_part (xs @ ys) = answer_part xs @ answer_part ys"
  "candidate_part_of (xs @ ys) = candidate_part_of xs @ candidate_part_of ys"
  by (induction xs rule: host_part.induct; simp)+

lemma HostOp_parts [simp]:
  "host_part (map HostOp xs) = xs"
  "mail_part (map HostOp xs) = []"
  "answer_part (map HostOp xs) = []"
  "candidate_part_of (map HostOp xs) = []"
  by (induction xs) simp_all

lemma MailOp_parts [simp]:
  "host_part (map MailOp xs) = []"
  "mail_part (map MailOp xs) = xs"
  "answer_part (map MailOp xs) = []"
  "candidate_part_of (map MailOp xs) = []"
  by (induction xs) simp_all

lemma AnswerOp_parts [simp]:
  "host_part (map AnswerOp xs) = []"
  "mail_part (map AnswerOp xs) = []"
  "answer_part (map AnswerOp xs) = xs"
  "candidate_part_of (map AnswerOp xs) = []"
  by (induction xs) simp_all

lemma CandidateOp_parts [simp]:
  "host_part (map CandidateOp xs) = []"
  "mail_part (map CandidateOp xs) = []"
  "answer_part (map CandidateOp xs) = []"
  "candidate_part_of (map CandidateOp xs) = xs"
  by (induction xs) simp_all

lemma exec_parts:
  "exec registry_step (host_part ops) (swHosts sw) = Some h \<Longrightarrow>
   exec mail_step (mail_part ops) (swMail sw) = Some m \<Longrightarrow>
   exec (relay_step ans_answererID) (answer_part ops) (swAnswers sw) = Some q \<Longrightarrow>
   exec (relay_step ice_answererID) (candidate_part_of ops) (swCandidates sw) = Some c \<Longrightarrow>
     exec switch_step ops sw = Some \<lparr>swHosts = h, swMail = m, swAnswers = q, swCandidates = c\<rparr>"
proof (induction ops arbitrary: sw)
  case Nil
  then show ?case by simp
next
  case (Cons op ops)
  then show ?case by (cases op) (auto split: option.splits)
qed

section \<open>One step of the server\<close>

definition switch_inv :: "signal_server \<Rightarrow> bool" where
  "switch_inv S \<longleftrightarrow>
     same_bus S \<and> hs_inv (sigHost S) \<and> hosts_own.owned (sigAns S) \<and>
     off_answers.owned (sigOff S) \<and> off_ices.owned (sigOff S)"

lemma added_hosts:
  "exec hs_step (map (\<lambda>h. Manager (NewHost h)) hosts) hs \<noteq> None \<Longrightarrow>
     abstract_trace hs_step registry_ops (map (\<lambda>h. Manager (NewHost h)) hosts) hs = map AddHost hosts"
  by (induction hosts arbitrary: hs) (auto simp: registry_ops_def split: option.splits)

lemma forwarded_one: "forwarded pc = [] \<or> (\<exists>pkt. forwarded pc = [pkt])"
  by (auto simp: forwarded_def split: option.splits send_ice_pc.splits ice_worker.splits)

lemma host_ops:
  assumes "sig_step l S = Some S'"
  shows "host_part (switch_ops l S) = abstract_trace hs_step registry_ops (host_proj l S) (sigHost S)"
  using assms
  by (cases "(l, S)" rule: switch_ops.cases)
    (auto simp: added_hosts registry_ops_def simp flip: map_map
      split: option.splits send_answer_pc.splits)

lemma mail_bus_none [simp]: "abstract_trace ans_step mail_ops (map IceToAnsArrives pkts) s = []"
  by (induction pkts arbitrary: s) (simp_all split: option.splits)

lemma relay_bus_none [simp]: "abstract_trace off_step relay_ops (map IceArrives pkts) s = []"
  by (induction pkts arbitrary: s) (simp_all split: option.splits)

lemma mail_off_none [simp]: "abstract_trace ans_step mail_ops (ans_proj (OffDoes l) S) t = []"
  by (cases "(OffDoes l, S)" rule: ans_proj.cases) (auto split: option.splits)

lemma mail_part_ops:
  assumes "sig_step l S = Some S'"
  shows "mail_part (switch_ops l S) = abstract_trace ans_step mail_ops (ans_proj l S) (sigAns S)"
  using assms
  by (cases "(l, S)" rule: switch_ops.cases)
    (auto simp flip: map_map split: option.splits send_answer_pc.splits)

lemma answer_ops:
  assumes "sig_step l S = Some S'"
  shows "answer_part (switch_ops l S) = abstract_trace off_step relay_ops (off_proj l S) (sigOff S)"
  using assms
  by (cases "(l, S)" rule: switch_ops.cases)
    (auto simp flip: map_map split: option.splits send_answer_pc.splits)

lemma candidate_ops_forwarded [simp]:
  "abstract_trace off_step candidate_ops (map IceArrives (forwarded pc)) s = map Arrive (forwarded pc)"
  using forwarded_one [of pc] by (auto split: option.splits)

lemma candidate_part_ops:
  assumes "sig_step l S = Some S'"
  shows "candidate_part_of (switch_ops l S) = abstract_trace off_step candidate_ops (off_proj l S) (sigOff S)"
  using assms
  by (cases "(l, S)" rule: switch_ops.cases)
    (auto simp flip: map_map split: option.splits send_answer_pc.splits)

lemma switch_inv_step:
  assumes inv: "switch_inv S" and step: "sig_step l S = Some S'"
  shows "switch_inv S'"
proof -
  have bus: "same_bus S" using inv by (simp add: switch_inv_def)
  show ?thesis
    using inv same_bus_step [OF bus step] registry_sim.exec_good [OF host_view.sim_step [OF _ step]]
      mail_sim.exec_good [OF ans_proj_step [OF bus step]]
      relay_sim.exec_good [OF off_proj_step [OF bus step]]
      candidate_relay.exec_good [OF off_proj_step [OF bus step]]
    by (simp add: switch_inv_def)
qed

lemma switch_sim_step:
  assumes inv: "switch_inv S" and step: "sig_step l S = Some S'"
  shows "exec switch_step (switch_ops l S) (switch_of S) = Some (switch_of S')"
proof -
  have bus: "same_bus S" using inv by (simp add: switch_inv_def)
  have "exec registry_step (host_part (switch_ops l S)) (registry_of (sigHost S)) = Some (registry_of (sigHost S'))"
    unfolding host_ops [OF step]
    by (rule registry_sim.exec_sim) (use host_view.sim_step [OF _ step] inv in \<open>simp_all add: switch_inv_def\<close>)
  moreover have "exec mail_step (mail_part (switch_ops l S)) (mail_of (sigAns S)) = Some (mail_of (sigAns S'))"
    unfolding mail_part_ops [OF step]
    by (rule mail_sim.exec_sim) (use ans_proj_step [OF bus step] inv in \<open>simp_all add: switch_inv_def\<close>)
  moreover have "exec (relay_step ans_answererID) (answer_part (switch_ops l S)) (answers_in_flight (sigOff S)) =
      Some (answers_in_flight (sigOff S'))"
    unfolding answer_ops [OF step]
    by (rule relay_sim.exec_sim) (use off_proj_step [OF bus step] inv in \<open>simp_all add: switch_inv_def\<close>)
  moreover have "exec (relay_step ice_answererID) (candidate_part_of (switch_ops l S)) (candidates_in_flight (sigOff S)) =
      Some (candidates_in_flight (sigOff S'))"
    unfolding candidate_part_ops [OF step]
    by (rule candidate_relay.exec_sim) (use off_proj_step [OF bus step] inv in \<open>simp_all add: switch_inv_def\<close>)
  ultimately have "exec switch_step (switch_ops l S) (switch_of S) =
      Some \<lparr>swHosts = registry_of (sigHost S'), swMail = mail_of (sigAns S'),
        swAnswers = answers_in_flight (sigOff S'), swCandidates = candidates_in_flight (sigOff S')\<rparr>"
    by (intro exec_parts) (simp_all add: switch_of_def)
  then show ?thesis by (simp add: switch_of_def)
qed

interpretation switch_sim: simulation sig_step switch_step switch_of switch_ops switch_inv
  by unfold_locales (fact switch_inv_step switch_sim_step)+

lemma switch_of_Serve: "switch_of Serve = empty_switchboard"
proof -
  have "registry_of NewHostServer = \<lparr>regHosts = Map.empty, regCrashed = False\<rparr>"
    by (simp add: registry_of_def status_of_def NewHostServer_def fun_eq_iff)
  moreover have "mail_of (NewAnswererServer new_bus) = (\<lambda>_. {#})"
    by (simp add: mail_of_def in_transit_def NewAnswererServer_def in_router_def fun_eq_iff)
  ultimately show ?thesis
    by (simp add: switch_of_def empty_switchboard_def candidates_start) (simp add: new_bus_def make_chan_def)
qed

lemma switch_inv_Serve: "switch_inv Serve"
  by (simp add: switch_inv_def same_bus_Serve hsinv.start_holds hosts_own.start_holds
      off_answers.start_holds off_ices.start_holds)

section \<open>Properties\<close>

text \<open>
  C3: the whole server implements the switchboard. In every run, with any interleaving of all handlers,
  routers and timers of the four services, the operations its steps perform are a run of the switchboard
  from the empty one to the one the server's maps, channels and goroutines stand for: hosts are added,
  activated and collected as in a registry, each offer is posted into the box of its host and fetched
  from it, and answers and candidates leave their queue from its head, delivered to the answerer id
  they carry or discarded.
\<close>

theorem server_refines_switchboard:
  assumes "exec sig_step ls Serve = Some S"
  shows "exec switch_step (abstract_trace sig_step switch_ops ls Serve) empty_switchboard = Some (switch_of S)"
  using switch_sim.exec_sim [OF assms switch_inv_Serve] by (simp add: switch_of_Serve)

abbreviation demo_signalling :: "sig_label list" where
  "demo_signalling \<equiv> listen_run ''h'' ''jwt'' @ offer_phase ''h'' ''sdp'' ''a1'' ''o1'' @
     answer_phase ''a1'' ''ok'' @ host_candidate_phase ''a1'' ''c1''"

abbreviation demo_ops :: "switch_op list" where
  "demo_ops \<equiv>
     [HostOp (AddHost ''h''), HostOp (ActivateHost ''h''), MailOp (Post (off_h ''a1'')),
      MailOp (Fetch ''h'' (off_h ''a1'')), AnswerOp (Arrive \<lparr>ans_answererID = ''a1'', ans_answer = ''ok''\<rparr>),
      AnswerOp (Deliver ''a1'' \<lparr>ans_answererID = ''a1'', ans_answer = ''ok''\<rparr>),
      CandidateOp (Arrive (packet_a1 ''c1'')), CandidateOp (Deliver ''a1'' (packet_a1 ''c1''))]"

theorem server_refines_switchboard_witness:
  "\<exists>S. exec sig_step demo_signalling Serve = Some S \<and>
     exec switch_step demo_ops empty_switchboard = Some (switch_of S)"
proof -
  obtain S where S: "exec sig_step demo_signalling Serve = Some S"
    by (simp add: phases sig_eval)
  have "abstract_trace sig_step switch_ops demo_signalling Serve = demo_ops"
    by (simp add: phases sig_eval registry_ops_def forwarded_def)
  with server_refines_switchboard [OF S] S show ?thesis by auto
qed

end
