(* ===== verification/HostOffers.thy ===== *)
theory HostOffers
  imports HostServerProps
begin

text \<open>
  Counting offers in the host registry of \<^verbatim>\<open>server/host.go\<close>. Each \<open>handleNewOffer\<close> starts at most
  one notifier, each notifier leaves at most one signal in the client it was started for, and each
  signal wakes one listener of that client. The balance is an invariant of all runs; it gives that
  listeners are only woken by offers for their own host, and how many offers it takes before a
  host is closed and its idle check crashes the manager.
\<close>

section \<open>Offers, signals on their way, wake-ups\<close>

definition announced :: "hs_label list \<Rightarrow> string list" where
  "announced ls = concat (map (\<lambda>l. case l of Manager (NewOffer h) \<Rightarrow> [h] | _ \<Rightarrow> []) ls)"

lemma announced_simps [simp]:
  "announced [] = []"
  "announced (ls @ ks) = announced ls @ announced ks"
  "announced (l # ls) = (case l of Manager (NewOffer h) \<Rightarrow> [h] | _ \<Rightarrow> []) @ announced ls"
  by (simp_all add: announced_def)

text \<open>The host a listener was called for, when it takes a signal.\<close>

fun woken :: "hs_label \<Rightarrow> host_server \<Rightarrow> string list" where
  "woken (Listen g RecvOffer) hs =
     (case listeners hs g of Some (ListenLoop h r) \<Rightarrow> [h] | _ \<Rightarrow> [])"
| "woken _ hs = []"

abbreviation wakeups :: "hs_label list \<Rightarrow> string list" where
  "wakeups ls \<equiv> abstract_trace hs_step woken ls NewHostServer"

definition signals_in :: "host_server \<Rightarrow> nat \<Rightarrow> nat" where
  "signals_in hs r = (case hsHeap hs r of None \<Rightarrow> 0 | Some c \<Rightarrow> length (chBuf (offerSig c)))"

definition notifying :: "string \<Rightarrow> host_server \<Rightarrow> nat \<Rightarrow> nat" where
  "notifying h hs i =
     (case notifiers hs i of Some (NotifySelect r k d) \<Rightarrow> if k = h then 1 else 0 | _ \<Rightarrow> 0)"

text \<open>What is on its way to a host, when \<open>own\<close> says which host a client was made for.\<close>

definition in_flight :: "(nat \<Rightarrow> string) \<Rightarrow> string \<Rightarrow> host_server \<Rightarrow> nat" where
  "in_flight own h hs =
     (\<Sum>r<hsNext hs. if own r = h then signals_in hs r else 0) + (\<Sum>i<hsNext hs. notifying h hs i)"

definition accounted :: "(nat \<Rightarrow> string) \<Rightarrow> string list \<Rightarrow> string list \<Rightarrow> host_server \<Rightarrow> bool" where
  "accounted own W A hs \<longleftrightarrow>
     (\<forall>r h. hs_holds hs r h \<longrightarrow> own r = h) \<and> (\<forall>i \<in> dom (notifiers hs). i < hsNext hs) \<and>
     (\<forall>h. count_list W h + in_flight own h hs \<le> count_list A h)"

lemma sum_change:
  fixes f f' :: "nat \<Rightarrow> nat"
  assumes "i < n" and "\<And>j. j \<noteq> i \<Longrightarrow> f' j = f j"
  shows "(\<Sum>j<n. f' j) + f i = (\<Sum>j<n. f j) + f' i"
proof -
  have "(\<Sum>j\<in>{..<n} - {i}. f' j) = (\<Sum>j\<in>{..<n} - {i}. f j)"
    by (rule sum.cong) (use assms(2) in auto)
  with assms(1) show ?thesis by (simp add: sum.remove [of "{..<n}" i])
qed

lemma in_flight_cong:
  assumes "hsNext hs' = hsNext hs" "notifiers hs' = notifiers hs" "signals_in hs' = signals_in hs"
  shows "in_flight own h hs' = in_flight own h hs"
  using assms by (simp add: in_flight_def notifying_def cong: if_cong)

lemma signals_in_upd:
  "signals_in (hs\<lparr>hsHeap := (hsHeap hs)(r \<mapsto> c)\<rparr>) =
     (signals_in hs)(r := length (chBuf (offerSig c)))"
  by (auto simp: signals_in_def fun_eq_iff)

lemma in_flight_signal:
  assumes "i < hsNext hs" "r < hsNext hs" "own r = k"
    and "notifiers hs i = Some (NotifySelect r k d)" "notifiers hs' = (notifiers hs)(i := None)"
    and "hsNext hs' = hsNext hs" "signals_in hs' = (signals_in hs)(r := Suc (signals_in hs r))"
  shows "in_flight own h hs' = in_flight own h hs"
proof -
  have "(\<Sum>j<hsNext hs. if own j = h then signals_in hs' j else 0) + (if own r = h then signals_in hs r else 0) =
      (\<Sum>j<hsNext hs. if own j = h then signals_in hs j else 0) + (if own r = h then signals_in hs' r else 0)"
    by (rule sum_change [OF assms(2)]) (simp add: assms(7))
  moreover have "(\<Sum>j<hsNext hs. notifying h hs' j) + notifying h hs i =
      (\<Sum>j<hsNext hs. notifying h hs j) + notifying h hs' i"
    by (rule sum_change [OF assms(1)]) (simp add: notifying_def assms(5))
  ultimately show ?thesis
    using assms(3-7) by (auto simp: in_flight_def notifying_def split: if_splits)
qed

lemma in_flight_timeout:
  assumes "i < hsNext hs" and "notifiers hs' = (notifiers hs)(i \<mapsto> NotifyClose k)"
    and "hsNext hs' = hsNext hs" "signals_in hs' = signals_in hs"
  shows "in_flight own h hs' \<le> in_flight own h hs"
proof -
  have "(\<Sum>j<hsNext hs. notifying h hs' j) \<le> (\<Sum>j<hsNext hs. notifying h hs j)"
    by (rule sum_mono) (simp add: notifying_def assms(2))
  with assms(3,4) show ?thesis by (simp add: in_flight_def cong: if_cong)
qed

lemma in_flight_taken:
  assumes "r < hsNext hs" "own r = k" "notifiers hs' = notifiers hs"
    and "hsNext hs' = hsNext hs" "signals_in hs = (signals_in hs')(r := Suc (signals_in hs' r))"
  shows "count_list [k] h + in_flight own h hs' = in_flight own h hs"
proof -
  have "(\<Sum>j<hsNext hs. if own j = h then signals_in hs j else 0) + (if own r = h then signals_in hs' r else 0) =
      (\<Sum>j<hsNext hs. if own j = h then signals_in hs' j else 0) + (if own r = h then signals_in hs r else 0)"
    by (rule sum_change [OF assms(1)]) (subst assms(5), simp)
  moreover have "signals_in hs r = Suc (signals_in hs' r)" by (subst assms(5)) simp
  ultimately show ?thesis
    using assms(2-4) by (auto simp: in_flight_def notifying_def split: if_splits)
qed

lemma heap_wf_fresh: "heap_wf hs \<Longrightarrow> hsNext hs \<le> r \<Longrightarrow> hsHeap hs r = None"
  unfolding heap_wf_def by (metis leD not_Some_eq)

lemma signals_in_none: "hsHeap hs r = None \<Longrightarrow> signals_in hs r = 0"
  by (simp add: signals_in_def)

lemma in_flight_offer:
  assumes "\<forall>i \<in> dom (notifiers hs). i < hsNext hs" and "heap_wf hs"
  shows "in_flight own h (handleNewOffer k hs) \<le> in_flight own h hs + count_list [k] h"
proof (cases "clients hs k")
  case (Some r)
  have fresh: "hsHeap hs (hsNext hs) = None"
    by (rule heap_wf_fresh [OF assms(2)]) simp
  let ?hs = "handleNewOffer k hs"
  have nxt: "hsNext ?hs = Suc (hsNext hs)" using Some by (simp add: handleNewOffer_def)
  have same: "signals_in ?hs = signals_in hs" by (simp add: signals_in_def fun_eq_iff)
  have "(\<Sum>i<hsNext hs. notifying h ?hs i) = (\<Sum>i<hsNext hs. notifying h hs i)"
    using Some by (intro sum.cong) (auto simp: notifying_def handleNewOffer_def)
  moreover have "notifying h ?hs (hsNext hs) = count_list [k] h"
    using Some by (simp add: notifying_def handleNewOffer_def)
  ultimately show ?thesis
    using fresh by (simp add: in_flight_def nxt same signals_in_none cong: if_cong)
qed (simp add: handleNewOffer_def)

lemma in_flight_register:
  assumes "\<forall>i \<in> dom (notifiers hs). i < hsNext hs" and "heap_wf hs"
  shows "in_flight (own(hsNext hs := k)) h (registerHost k hs) = in_flight own h hs"
proof -
  let ?hs = "registerHost k hs"
  have fresh: "hsHeap hs (Suc (hsNext hs)) = None" "hsHeap hs (hsNext hs) = None"
    by (simp_all add: heap_wf_fresh [OF assms(2)])
  have idle: "notifiers hs (Suc (hsNext hs)) = None" "notifiers hs (hsNext hs) = None"
    using assms(1) by (metis domIff not_less_eq not_less_iff_gr_or_eq)+
  have s: "signals_in ?hs = signals_in hs"
    using fresh by (auto simp: signals_in_def registerHost_def fun_eq_iff)
  have "(\<Sum>r<hsNext hs. if (own(hsNext hs := k)) r = h then signals_in hs r else 0) =
      (\<Sum>r<hsNext hs. if own r = h then signals_in hs r else 0)"
    by (rule sum.cong) auto
  moreover have "(\<Sum>i<hsNext hs. notifying h ?hs i) = (\<Sum>i<hsNext hs. notifying h hs i)"
    by (simp add: notifying_def)
  ultimately show ?thesis
    using fresh idle unfolding in_flight_def s
    by (simp add: signals_in_none) (simp add: notifying_def)
qed

lemma accounted_step:
  assumes acc: "accounted own W A hs" and inv: "hs_inv hs" and step: "hs_step l hs = Some hs'"
  shows "\<exists>own'. accounted own' (W @ woken l hs) (A @ announced [l]) hs'"
proof -
  have held: "own r = h" if "hs_holds hs r h" for r h using acc that by (simp add: accounted_def)
  have below: "r < hsNext hs" if "hs_holds hs r h" for r h using hs_inv_client [OF inv that] by blast
  have keys: "\<forall>i \<in> dom (notifiers hs). i < hsNext hs" using acc by (simp add: accounted_def)
  have count: "count_list W h + in_flight own h hs \<le> count_list A h" for h
    using acc by (simp add: accounted_def)
  have wf: "heap_wf hs" using inv by (simp add: hs_inv_def)
  have held': "own r = h" if "hs_holds hs' r h" "\<And>k. l \<noteq> Manager (NewHost k)" for r h
    using hs_holds_step [OF hs_inv_requests [OF inv] step that(1)] that(2) held by blast
  have same: "\<exists>own'. accounted own' (W @ woken l hs) (A @ announced [l]) hs'"
    if "woken l hs = []" "announced [l] = []" "\<And>k. l \<noteq> Manager (NewHost k)"
      "notifiers hs' = notifiers hs" "hsNext hs' = hsNext hs" "signals_in hs' = signals_in hs"
    using held' [OF _ that(3)] keys count that in_flight_cong [OF that(5,4,6)]
    unfolding accounted_def by (intro exI [of _ own]) simp
  from step show ?thesis
  proof (cases rule: hs_stepE)
    case (new_host k)
    have "(own(hsNext hs := k)) r = h" if "hs_holds hs' r h" for r h
      using hs_holds_step [OF hs_inv_requests [OF inv] step that] new_host(1) held below by fastforce
    moreover have "i < hsNext hs'" if "i \<in> dom (notifiers hs')" for i
    proof -
      have "i < hsNext hs" using keys that by (simp add: new_host(2))
      then show ?thesis by (simp add: new_host(2))
    qed
    moreover have "count_list W h + in_flight (own(hsNext hs := k)) h hs' \<le> count_list A h" for h
      using count by (simp add: new_host(2) in_flight_register [OF keys wf])
    ultimately have "accounted (own(hsNext hs := k)) W A hs'" by (simp add: accounted_def)
    with new_host(1) show ?thesis by auto
  next
    case (new_offer k)
    have "i < hsNext hs'" if "i \<in> dom (notifiers hs')" for i
      using keys that new_offer(2)
      by (auto simp: handleNewOffer_def less_Suc_eq split: option.splits if_splits)
    moreover have "count_list W h + in_flight own h hs' \<le> count_list (A @ [k]) h" for h
      using count [of h] in_flight_offer [OF keys wf, of own h k] by (simp add: new_offer(2))
    ultimately have "accounted own W (A @ [k]) hs'"
      using held' new_offer(1) by (simp add: accounted_def)
    with new_offer(1) show ?thesis by auto
  next
    case (signal i r k d c ch)
    then have h: "hs_holds hs r k" by (auto simp: hs_holds_def)
    have "signals_in hs' = (signals_in hs)(r := Suc (signals_in hs r))"
      using signal(3,4,5) by (auto simp: signals_in_def chan_put_Some_iff fun_eq_iff)
    then have "in_flight own h' hs' = in_flight own h' hs" for h'
      using signal keys by (intro in_flight_signal [where i = i and r = r and k = k and d = d])
          (auto intro: below [OF h] held [OF h])
    with count keys held' signal have "accounted own W A hs'" by (auto simp: accounted_def)
    with signal(1) show ?thesis by auto
  next
    case (timeout i r k d c)
    then have i: "i < hsNext hs" using keys by blast
    have "signals_in hs' = signals_in hs" using timeout by (simp add: signals_in_def fun_eq_iff)
    then have "in_flight own h' hs' \<le> in_flight own h' hs" for h'
      using timeout i by (intro in_flight_timeout) simp_all
    with count have "count_list W h' + in_flight own h' hs' \<le> count_list A h'" for h'
      by (meson add_le_cancel_left le_trans)
    with keys i held' timeout have "accounted own W A hs'" by (auto simp: accounted_def)
    with timeout(1) show ?thesis by auto
  next
    case (closing i k ch)
    then have "in_flight own h' hs' = in_flight own h' hs" for h'
      by (auto simp: in_flight_def signals_in_def notifying_def cong: if_cong intro!: sum.cong)
    with count keys held' closing have "accounted own W A hs'" by (auto simp: accounted_def)
    with closing(1) show ?thesis by auto
  next
    case (listen g ev)
    from listen(2) show ?thesis
    proof (cases rule: ListenNewOffer_cases)
      case (offer k r c ch)
      then have h: "hs_holds hs r k" by (auto simp: hs_holds_def)
      have "signals_in hs = (signals_in hs')(r := Suc (signals_in hs' r))"
        using offer by (auto simp: signals_in_def chan_take_Some_iff fun_eq_iff)
      then have "count_list [k] h' + in_flight own h' hs' = in_flight own h' hs" for h'
        using offer by (intro in_flight_taken [where r = r]) (auto intro: below [OF h] held [OF h])
      then have "count_list (W @ [k]) h' + in_flight own h' hs' \<le> count_list A h'" for h'
        using count [of h'] by (simp add: algebra_simps)
      with keys held' offer listen(1) have "accounted own (W @ [k]) A hs'"
        by (auto simp: accounted_def)
      with offer listen(1) show ?thesis by auto
    next
      case (activate k r c)
      then have "signals_in hs' = signals_in hs" by (auto simp: signals_in_def fun_eq_iff)
      with activate listen(1) show ?thesis by (intro same) simp_all
    next
      case (stop k r c ch)
      then have "signals_in hs' = signals_in hs" by (auto simp: signals_in_def fun_eq_iff)
      with stop listen(1) show ?thesis by (intro same) simp_all
    qed (use listen(1) same in \<open>simp_all add: signals_in_def fun_eq_iff\<close>)
  qed (use same in \<open>simp_all add: signals_in_def fun_eq_iff\<close>)
qed

lemma accounted_run:
  "exec hs_step ls NewHostServer = Some hs \<Longrightarrow> \<exists>own. accounted own (wakeups ls) (announced ls) hs"
proof (induction rule: exec_trace_induct)
  case start
  show ?case
    by (auto simp: accounted_def hs_holds_def in_flight_def NewHostServer_def)
next
  case (step ls l t u)
  have "wakeups (ls @ [l]) = wakeups ls @ woken l t"
    using step.hyps by (simp add: abstract_trace_append)
  with step.IH accounted_step [OF _ hs_run_inv [OF step.hyps(1)] step.hyps(2)] show ?case
    by auto
qed

section \<open>Listeners are woken for their own host\<close>

text \<open>
  C25: isolation of hosts. In every run, ids that are registered again after a deletion included,
  the listeners that were called for a host have altogether taken no more signals than there were
  offers announced for this very host: an offer for another host never wakes them, and one offer
  wakes only one of them.
\<close>

theorem offers_reach_only_their_host:
  assumes "exec hs_step ls NewHostServer = Some hs"
  shows "count_list (wakeups ls) h \<le> count_list (announced ls) h"
  using accounted_run [OF assms] unfolding accounted_def by (meson add_leD1)

theorem offers_reach_only_their_host_witness:
  "\<exists>hs. exec hs_step (listening_run @ [Manager (NewOffer ''h''), Manager (NewOffer ''k''), NotifySignal 2,
        Listen 0 RecvOffer]) NewHostServer = Some hs \<and>
     listeners hs 0 = Some (ListenSending ''h'' 0) \<and>
     count_list (wakeups (listening_run @ [Manager (NewOffer ''h''), Manager (NewOffer ''k''),
        NotifySignal 2, Listen 0 RecvOffer])) ''h'' \<le> 1"
proof -
  let ?ls = "listening_run @ [Manager (NewOffer ''h''), Manager (NewOffer ''k''), NotifySignal 2,
        Listen 0 RecvOffer]"
  obtain hs where hs: "exec hs_step ?ls NewHostServer = Some hs"
    and l: "listeners hs 0 = Some (ListenSending ''h'' 0)"
    by (simp add: listening_run_def hs_eval)
  have "announced ?ls = [''h'', ''k'']" by (simp add: listening_run_def)
  with offers_reach_only_their_host [OF hs, of "''h''"] hs l show ?thesis by simp
qed

section \<open>How many offers it takes to crash the manager\<close>

text \<open>No host has been, or is about to be, given to the manager for deletion.\<close>

definition no_close :: "host_server \<Rightarrow> bool" where
  "no_close hs \<longleftrightarrow> chBuf (closeHostCh hs) = [] \<and> (\<forall>i h. notifiers hs i \<noteq> Some (NotifyClose h))"

lemma full_client_has_offers:
  assumes acc: "accounted own W A hs" and inv: "hs_inv hs"
    and i: "notifiers hs i = Some (NotifySelect r h d)"
    and c: "hsHeap hs r = Some c" "chan_put (offerSig c) () = None"
  shows "1024 < count_list A h"
proof -
  have held: "hs_holds hs r h" using i by (auto simp: hs_holds_def)
  then have own: "own r = h" and r: "r < hsNext hs" and idx: "i < hsNext hs"
    using acc i hs_inv_client [OF inv held] by (auto simp: accounted_def)
  have "client_wf c" using hs_inv_client [OF inv held] c(1) by auto
  then have "signals_in hs r = 1024"
    using c by (simp add: client_wf_def signals_in_def chan_put_def chan_send_def split: if_splits)
  then have "1024 \<le> (\<Sum>q<hsNext hs. if own q = h then signals_in hs q else 0)"
    using member_le_sum [of r "{..<hsNext hs}" "\<lambda>q. if own q = h then signals_in hs q else 0"] r own
    by simp
  moreover have "1 \<le> (\<Sum>j<hsNext hs. notifying h hs j)"
    using member_le_sum [of i "{..<hsNext hs}" "notifying h hs"] idx i
    by (simp add: notifying_def)
  ultimately have "1025 \<le> in_flight own h hs" by (simp add: in_flight_def)
  moreover have "count_list W h + in_flight own h hs \<le> count_list A h"
    using acc by (simp add: accounted_def)
  ultimately show ?thesis by simp
qed

lemma no_close_step:
  assumes "no_close hs" and "hs_step l hs = Some hs'"
    and "\<And>i r h d c. notifiers hs i = Some (NotifySelect r h d) \<Longrightarrow> hsHeap hs r = Some c \<Longrightarrow>
      chan_put (offerSig c) () \<noteq> None"
  shows "no_close hs' \<and> l \<noteq> Manager CloseHost"
  using assms(2)
proof (cases rule: hs_stepE)
  case (timeout i r h d c)
  with assms(3) show ?thesis by blast
next
  case (listen g ev)
  from listen(2) assms(1) listen(1) show ?thesis
    by (cases rule: ListenNewOffer_cases) (auto simp: no_close_def)
qed (use assms(1) in \<open>auto simp: no_close_def chan_take_Some_iff handleNewOffer_def split: option.splits\<close>)

lemma no_close_run:
  "exec hs_step ls NewHostServer = Some hs \<Longrightarrow> \<forall>h. count_list (announced ls) h \<le> 1024 \<Longrightarrow>
     no_close hs \<and> Manager CloseHost \<notin> set ls"
proof (induction rule: exec_trace_induct)
  case start
  show ?case by (simp add: no_close_def NewHostServer_def)
next
  case (step ls l t u)
  have few: "count_list (announced ls) h \<le> 1024" for h
    using step.prems by (metis add_leD1 announced_simps(2) count_list_append)
  with step.IH have IH: "no_close t" "Manager CloseHost \<notin> set ls" by auto
  obtain own where acc: "accounted own (wakeups ls) (announced ls) t"
    using accounted_run [OF step.hyps(1)] by blast
  have room: "chan_put (offerSig c) () \<noteq> None"
    if "notifiers t i = Some (NotifySelect r h d)" "hsHeap t r = Some c" for i r h d c
    using full_client_has_offers [OF acc hs_run_inv [OF step.hyps(1)] that] few [of h] by force
  from no_close_step [OF IH(1) step.hyps(2) room] IH(2) show ?case by auto
qed

text \<open>
  The bound is reached: 1025 offers for a host that does not listen, of which 1024 are signalled,
  and the deletion is served before the idle check.
\<close>

lemma many_offers:
  assumes "clients hs h = Some r" "\<not> hsCrashed hs"
  shows "exec hs_step (replicate n (Manager (NewOffer h))) hs =
     Some (hs\<lparr>notifiers := (\<lambda>i. if hsNext hs \<le> i \<and> i < hsNext hs + n
          then Some (NotifySelect r h (hsNow hs + HostClientIdleTimeout)) else notifiers hs i),
        hsNext := hsNext hs + n\<rparr>)"
  using assms
proof (induction n arbitrary: hs)
  case (Suc n)
  let ?t = "hs\<lparr>notifiers := (notifiers hs)(hsNext hs \<mapsto>
        NotifySelect r h (hsNow hs + HostClientIdleTimeout)), hsNext := Suc (hsNext hs)\<rparr>"
  have "hs_step (Manager (NewOffer h)) hs = Some ?t"
    using Suc.prems by (simp add: hs_step_def handleNewOffer_def)
  moreover have "exec hs_step (replicate n (Manager (NewOffer h))) ?t =
     Some (?t\<lparr>notifiers := (\<lambda>i. if hsNext ?t \<le> i \<and> i < hsNext ?t + n
          then Some (NotifySelect r h (hsNow ?t + HostClientIdleTimeout)) else notifiers ?t i),
        hsNext := hsNext ?t + n\<rparr>)"
    by (rule Suc.IH) (use Suc.prems in simp_all)
  ultimately show ?case by (auto simp: fun_eq_iff intro!: host_server.equality)
qed (auto simp: fun_eq_iff intro!: host_server.equality)

lemma many_signals:
  assumes "\<And>j. i \<le> j \<Longrightarrow> j < i + n \<Longrightarrow> \<exists>d. notifiers hs j = Some (NotifySelect r h d)"
    and "hsHeap hs r = Some c" "\<not> hsCrashed hs"
    and "\<not> chClosed (offerSig c)" "length (chBuf (offerSig c)) + n \<le> chCap (offerSig c)"
  shows "exec hs_step (map NotifySignal [i..<i + n]) hs =
     Some (hs\<lparr>hsHeap := (hsHeap hs)(r \<mapsto> c\<lparr>offerSig := (offerSig c)
            \<lparr>chBuf := chBuf (offerSig c) @ replicate n ()\<rparr>\<rparr>),
        notifiers := (\<lambda>j. if i \<le> j \<and> j < i + n then None else notifiers hs j)\<rparr>)"
  using assms
proof (induction n arbitrary: i hs c)
  case 0
  then show ?case by (auto simp: fun_eq_iff intro!: host_server.equality)
next
  case (Suc n)
  let ?c = "c\<lparr>offerSig := (offerSig c)\<lparr>chBuf := chBuf (offerSig c) @ [()]\<rparr>\<rparr>"
  let ?t = "hs\<lparr>hsHeap := (hsHeap hs)(r \<mapsto> ?c), notifiers := (notifiers hs)(i := None)\<rparr>"
  obtain d where "notifiers hs i = Some (NotifySelect r h d)" using Suc.prems(1) [of i] by auto
  then have first: "hs_step (NotifySignal i) hs = Some ?t"
    using Suc.prems by (simp add: hs_step_def notify_signal_def chan_put_def chan_send_def)
  have rest: "exec hs_step (map NotifySignal [Suc i..<Suc i + n]) ?t =
     Some (?t\<lparr>hsHeap := (hsHeap ?t)(r \<mapsto> ?c\<lparr>offerSig := (offerSig ?c)
            \<lparr>chBuf := chBuf (offerSig ?c) @ replicate n ()\<rparr>\<rparr>),
        notifiers := (\<lambda>j. if Suc i \<le> j \<and> j < Suc i + n then None else notifiers ?t j)\<rparr>)"
    by (rule Suc.IH) (use Suc.prems in simp_all)
  have "[i..<i + Suc n] = i # [Suc i..<Suc i + n]" by (simp add: upt_conv_Cons)
  with first rest show ?case by (auto simp: fun_eq_iff intro!: host_server.equality)
qed

definition signal_phase :: "hs_label list" where
  "signal_phase = map NotifySignal [2..<2 + 1024]"

definition crash_phase :: "hs_label list" where
  "crash_phase =
     [HostTick HostClientIdleTimeout, NotifyTimeout 1026, NotifyCloses 1026, IdleTimer 1,
      Manager CloseHost, Manager GcHost]"

definition flood_run :: "string \<Rightarrow> hs_label list" where
  "flood_run h =
     Manager (NewHost h) # replicate 1025 (Manager (NewOffer h)) @ signal_phase @ crash_phase"

lemma flood_run_crashes: "\<exists>hs. exec hs_step (flood_run h) NewHostServer = Some hs \<and> hsCrashed hs"
proof -
  let ?s = "registerHost h NewHostServer"
  let ?n = "\<lambda>i::nat. if 2 \<le> i \<and> i < 1027
      then Some (NotifySelect 0 h HostClientIdleTimeout) else None"
  let ?t = "?s\<lparr>notifiers := ?n, hsNext := 1027\<rparr>"
  let ?c = "\<lparr>hcStatus = hostClientStatusIdle, offerSig = make_chan 1024, stopListeningNewOffer = make_chan 1\<rparr>"
  let ?full = "?c\<lparr>offerSig := (make_chan 1024)\<lparr>chBuf := replicate 1024 ()\<rparr>\<rparr>"
  let ?u = "?t\<lparr>hsHeap := (hsHeap ?t)(0 \<mapsto> ?full),
      notifiers := (\<lambda>j. if 2 \<le> j \<and> j < 2 + 1024 then None else ?n j)\<rparr>"
  have start: "hs_step (Manager (NewHost h)) NewHostServer = Some ?s"
    by (simp add: hs_step_def NewHostServer_def)
  have offers: "exec hs_step (replicate 1025 (Manager (NewOffer h))) ?s = Some ?t"
    by (subst many_offers [where r = 0]) (auto simp: NewHostServer_def registerHost_def fun_eq_iff)
  have signals: "exec hs_step signal_phase ?t = Some ?u"
    unfolding signal_phase_def
    by (subst many_signals [where r = 0 and h = h and c = ?c])
      (auto simp: NewHostServer_def registerHost_def fun_eq_iff)
  have "\<exists>hs. exec hs_step crash_phase ?u = Some hs \<and> hsCrashed hs"
    by (simp add: crash_phase_def hs_step_def NewHostServer_def registerHost_def idle_timer_def chkHostIdle_def
        notify_timeout_def notify_close_def deleteHost_def
        HostClientIdleTimeout_def chan_put_def chan_send_def chan_take_def chan_recv_def make_chan_def)
  with start offers signals show ?thesis by (simp add: flood_run_def exec_append)
qed

lemma flood_run_counts:
  "registrations (flood_run h) = [h]" "announced (flood_run h) = replicate 1025 h"
proof -
  have offers: "registrations (replicate n (Manager (NewOffer h))) = []"
    "announced (replicate n (Manager (NewOffer h))) = replicate n h" for n
    by (induction n) simp_all
  have signals: "registrations (map NotifySignal js) = []" "announced (map NotifySignal js) = []" for js
    by (induction js) simp_all
  show "registrations (flood_run h) = [h]" "announced (flood_run h) = replicate 1025 h"
    unfolding flood_run_def signal_phase_def crash_phase_def
    by (simp_all only: registrations_simps announced_simps offers signals) simp_all
qed

text \<open>
  C24: what it takes to crash the manager. If every id is registered at most once (ids are fresh
  uuids), a run in which the manager dereferences a missing client has announced at least 1025
  offers for one host: \<open>chkHostIdle\<close> misses a host only after \<open>deleteHost\<close>, which needs a notifier
  that found the 1024 slots of \<open>offerSig\<close> full for five seconds. And 1025 are enough: for every id
  there is a run that registers just this host, once, announces 1025 offers for it, and crashes,
  because the deletion is served before the idle check.
\<close>

theorem crash_takes_1025_offers:
  "(\<forall>ls hs. exec hs_step ls NewHostServer = Some hs \<longrightarrow> distinct (registrations ls) \<longrightarrow> hsCrashed hs \<longrightarrow>
      (\<exists>h. 1025 \<le> count_list (announced ls) h)) \<and>
   (\<forall>h. \<exists>ls hs. exec hs_step ls NewHostServer = Some hs \<and> registrations ls = [h] \<and>
      announced ls = replicate 1025 h \<and> hsCrashed hs)"
proof (rule conjI; intro allI impI)
  fix ls hs
  assume run: "exec hs_step ls NewHostServer = Some hs" and reg: "distinct (registrations ls)"
    and crash: "hsCrashed hs"
  show "\<exists>h. 1025 \<le> count_list (announced ls) h"
  proof (rule ccontr)
    assume "\<nexists>h. 1025 \<le> count_list (announced ls) h"
    then have "\<not> 1025 \<le> count_list (announced ls) h" for h by blast
    then have "count_list (announced ls) h < Suc 1024" for h by (simp add: not_le)
    then have few: "\<forall>h. count_list (announced ls) h \<le> 1024" by (simp only: less_Suc_eq_le) blast
    from registry_run_safe [OF run reg] no_close_run [OF run few] crash show False by blast
  qed
next
  fix h
  obtain hs where "exec hs_step (flood_run h) NewHostServer = Some hs" "hsCrashed hs"
    using flood_run_crashes by blast
  then show "\<exists>ls hs. exec hs_step ls NewHostServer = Some hs \<and> registrations ls = [h] \<and>
      announced ls = replicate 1025 h \<and> hsCrashed hs"
    using flood_run_counts by blast
qed

theorem crash_takes_1025_offers_witness:
  "\<exists>ls hs. exec hs_step ls NewHostServer = Some hs \<and> hsCrashed hs \<and> distinct (registrations ls) \<and>
     (\<exists>h. 1025 \<le> count_list (announced ls) h)"
proof -
  obtain ls hs where "exec hs_step ls NewHostServer = Some hs" "hsCrashed hs"
    "registrations ls = [''h'']"
    using crash_takes_1025_offers by blast
  moreover from this have "distinct (registrations ls)" by simp
  moreover from calculation have "\<exists>h. 1025 \<le> count_list (announced ls) h"
    using conjunct1 [OF crash_takes_1025_offers] by blast
  ultimately show ?thesis by blast
qed

end
