(* ===== verification/Base64.thy ===== *)
theory Base64
  imports Prelude "HOL-Library.Word"
begin

text \<open>
  The base64 encoding with the alphabet for URLs and with padding, \<open>base64.URLEncoding\<close> of Go's
  standard library, which the prototypes under \<^verbatim>\<open>cmd/_bak\<close> use to pass descriptions and candidates
  through a terminal. \<open>EncodeToString\<close> and \<open>DecodeString\<close> follow the library: 64-bit values of three
  bytes and four digits, line breaks in the input skipped, surplus bits of the last digit ignored,
  and the bytes before an error returned with it.
\<close>

unbundle bit_operations_syntax

section \<open>The alphabet\<close>

type_synonym byte = "8 word"

definition alphabet :: string where
  "alphabet = ''ABCDEFGHIJKLMNOPQRSTUVWXYZabcdefghijklmnopqrstuvwxyz0123456789-_''"

definition encode_digit :: "64 word \<Rightarrow> char" where
  "encode_digit v = alphabet ! unat (v AND 0x3F)"

definition decode_map :: "char \<rightharpoonup> 64 word" where
  "decode_map c = map_of (zip alphabet (map of_nat [0..<64])) c"

lemma length_alphabet: "length alphabet = 64"
  by (simp add: alphabet_def)

lemma distinct_alphabet: "distinct alphabet"
  by (simp add: alphabet_def)

lemma pad_not_in_alphabet: "CHR ''='' \<notin> set alphabet"
  by (simp add: alphabet_def)

lemma line_breaks_not_in_alphabet: "CHR 0x0A \<notin> set alphabet" "CHR 0x0D \<notin> set alphabet"
  by (simp_all add: alphabet_def)

lemma digit_bound: "unat (v AND 0x3F :: 64 word) < 64"
proof -
  have "unat (v AND 0x3F :: 64 word) \<le> unat (0x3F :: 64 word)"
    by (rule word_and_le1 [THEN word_le_nat_alt [THEN iffD1]])
  then show ?thesis by simp
qed

lemma encode_digit_in: "encode_digit v \<in> set alphabet"
  by (simp add: encode_digit_def length_alphabet digit_bound)

lemma decode_encode_digit: "decode_map (encode_digit v) = Some (v AND 0x3F)"
proof -
  have "decode_map (alphabet ! i) = Some (of_nat i)" if "i < 64" for i
    unfolding decode_map_def
    using that map_of_zip_nth [of alphabet "map of_nat [0..<64] :: 64 word list" i]
    by (simp add: length_alphabet distinct_alphabet)
  from this [OF digit_bound] show ?thesis by (simp add: encode_digit_def)
qed

section \<open>Encoding\<close>

definition group_value :: "byte \<Rightarrow> byte \<Rightarrow> byte \<Rightarrow> 64 word" where
  "group_value a b c = push_bit 16 (ucast a) OR push_bit 8 (ucast b) OR ucast c"

fun EncodeToString :: "byte list \<Rightarrow> string" where
  "EncodeToString (a # b # c # rest) =
     (let val = group_value a b c
      in encode_digit (drop_bit 18 val) # encode_digit (drop_bit 12 val) #
         encode_digit (drop_bit 6 val) # encode_digit val # EncodeToString rest)"
| "EncodeToString [a, b] =
     (let val = group_value a b 0
      in [encode_digit (drop_bit 18 val), encode_digit (drop_bit 12 val),
          encode_digit (drop_bit 6 val), CHR ''=''])"
| "EncodeToString [a] =
     (let val = group_value a 0 0
      in [encode_digit (drop_bit 18 val), encode_digit (drop_bit 12 val), CHR ''='', CHR ''=''])"
| "EncodeToString [] = []"

section \<open>Decoding\<close>

definition digits_value :: "64 word \<Rightarrow> 64 word \<Rightarrow> 64 word \<Rightarrow> 64 word \<Rightarrow> 64 word" where
  "digits_value p q r s = push_bit 18 p OR push_bit 12 q OR push_bit 6 r OR s"

text \<open>The first \<open>n\<close> bytes of the value.\<close>

definition value_bytes :: "nat \<Rightarrow> 64 word \<Rightarrow> byte list" where
  "value_bytes n val = take n [ucast (drop_bit 16 val), ucast (drop_bit 8 val), ucast val]"

text \<open>
  The quanta of an input without line breaks: the bytes decoded, and whether the input is corrupt.
  After padding, anything that follows makes it corrupt, but the bytes before count.
\<close>

fun decode_quanta :: "string \<Rightarrow> byte list \<times> bool" where
  "decode_quanta [] = ([], False)"
| "decode_quanta (c0 # c1 # c2 # c3 # rest) =
     (case (decode_map c0, decode_map c1, decode_map c2, decode_map c3) of
        (Some p, Some q, Some r, Some s) \<Rightarrow>
          (case decode_quanta rest of
             (bs, err) \<Rightarrow> (value_bytes 3 (digits_value p q r s) @ bs, err))
      | (Some p, Some q, Some r, None) \<Rightarrow>
          if c3 = CHR ''='' then (value_bytes 2 (digits_value p q r 0), rest \<noteq> []) else ([], True)
      | (Some p, Some q, None, _) \<Rightarrow>
          if c2 = CHR ''='' \<and> c3 = CHR ''=''
          then (value_bytes 1 (digits_value p q 0 0), rest \<noteq> []) else ([], True)
      | _ \<Rightarrow> ([], True))"
| "decode_quanta _ = ([], True)"

definition DecodeString :: "string \<Rightarrow> byte list \<times> bool" where
  "DecodeString s = decode_quanta (filter (\<lambda>c. c \<noteq> CHR 0x0A \<and> c \<noteq> CHR 0x0D) s)"

section \<open>Round trip\<close>

lemma join_bits:
  fixes v :: "'a::len word"
  shows "push_bit n (take_bit m (drop_bit n v)) OR take_bit n v = take_bit (n + m) v"
proof (rule bit_word_eqI)
  fix k assume "k < LENGTH('a)"
  then show "bit (push_bit n (take_bit m (drop_bit n v)) OR take_bit n v) k = bit (take_bit (n + m) v) k"
    by (cases "k < n") (auto simp: bit_simps)
qed

lemma low_digit: "v AND 0x3F = take_bit 6 (v :: 64 word)"
  by (simp add: take_bit_eq_mask mask_eq_exp_minus_1)

lemma digits_of_value:
  "digits_value (drop_bit 18 v AND 0x3F) (drop_bit 12 v AND 0x3F) (drop_bit 6 v AND 0x3F) (v AND 0x3F) =
     take_bit 24 v"
  using join_bits [of 18 6 v] join_bits [of 12 6 v] join_bits [of 6 6 v]
  by (simp add: digits_value_def low_digit or.assoc)

lemma group_byte0: "ucast (drop_bit 16 (group_value a b c)) = a"
  by (rule bit_word_eqI) (auto simp: group_value_def bit_simps dest: bit_imp_le_length)

lemma group_byte1: "ucast (drop_bit 8 (group_value a b c)) = b"
  by (rule bit_word_eqI) (auto simp: group_value_def bit_simps dest: bit_imp_le_length)

lemma group_byte2: "ucast (group_value a b c) = c"
  by (rule bit_word_eqI) (auto simp: group_value_def bit_simps dest: bit_imp_le_length)

lemma group_take: "take_bit 24 (group_value a b c) = group_value a b c"
proof (rule bit_word_eqI)
  fix k
  show "bit (take_bit 24 (group_value a b c)) k = bit (group_value a b c) k"
    using bit_imp_le_length [of a "k - 16"] bit_imp_le_length [of b "k - 8"] bit_imp_le_length [of c k]
    by (auto simp: group_value_def bit_simps)
qed

lemma value_bytes_group:
  "value_bytes 3 (group_value a b c) = [a, b, c]" "value_bytes 2 (group_value a b c) = [a, b]"
  "value_bytes (Suc 0) (group_value a b c) = [a]"
  by (simp_all add: value_bytes_def group_byte0 group_byte1 group_byte2 numeral_2_eq_2 numeral_3_eq_3)

lemma low_bits_zero:
  "take_bit 6 (drop_bit 6 (group_value a 0 0)) = 0" "take_bit 6 (group_value a 0 0) = 0"
  "take_bit 6 (group_value a b 0) = 0"
  by (intro bit_word_eqI; auto simp: group_value_def bit_simps; fail)+

lemma encoded_chars: "set (EncodeToString bs) \<subseteq> insert (CHR ''='') (set alphabet)"
  by (induction bs rule: EncodeToString.induct) (auto simp: Let_def encode_digit_in)

lemma digits_of_group:
  "digits_value (drop_bit 18 (group_value a b c) AND 0x3F) (drop_bit 12 (group_value a b c) AND 0x3F)
     (drop_bit 6 (group_value a b c) AND 0x3F) (group_value a b c AND 0x3F) = group_value a b c"
  by (simp add: digits_of_value group_take)

lemma digits_of_two:
  "digits_value (drop_bit 18 (group_value a b 0) AND 0x3F) (drop_bit 12 (group_value a b 0) AND 0x3F)
     (drop_bit 6 (group_value a b 0) AND 0x3F) 0 = group_value a b 0"
  using digits_of_group [of a b 0] by (simp add: low_digit low_bits_zero)

lemma digits_of_one:
  "digits_value (drop_bit 18 (group_value a 0 0) AND 0x3F) (drop_bit 12 (group_value a 0 0) AND 0x3F) 0 0 =
     group_value a 0 0"
  using digits_of_group [of a 0 0] by (simp add: low_digit low_bits_zero)

lemma decode_map_pad: "decode_map (CHR ''='') = None"
  unfolding decode_map_def by (rule map_of_zip_is_None [THEN iffD2]) (simp_all add: length_alphabet pad_not_in_alphabet)

lemma decode_quanta_encode: "decode_quanta (EncodeToString bs) = (bs, False)"
  by (induction bs rule: EncodeToString.induct)
    (simp_all add: Let_def decode_encode_digit decode_map_pad digits_of_group digits_of_two digits_of_one
      value_bytes_group)

text \<open>
  what the prototypes print can be read back. For every sequence of bytes, of any length modulo three,
  decoding the text its encoding produced gives exactly these bytes without an error, also when the
  terminal has broken the text into lines anywhere.
\<close>

theorem decode_encode:
  assumes "filter (\<lambda>c. c \<noteq> CHR 0x0A \<and> c \<noteq> CHR 0x0D) s = EncodeToString bs"
  shows "DecodeString s = (bs, False)"
  unfolding DecodeString_def assms by (rule decode_quanta_encode)

lemma encoded_unbroken: "filter (\<lambda>c. c \<noteq> CHR 0x0A \<and> c \<noteq> CHR 0x0D) (EncodeToString bs) = EncodeToString bs"
  using encoded_chars [of bs] line_breaks_not_in_alphabet by (intro filter_True) auto

theorem decode_encode_witness:
  "DecodeString (''Y2Fu'' @ [CHR 0x0D, CHR 0x0A] @ ''ZA=='') = ([99, 97, 110, 100], False)"
proof -
  have "filter (\<lambda>c. c \<noteq> CHR 0x0A \<and> c \<noteq> CHR 0x0D) (''Y2Fu'' @ [CHR 0x0D, CHR 0x0A] @ ''ZA=='') =
      EncodeToString [99, 97, 110, 100]"
    by code_simp
  then show ?thesis by (rule decode_encode)
qed

end
