(* ===== verification/Prototype.thy ===== *)
theory Prototype
  imports Base64 "HOL-Library.Multiset"
begin

text \<open>
  The two prototypes from which the program grew, \<^verbatim>\<open>cmd/_bak/client/main.go\<close> and
  \<^verbatim>\<open>cmd/_bak/server/main.go\<close>: descriptions and candidates are copied by hand between two terminals, in
  base64. \<open>fmt.Scanln\<close> is modelled on its input as a list of ASCII characters; what the WebRTC library
  and JSON return are arguments. Definitions of the server's file have the suffix \<open>_srv\<close>.
\<close>

section \<open>Reading a line\<close>

definition is_space :: "char \<Rightarrow> bool" where
  "is_space c \<longleftrightarrow> c \<in> {CHR 0x09, CHR 0x0A, CHR 0x0B, CHR 0x0C, CHR 0x0D, CHR '' ''}"

abbreviation newline :: char where "newline \<equiv> CHR 0x0A"

text \<open>
  Skipping spaces stops at a line break, which it consumes, or in front of the token. \<open>Scanln\<close> gives
  the token, whether there was an error, and the input that is left; after the token only spaces may
  come before the end of the line, and the first other character is consumed with the error.
\<close>

fun skip_space :: "string \<Rightarrow> bool \<times> string" where
  "skip_space [] = (True, [])"
| "skip_space (c # cs) =
     (if c = newline then (False, cs) else if is_space c then skip_space cs else (True, c # cs))"

fun line_end :: "string \<Rightarrow> bool \<times> string" where
  "line_end [] = (False, [])"
| "line_end (c # cs) =
     (if c = newline then (False, cs) else if is_space c then line_end cs else (True, cs))"

definition Scanln :: "string \<Rightarrow> string \<times> bool \<times> string" where
  "Scanln input =
     (case skip_space input of
        (False, rest) \<Rightarrow> ([], True, rest)
      | (True, []) \<Rightarrow> ([], True, [])
      | (True, s) \<Rightarrow> (takeWhile (\<lambda>c. \<not> is_space c) s, line_end (dropWhile (\<lambda>c. \<not> is_space c) s)))"

lemma skip_space_shorter: "skip_space s = (ok, r) \<Longrightarrow> length r \<le> length s"
  by (induction s) (auto split: if_splits)

lemma line_end_shorter: "length (snd (line_end s)) \<le> length s"
  by (induction s) auto

lemma Scanln_shorter:
  assumes "Scanln s = (tok, err, rest)" "tok \<noteq> []"
  shows "length rest < length s"
proof -
  obtain ok r where sk: "skip_space s = (ok, r)" by fastforce
  let ?d = "dropWhile (\<lambda>c. \<not> is_space c) r"
  from assms sk have tok: "tok = takeWhile (\<lambda>c. \<not> is_space c) r" and rest: "rest = snd (line_end ?d)"
    by (auto simp: Scanln_def split: bool.splits list.splits)
  have "length tok + length ?d = length r"
    unfolding tok by (metis length_append takeWhile_dropWhile_id)
  moreover have "length rest \<le> length ?d" unfolding rest by (rule line_end_shorter)
  ultimately show ?thesis using assms(2) skip_space_shorter [OF sk] by (cases tok) auto
qed

section \<open>Candidates on the terminal\<close>

text \<open>The text of a candidate in base64, which is printed on a line of its own; it never fails.\<close>

definition signalCandidate :: "byte list \<Rightarrow> string" where
  "signalCandidate payload = EncodeToString payload"

text \<open>
  One question of the client: a panic of the slice \<open>cand[:3]\<close>, an error (the loop ends), or a
  candidate that a new goroutine adds.
\<close>

datatype ask_result = AskPanics | AskError go_error | AskAdds "byte list"

definition askIceCandidateFromStdin :: "string \<Rightarrow> ask_result \<times> string" where
  "askIceCandidateFromStdin stdin =
     (case Scanln stdin of
        (cand, err, rest) \<Rightarrow>
          (if length cand < 3 then AskPanics
           else if take 3 cand = ''end'' then AskError EOF
           else if err then AskError (ErrNew ''expected newline'')
           else case DecodeString cand of
             (decoded, True) \<Rightarrow> AskError (ErrNew ''illegal base64 data'')
           | (decoded, False) \<Rightarrow> AskAdds decoded,
           rest))"

text \<open>
  The server's version has no end mark and returns the result of adding; its \<open>main\<close> never calls it.
\<close>

definition askIceCandidateFromStdin_srv ::
  "(byte list \<Rightarrow> go_error option) \<Rightarrow> string \<Rightarrow> go_error option \<times> string"
where
  "askIceCandidateFromStdin_srv addICECandidate stdin =
     (case Scanln stdin of
        (cand, err, rest) \<Rightarrow>
          (if err then Some (ErrNew (if cand = [] then ''unexpected newline'' else ''expected newline''))
           else case DecodeString cand of
             (decoded, True) \<Rightarrow> Some (ErrNew ''illegal base64 data'')
           | (decoded, False) \<Rightarrow> addICECandidate decoded,
           rest))"

lemma ask_shorter:
  assumes "askIceCandidateFromStdin stdin = (AskAdds c, rest)"
  shows "length rest < length stdin"
proof -
  obtain tok err r where sc: "Scanln stdin = (tok, err, r)" by (cases "Scanln stdin") auto
  with assms have "rest = r" "tok \<noteq> []"
    by (auto simp: askIceCandidateFromStdin_def split: if_splits)
  with Scanln_shorter [OF sc] show ?thesis by simp
qed

text \<open>The loop at the end of the client's \<open>main\<close>: the candidates it adds, and how it ends.\<close>

datatype loop_end = LoopPanics | LoopBlocksForever

function ask_loop :: "string \<Rightarrow> byte list list \<times> loop_end" where
  "ask_loop stdin =
     (case askIceCandidateFromStdin stdin of
        (AskPanics, rest) \<Rightarrow> ([], LoopPanics)
      | (AskError err, rest) \<Rightarrow> ([], LoopBlocksForever)
      | (AskAdds c, rest) \<Rightarrow> (case ask_loop rest of (cs, e) \<Rightarrow> (c # cs, e)))"
  by auto

termination
  by (relation "measure length") (auto dest: ask_shorter sym)

declare ask_loop.simps [simp del]

section \<open>Setting the remote description\<close>

text \<open>
  What the libraries do: reading and writing JSON, the calls on the peer connection.
\<close>

record 'sdp proto_env =
  peNewPeerConnection :: "go_error option"
  peCreateDataChannel :: "go_error option"
  peCreateOffer :: "'sdp \<times> go_error option"
  peCreateAnswer :: "'sdp \<times> go_error option"
  peSetLocalDescription :: "'sdp \<Rightarrow> go_error option"
  peSetRemoteDescription :: "'sdp \<Rightarrow> go_error option"
  peMarshal :: "'sdp \<Rightarrow> go_error + byte list"
  peDecodeJSON :: "byte list \<Rightarrow> go_error + 'sdp"

text \<open>A panic with its error, or the lines printed and the input that is left.\<close>

datatype proto_result = ProtoPanics go_error | ProtoPrints "string list" string

definition scan_error :: "string \<Rightarrow> go_error" where
  "scan_error tok = ErrNew (if tok = [] then ''unexpected newline'' else ''expected newline'')"

text \<open>
  The error of \<open>DecodeString\<close> is overwritten without a test: what was decoded before the error goes to
  the JSON decoder, which may or may not notice.
\<close>

definition read_description :: "'sdp proto_env \<Rightarrow> string \<Rightarrow> (go_error + 'sdp) \<times> string" where
  "read_description env stdin =
     (case Scanln stdin of
        (line, err, rest) \<Rightarrow>
          (if err then Inl (scan_error line)
           else case peDecodeJSON env (fst (DecodeString line)) of
             Inl sdpErr \<Rightarrow> Inl sdpErr
           | Inr sdp \<Rightarrow>
               (case peSetRemoteDescription env sdp of Some sdpErr \<Rightarrow> Inl sdpErr | None \<Rightarrow> Inr sdp),
           rest))"

definition setRemoteDescription :: "'sdp proto_env \<Rightarrow> string \<Rightarrow> byte list list \<Rightarrow> proto_result" where
  "setRemoteDescription env stdin pendingCandidates =
     (case read_description env stdin of
        (Inl err, rest) \<Rightarrow> ProtoPanics err
      | (Inr sdp, rest) \<Rightarrow> ProtoPrints (map signalCandidate pendingCandidates) rest)"

definition setRemoteDescription_srv :: "'sdp proto_env \<Rightarrow> string \<Rightarrow> byte list list \<Rightarrow> proto_result" where
  "setRemoteDescription_srv env stdin pendingCandidates =
     (case read_description env stdin of
        (Inl err, rest) \<Rightarrow> ProtoPanics err
      | (Inr sdp, rest) \<Rightarrow>
          (case peCreateAnswer env of
             (answer, Some err) \<Rightarrow> ProtoPanics err
           | (answer, None) \<Rightarrow>
               (case peMarshal env answer of
                  Inl err \<Rightarrow> ProtoPanics err
                | Inr payload \<Rightarrow>
                    (case peSetLocalDescription env answer of
                       Some err \<Rightarrow> ProtoPanics err
                     | None \<Rightarrow>
                         ProtoPrints (EncodeToString payload # map signalCandidate pendingCandidates) rest))))"

section \<open>The two programs\<close>

text \<open>
  The two \<open>main\<close> functions, given the slice of pending candidates they pass: what the main goroutine
  prints in base64 and the candidates it adds from the terminal before it blocks for ever, or a panic,
  with its error unless it is a failed slice. The server's blocks right after \<open>setRemoteDescription\<close>.
\<close>

datatype main_end = MainPanics "go_error option" | MainBlocks "string list" "byte list list"

definition main_cli :: "'sdp proto_env \<Rightarrow> string \<Rightarrow> byte list list \<Rightarrow> main_end" where
  "main_cli env stdin pendingCandidates =
     (if peNewPeerConnection env \<noteq> None then MainPanics (peNewPeerConnection env)
      else if peCreateDataChannel env \<noteq> None then MainPanics (peCreateDataChannel env)
      else case peCreateOffer env of
        (offer, Some err) \<Rightarrow> MainPanics (Some err)
      | (offer, None) \<Rightarrow>
          (case peSetLocalDescription env offer of
             Some err \<Rightarrow> MainPanics (Some err)
           | None \<Rightarrow>
               (case peMarshal env offer of
                  Inl err \<Rightarrow> MainPanics (Some err)
                | Inr payload \<Rightarrow>
                    (case setRemoteDescription env stdin pendingCandidates of
                       ProtoPanics err \<Rightarrow> MainPanics (Some err)
                     | ProtoPrints out rest \<Rightarrow>
                         (case ask_loop rest of
                            (cs, LoopPanics) \<Rightarrow> MainPanics None
                          | (cs, LoopBlocksForever) \<Rightarrow> MainBlocks (EncodeToString payload # out) cs)))))"

definition main_srv :: "'sdp proto_env \<Rightarrow> string \<Rightarrow> byte list list \<Rightarrow> main_end" where
  "main_srv env stdin pendingCandidates =
     (if peNewPeerConnection env \<noteq> None then MainPanics (peNewPeerConnection env)
      else case setRemoteDescription_srv env stdin pendingCandidates of
        ProtoPanics err \<Rightarrow> MainPanics (Some err)
      | ProtoPrints out rest \<Rightarrow> MainBlocks out [])"

text \<open>The callback for a changed connection state: the status with which the process exits, if it does.\<close>

datatype connection_state = StateNew | StateConnecting | StateConnected | StateDisconnected | StateFailed | StateClosed

definition onConnectionStateChange :: "connection_state \<Rightarrow> nat option" where
  "onConnectionStateChange s = (if s = StateFailed then Some 0 else if s = StateClosed then Some 0 else None)"

text \<open>
  The callback \<open>OnOpen\<close>: every five seconds it sends a text with the time, and it panics when sending
  fails. The argument lists the time and the result of each round; the value is the texts sent and
  whether it has panicked.
\<close>

fun onOpen :: "string \<Rightarrow> (string \<times> go_error option) list \<Rightarrow> string list \<times> bool" where
  "onOpen greeting [] = ([], False)"
| "onOpen greeting ((now, Some err) # ticks) = ([greeting @ '' '' @ now], True)"
| "onOpen greeting ((now, None) # ticks) =
     (case onOpen greeting ticks of (sent, p) \<Rightarrow> ((greeting @ '' '' @ now) # sent, p))"

definition onOpen_cli :: "(string \<times> go_error option) list \<Rightarrow> string list \<times> bool" where
  "onOpen_cli = onOpen ''hello''"

definition onOpen_srv :: "(string \<times> go_error option) list \<Rightarrow> string list \<times> bool" where
  "onOpen_srv = onOpen ''reply''"

section \<open>The candidates gathered meanwhile\<close>

text \<open>
  The callback \<open>OnICECandidate\<close> runs beside \<open>main\<close>. \<open>main\<close> passes the slice \<open>pendingCandidates\<close> by
  value: candidates the callback appends to its variable after the call are not in the slice that
  \<open>setRemoteDescription\<close> walks through. The other actions that matter are setting the local description
  (with it gathering begins), setting the remote one (from then on the callback prints candidates
  itself), and printing those of the slice. The callback and the walk hold the same mutex.
\<close>

datatype main_action = SetLocal | PassPending | SetRemote | SignalPassed

definition client_actions :: "main_action list" where
  "client_actions = [SetLocal, PassPending, SetRemote, SignalPassed]"

definition server_actions :: "main_action list" where
  "server_actions = [PassPending, SetRemote, SetLocal, SignalPassed]"

record gathering =
  gaTodo :: "main_action list"
  gaPending :: "byte list list"
  gaPassed :: "byte list list"
  gaRemote :: bool
  gaSignalled :: "byte list list"

definition start_gathering :: "main_action list \<Rightarrow> gathering" where
  "start_gathering actions =
     \<lparr>gaTodo = actions, gaPending = [], gaPassed = [], gaRemote = False, gaSignalled = []\<rparr>"

fun main_does :: "main_action \<Rightarrow> gathering \<Rightarrow> gathering" where
  "main_does SetLocal s = s"
| "main_does PassPending s = s\<lparr>gaPassed := gaPending s\<rparr>"
| "main_does SetRemote s = s\<lparr>gaRemote := True\<rparr>"
| "main_does SignalPassed s = s\<lparr>gaSignalled := gaSignalled s @ gaPassed s\<rparr>"

definition onICECandidate :: "byte list option \<Rightarrow> gathering \<Rightarrow> gathering" where
  "onICECandidate cand s =
     (case cand of
        None \<Rightarrow> s
      | Some c \<Rightarrow>
          if gaRemote s then s\<lparr>gaSignalled := gaSignalled s @ [c]\<rparr>
          else s\<lparr>gaPending := gaPending s @ [c]\<rparr>)"

datatype gather_label = MainDoes | Gathers "byte list option"

fun gather_step :: "gather_label \<Rightarrow> gathering \<Rightarrow> gathering option" where
  "gather_step MainDoes s =
     (case gaTodo s of [] \<Rightarrow> None | a # as \<Rightarrow> Some (main_does a (s\<lparr>gaTodo := as\<rparr>)))"
| "gather_step (Gathers cand) s = Some (onICECandidate cand s)"

section \<open>Pasting\<close>












section \<open>Which candidates are printed\<close>

text \<open>The candidates gathered while \<open>main\<close> has done exactly \<open>k\<close> of its actions, and all of them.\<close>

fun gathered_at :: "nat \<Rightarrow> gather_label list \<Rightarrow> byte list list" where
  "gathered_at k [] = []"
| "gathered_at k (MainDoes # ls) = (case k of 0 \<Rightarrow> [] | Suc j \<Rightarrow> gathered_at j ls)"
| "gathered_at k (Gathers None # ls) = gathered_at k ls"
| "gathered_at k (Gathers (Some c) # ls) = (if k = 0 then c # gathered_at k ls else gathered_at k ls)"

fun all_gathered :: "gather_label list \<Rightarrow> byte list list" where
  "all_gathered [] = []"
| "all_gathered (Gathers (Some c) # ls) = c # all_gathered ls"
| "all_gathered (_ # ls) = all_gathered ls"

definition actions_done :: "gather_label list \<Rightarrow> nat" where
  "actions_done ls = length (filter (\<lambda>l. l = MainDoes) ls)"

lemma actions_done_snoc [simp]:
  "actions_done (ls @ [MainDoes]) = Suc (actions_done ls)"
  "actions_done (ls @ [Gathers c]) = actions_done ls"
  "actions_done [] = 0"
  by (simp_all add: actions_done_def)

lemma gathered_at_snoc [simp]:
  "gathered_at k (ls @ [MainDoes]) = gathered_at k ls"
  "gathered_at k (ls @ [Gathers None]) = gathered_at k ls"
  "gathered_at k (ls @ [Gathers (Some c)]) = gathered_at k ls @ (if actions_done ls = k then [c] else [])"
  by (induction k ls rule: gathered_at.induct)
    (auto simp: actions_done_def split: nat.splits)

lemma gathered_at_future: "actions_done ls < k \<Longrightarrow> gathered_at k ls = []"
  by (induction k ls rule: gathered_at.induct) (auto simp: actions_done_def split: nat.splits)

lemma all_gathered_append [simp]: "all_gathered (xs @ ys) = all_gathered xs @ all_gathered ys"
  by (induction xs rule: all_gathered.induct) auto

text \<open>What the state knows of the candidates, for the program \<open>p\<close> after \<open>k\<close> actions.\<close>

definition upto :: "nat \<Rightarrow> gather_label list \<Rightarrow> byte list list" where
  "upto k ls = concat (map (\<lambda>i. gathered_at i ls) [0..<k])"

definition client_knows :: "gather_label list \<Rightarrow> gathering \<Rightarrow> bool" where
  "client_knows ls s \<longleftrightarrow>
     (let k = actions_done ls in
      k \<le> 4 \<and> gaTodo s = drop k client_actions \<and> (gaRemote s \<longleftrightarrow> 3 \<le> k) \<and>
      all_gathered ls = upto 5 ls \<and> gaPending s = upto 3 ls \<and>
      gaPassed s = (if 2 \<le> k then upto 2 ls else []) \<and>
      gaSignalled s = gathered_at 3 ls @ (if k = 4 then upto 2 ls else []) @ gathered_at 4 ls)"

lemma upto_simps:
  "upto 2 ls = gathered_at 0 ls @ gathered_at 1 ls"
  "upto 3 ls = gathered_at 0 ls @ gathered_at 1 ls @ gathered_at 2 ls"
  "upto 5 ls = gathered_at 0 ls @ gathered_at 1 ls @ gathered_at 2 ls @ gathered_at 3 ls @ gathered_at 4 ls"
  by (simp_all add: upto_def eval_nat_numeral)

lemma up_to_four: "k \<le> 4 \<longleftrightarrow> k = 0 \<or> k = 1 \<or> k = 2 \<or> k = 3 \<or> k = (4::nat)"
  by auto

lemma client_knows_step:
  assumes K: "client_knows ls s" and step: "gather_step l s = Some s'"
  shows "client_knows (ls @ [l]) s'"
proof -
  from K have "actions_done ls \<le> 4" by (simp add: client_knows_def Let_def)
  then consider "actions_done ls = 0" | "actions_done ls = 1" | "actions_done ls = 2"
    | "actions_done ls = 3" | "actions_done ls = 4" by (auto simp: up_to_four)
  then show ?thesis
    using K step gathered_at_future [of ls]
    by cases (cases "(l, s)" rule: gather_step.cases;
        auto simp: client_knows_def upto_simps client_actions_def onICECandidate_def Let_def
          split: option.splits)+
qed

lemma client_knows_run:
  "exec gather_step ls (start_gathering client_actions) = Some s \<Longrightarrow> client_knows ls s"
proof (induction rule: exec_trace_induct)
  case start
  show ?case by (simp add: client_knows_def start_gathering_def upto_def eval_nat_numeral)
next
  case (step ls l t u)
  show ?case by (rule client_knows_step [OF step.IH step.hyps(2)])
qed

definition server_knows :: "gather_label list \<Rightarrow> gathering \<Rightarrow> bool" where
  "server_knows ls s \<longleftrightarrow>
     (let k = actions_done ls in
      k \<le> 4 \<and> gaTodo s = drop k server_actions \<and> (gaRemote s \<longleftrightarrow> 2 \<le> k) \<and>
      all_gathered ls = upto 5 ls \<and> gaPending s = upto 2 ls \<and>
      gaPassed s = (if 1 \<le> k then gathered_at 0 ls else []) \<and>
      gaSignalled s = gathered_at 2 ls @ gathered_at 3 ls @ (if k = 4 then gathered_at 0 ls else []) @
        gathered_at 4 ls)"

lemma server_knows_step:
  assumes K: "server_knows ls s" and step: "gather_step l s = Some s'"
  shows "server_knows (ls @ [l]) s'"
proof -
  from K have "actions_done ls \<le> 4" by (simp add: server_knows_def Let_def)
  then consider "actions_done ls = 0" | "actions_done ls = 1" | "actions_done ls = 2"
    | "actions_done ls = 3" | "actions_done ls = 4" by (auto simp: up_to_four)
  then show ?thesis
    using K step gathered_at_future [of ls]
    by cases (cases "(l, s)" rule: gather_step.cases;
        auto simp: server_knows_def upto_simps server_actions_def onICECandidate_def Let_def
          split: option.splits)+
qed

lemma server_knows_run:
  "exec gather_step ls (start_gathering server_actions) = Some s \<Longrightarrow> server_knows ls s"
proof (induction rule: exec_trace_induct)
  case start
  show ?case by (simp add: server_knows_def start_gathering_def upto_def eval_nat_numeral)
next
  case (step ls l t u)
  show ?case by (rule server_knows_step [OF step.IH step.hyps(2)])
qed

text \<open>
  C40: the client loses what it gathers while the user types. In every run in which the client's \<open>main\<close> has
  come to its final loop, the candidates printed for the other side are, as a multiset, all those gathered but
  the ones gathered after \<open>setRemoteDescription\<close> was called and before the remote description was set,
  that is, while it waited for the terminal: these are never printed.
\<close>

theorem client_loses_candidates:
  assumes "exec gather_step ls (start_gathering client_actions) = Some s" and "gaTodo s = []"
  shows "mset (all_gathered ls) = mset (gaSignalled s) + mset (gathered_at 2 ls)"
proof -
  have K: "client_knows ls s" by (rule client_knows_run [OF assms(1)])
  with assms(2) have "actions_done ls = 4"
    by (auto simp: client_knows_def Let_def client_actions_def)
  with K show ?thesis by (simp add: client_knows_def upto_simps Let_def)
qed

definition typing_run :: "gather_label list" where
  "typing_run = [MainDoes, MainDoes, Gathers (Some [1]), MainDoes, Gathers (Some [2]), MainDoes]"

theorem client_loses_candidates_witness:
  "\<exists>s. exec gather_step typing_run (start_gathering client_actions) = Some s \<and> gaSignalled s = [[2]] \<and>
     mset [[1], [2]] = mset (gaSignalled s) + {#[1]#}"
proof -
  obtain s where s: "exec gather_step typing_run (start_gathering client_actions) = Some s"
      "gaTodo s = []" "gaSignalled s = [[2]]"
    by (simp add: typing_run_def start_gathering_def client_actions_def onICECandidate_def)
  from client_loses_candidates [OF s(1,2)] s show ?thesis
    by (simp add: typing_run_def eval_nat_numeral)
qed

text \<open>
  the server prints every candidate. The WebRTC library gathers only after the local description
  is set, which the server does after setting the remote one: at every moment, the candidates it has
  printed are all those gathered, in the order they were gathered.
\<close>

theorem server_prints_every_candidate:
  assumes "exec gather_step ls (start_gathering server_actions) = Some s"
    and "\<forall>k < 3. gathered_at k ls = []"
  shows "gaSignalled s = all_gathered ls"
  using server_knows_run [OF assms(1)] assms(2) by (simp add: server_knows_def upto_simps Let_def)

theorem server_prints_every_candidate_witness:
  "\<exists>s. exec gather_step [MainDoes, MainDoes, MainDoes, Gathers (Some [1]), MainDoes, Gathers (Some [2])]
       (start_gathering server_actions) = Some s \<and> gaSignalled s = [[1], [2]]"
proof -
  let ?ls = "[MainDoes, MainDoes, MainDoes, Gathers (Some [1]), MainDoes, Gathers (Some [2])]"
  obtain s where s: "exec gather_step ?ls (start_gathering server_actions) = Some s"
    by (simp add: start_gathering_def server_actions_def onICECandidate_def)
  have "\<forall>k < 3. gathered_at k ?ls = []"
    by (auto simp: eval_nat_numeral less_Suc_eq)
  from server_prints_every_candidate [OF s this] s show ?thesis by simp
qed


end
