(* ===== verification/Proxy.thy ===== *)
theory Proxy
  imports GoChan "HOL-Library.Word"
begin

text \<open>
  The proxy of one tunnelled connection, \<^verbatim>\<open>client/proxy.go\<close>: it copies between a socket and
  a data channel. Two loops and the goroutines they start (one \<open>async.Async\<close> per read and per
  write), the data channel's message callback, and any number of callers of \<open>Close\<close> interleave.
  What the socket and the data channel return are labels; what the code asks them to do is recorded
  in the state (\<open>pxWrites\<close>: the calls of \<open>conn.Write\<close> in order, with the number of bytes
  written; \<open>pxSends\<close>: the calls of \<open>dataChannel.Send\<close>).

  \<open>stopSigWrite\<close> and \<open>stopSigRead\<close> are unbuffered: \<open>Close\<close> sends without blocking, so a loop
  gets the signal only if it is parked in its select at that moment (the label says whether it
  is), and then closes the channel, which every later select sees.
\<close>

section \<open>State\<close>

type_synonym bytes = "8 word list"

definition writeTimeout :: duration where
  "writeTimeout = 100 * millisecond"

definition errProxyStooping :: go_error where
  "errProxyStooping = ErrNew ''proxy is stopping''"

definition errWriteTimeout :: go_error where
  "errWriteTimeout = ErrNew ''failed to write to socket, timeout''"

text \<open>One asynchronous read: the call of \<open>Read\<close>, the \<open>Send\<close> of what it got, the resolved future.\<close>

datatype read_worker = RWRead | RWSend bytes | RWResolved "go_error option"

datatype read_loop = RLSelect read_worker | RLReturned read_worker

datatype write_worker = WWWrite bytes | WWResolved "go_error option"

datatype write_loop =
    WLSelect
  | WLInner write_worker duration
  | WLReturned

datatype close_pc =
    CloseConn
  | CloseSignalWrite
  | CloseSignalRead
  | CloseWriteCh
  | CloseReadCh
  | CloseDone "go_error option"

record proxy =
  pxStopped :: "unit chan"
  pxConnClosed :: bool
  pxStopWrite :: "unit chan"
  pxStopRead :: "unit chan"
  pxBuf :: "bytes chan"
  pxEoL :: "go_error option chan"
  pxReadLoop :: read_loop
  pxWriteLoop :: write_loop
  pxOrphans :: "bytes list"
  pxClosers :: "nat \<rightharpoonup> close_pc"
  pxWrites :: "(bytes \<times> nat) list"
  pxSends :: "(bytes \<times> go_error option) list"
  pxPanicked :: bool
  pxNow :: duration

text \<open>\<open>NewProxy\<close> with the end-of-life channel its caller passes.\<close>

definition NewProxy :: "go_error option chan \<Rightarrow> proxy" where
  "NewProxy eolSig =
     \<lparr>pxStopped = make_chan 1, pxConnClosed = False, pxStopWrite = make_chan 0,
      pxStopRead = make_chan 0, pxBuf = make_chan 1024, pxEoL = eolSig,
      pxReadLoop = RLSelect RWRead, pxWriteLoop = WLSelect, pxOrphans = [],
      pxClosers = Map.empty, pxWrites = [], pxSends = [], pxPanicked = False, pxNow = 0\<rparr>"

section \<open>Close\<close>

datatype close_event =
    ClCall
  | ClConn
  | ClSignalWrite bool
  | ClSignalRead bool
  | ClWriteCh
  | ClReadCh

definition stop_write_loop :: "proxy \<Rightarrow> proxy" where
  "stop_write_loop p =
     p\<lparr>pxWriteLoop := WLReturned,
       pxOrphans := (case pxWriteLoop p of WLInner (WWWrite d) t \<Rightarrow> pxOrphans p @ [d] | _ \<Rightarrow> pxOrphans p)\<rparr>"

definition stop_read_loop :: "proxy \<Rightarrow> proxy" where
  "stop_read_loop p =
     p\<lparr>pxReadLoop := (case pxReadLoop p of RLSelect w \<Rightarrow> RLReturned w | RLReturned w \<Rightarrow> RLReturned w)\<rparr>"

definition write_loop_parked :: "proxy \<Rightarrow> bool" where
  "write_loop_parked p \<longleftrightarrow> pxWriteLoop p \<noteq> WLReturned"

definition read_loop_parked :: "proxy \<Rightarrow> bool" where
  "read_loop_parked p \<longleftrightarrow> (case pxReadLoop p of RLSelect w \<Rightarrow> True | RLReturned w \<Rightarrow> False)"

text \<open>Closing a closed channel panics.\<close>

fun Close :: "nat \<Rightarrow> close_event \<Rightarrow> proxy \<Rightarrow> proxy option" where
  "Close g ev p =
     (case (ev, pxClosers p g) of
        (ClCall, None) \<Rightarrow>
          (case chan_put (pxStopped p) () of
             Some c \<Rightarrow> Some (p\<lparr>pxStopped := c, pxClosers := (pxClosers p)(g \<mapsto> CloseConn)\<rparr>)
           | None \<Rightarrow>
               Some (p\<lparr>pxClosers := (pxClosers p)(g \<mapsto> CloseDone (Some errProxyStooping))\<rparr>))
      | (ClConn, Some CloseConn) \<Rightarrow>
          Some (p\<lparr>pxConnClosed := True, pxClosers := (pxClosers p)(g \<mapsto> CloseSignalWrite)\<rparr>)
      | (ClSignalWrite taken, Some CloseSignalWrite) \<Rightarrow>
          if taken \<longrightarrow> write_loop_parked p
          then Some ((if taken then stop_write_loop p else p)
                 \<lparr>pxClosers := (pxClosers p)(g \<mapsto> CloseSignalRead)\<rparr>)
          else None
      | (ClSignalRead taken, Some CloseSignalRead) \<Rightarrow>
          if taken \<longrightarrow> read_loop_parked p
          then Some ((if taken then stop_read_loop p else p)
                 \<lparr>pxClosers := (pxClosers p)(g \<mapsto> CloseWriteCh)\<rparr>)
          else None
      | (ClWriteCh, Some CloseWriteCh) \<Rightarrow>
          (case chan_close (pxStopWrite p) of
             None \<Rightarrow> Some (p\<lparr>pxPanicked := True\<rparr>)
           | Some c \<Rightarrow> Some (p\<lparr>pxStopWrite := c, pxClosers := (pxClosers p)(g \<mapsto> CloseReadCh)\<rparr>))
      | (ClReadCh, Some CloseReadCh) \<Rightarrow>
          (case chan_close (pxStopRead p) of
             None \<Rightarrow> Some (p\<lparr>pxPanicked := True\<rparr>)
           | Some c \<Rightarrow> Some (p\<lparr>pxStopRead := c, pxClosers := (pxClosers p)(g \<mapsto> CloseDone None)\<rparr>))
      | _ \<Rightarrow> None)"

section \<open>The end-of-life signal\<close>

text \<open>\<open>None\<close> is the error: the signal was not sent.\<close>

definition trySendEoL :: "go_error option chan \<Rightarrow> go_error option \<Rightarrow> go_error option chan option" where
  "trySendEoL eolSig err = chan_put eolSig err"

section \<open>The reading loop\<close>

datatype read_event =
    RdRead bytes "go_error option"
  | RdSend "go_error option"
  | RdTake
  | RdStop

text \<open>
  The function run by \<open>async.Async\<close>: with data, the result is the error of \<open>Send\<close> (the error
  of \<open>Read\<close> is shadowed); without, it is the error of \<open>Read\<close>.
\<close>

definition after_read :: "bytes \<Rightarrow> go_error option \<Rightarrow> read_worker" where
  "after_read d err =
     (if d \<noteq> [] then RWSend d
      else RWResolved (if err = Some ErrNetClosed then Some EOF else err))"

definition with_read_worker :: "(read_worker \<Rightarrow> read_worker) \<Rightarrow> read_loop \<Rightarrow> read_loop" where
  "with_read_worker f l =
     (case l of RLSelect w \<Rightarrow> RLSelect (f w) | RLReturned w \<Rightarrow> RLReturned (f w))"

definition read_worker_of :: "read_loop \<Rightarrow> read_worker" where
  "read_worker_of l = (case l of RLSelect w \<Rightarrow> w | RLReturned w \<Rightarrow> w)"

fun readingLoop :: "read_event \<Rightarrow> proxy \<Rightarrow> proxy option" where
  "readingLoop (RdRead d err) p =
     (if read_worker_of (pxReadLoop p) = RWRead \<and> length d \<le> 1024
      then Some (p\<lparr>pxReadLoop := with_read_worker (\<lambda>_. after_read d err) (pxReadLoop p)\<rparr>)
      else None)"
| "readingLoop (RdSend err) p =
     (case read_worker_of (pxReadLoop p) of
        RWSend d \<Rightarrow>
          Some (p\<lparr>pxReadLoop := with_read_worker (\<lambda>_. RWResolved err) (pxReadLoop p),
                  pxSends := pxSends p @ [(d, err)]\<rparr>)
      | _ \<Rightarrow> None)"
| "readingLoop RdTake p =
     (case pxReadLoop p of
        RLSelect (RWResolved None) \<Rightarrow> Some (p\<lparr>pxReadLoop := RLSelect RWRead\<rparr>)
      | RLSelect (RWResolved (Some err)) \<Rightarrow>
          (let err' = if err = ErrNetClosed \<or> err = ErrClosedPipe then EOF else err
           in case trySendEoL (pxEoL p) (Some err') of
                Some c \<Rightarrow> Some (p\<lparr>pxEoL := c, pxReadLoop := RLSelect RWRead\<rparr>)
              | None \<Rightarrow> Some (p\<lparr>pxReadLoop := RLReturned (RWResolved (Some err))\<rparr>))
      | _ \<Rightarrow> None)"
| "readingLoop RdStop p =
     (if chClosed (pxStopRead p) \<and> read_loop_parked p then Some (stop_read_loop p) else None)"

section \<open>The writing loop\<close>

datatype write_event =
    WrNext
  | WrWrite nat "go_error option"
  | WrTake
  | WrTimeout
  | WrStop
  | WrOrphan nat nat "go_error option"

definition write_error :: "go_error option \<Rightarrow> go_error option" where
  "write_error err = (if err = Some EOF \<or> err = Some ErrClosedPipe then Some EOF else err)"

text \<open>
  \<open>Write\<close> reports an error whenever it wrote fewer bytes than it was given. A write that the loop
  no longer waits for (\<open>pxOrphans\<close>) still happens, at any later time: calls of \<open>Write\<close> from several
  goroutines may be served in any order as far as \<open>net.Conn\<close> promises, so the model allows every
  order, also those a given implementation excludes.
\<close>

definition write_result_ok :: "bytes \<Rightarrow> nat \<Rightarrow> go_error option \<Rightarrow> bool" where
  "write_result_ok d n err \<longleftrightarrow> n = length d \<or> n < length d \<and> err \<noteq> None"

fun writingLoop :: "write_event \<Rightarrow> proxy \<Rightarrow> proxy option" where
  "writingLoop WrNext p =
     (case (pxWriteLoop p, chan_take (pxBuf p)) of
        (WLSelect, Some (d, c)) \<Rightarrow>
          Some (p\<lparr>pxBuf := c, pxWriteLoop := WLInner (WWWrite d) (pxNow p + writeTimeout)\<rparr>)
      | _ \<Rightarrow> None)"
| "writingLoop (WrWrite n err) p =
     (case pxWriteLoop p of
        WLInner (WWWrite d) t \<Rightarrow>
          if write_result_ok d n err
          then Some (p\<lparr>pxWriteLoop := WLInner (WWResolved (write_error err)) t,
                       pxWrites := pxWrites p @ [(d, n)]\<rparr>)
          else None
      | _ \<Rightarrow> None)"
| "writingLoop WrTake p =
     (case pxWriteLoop p of
        WLInner (WWResolved None) t \<Rightarrow> Some (p\<lparr>pxWriteLoop := WLSelect\<rparr>)
      | WLInner (WWResolved (Some err)) t \<Rightarrow>
          (case trySendEoL (pxEoL p) (Some err) of
             Some c \<Rightarrow> Some (p\<lparr>pxEoL := c, pxWriteLoop := WLSelect\<rparr>)
           | None \<Rightarrow> Some (p\<lparr>pxWriteLoop := WLReturned\<rparr>))
      | _ \<Rightarrow> None)"
| "writingLoop WrTimeout p =
     (case pxWriteLoop p of
        WLInner w t \<Rightarrow>
          if t \<le> pxNow p then
            (let orphans = (case w of WWWrite d \<Rightarrow> pxOrphans p @ [d] | WWResolved _ \<Rightarrow> pxOrphans p)
             in case trySendEoL (pxEoL p) (Some errWriteTimeout) of
                  Some c \<Rightarrow> Some (p\<lparr>pxEoL := c, pxWriteLoop := WLSelect, pxOrphans := orphans\<rparr>)
                | None \<Rightarrow> Some (p\<lparr>pxWriteLoop := WLReturned, pxOrphans := orphans\<rparr>))
          else None
      | _ \<Rightarrow> None)"
| "writingLoop WrStop p =
     (if chClosed (pxStopWrite p) \<and> write_loop_parked p then Some (stop_write_loop p) else None)"
| "writingLoop (WrOrphan i n err) p =
     (if i < length (pxOrphans p) \<and> write_result_ok (pxOrphans p ! i) n err
      then Some (p\<lparr>pxOrphans := take i (pxOrphans p) @ drop (Suc i) (pxOrphans p),
                   pxWrites := pxWrites p @ [(pxOrphans p ! i, n)]\<rparr>)
      else None)"

section \<open>The proxy as a machine\<close>

text \<open>\<open>Message\<close> is the data channel's callback, \<open>EoLTaken\<close> the owner's receive of the signal.\<close>

datatype px_label =
    Message bytes
  | Reading read_event
  | Writing write_event
  | Closing nat close_event
  | EoLSent "go_error option"
  | EoLTaken
  | PxTick duration

fun px_step :: "px_label \<Rightarrow> proxy \<Rightarrow> proxy option" where
  "px_step l p =
     (if pxPanicked p then None
      else case l of
        Message d \<Rightarrow> map_option (\<lambda>c. p\<lparr>pxBuf := c\<rparr>) (chan_put (pxBuf p) d)
      | Reading ev \<Rightarrow> readingLoop ev p
      | Writing ev \<Rightarrow> writingLoop ev p
      | Closing g ev \<Rightarrow> Close g ev p
      | EoLSent err \<Rightarrow> map_option (\<lambda>c. p\<lparr>pxEoL := c\<rparr>) (trySendEoL (pxEoL p) err)
      | EoLTaken \<Rightarrow> map_option (\<lambda>(_, c). p\<lparr>pxEoL := c\<rparr>) (chan_take (pxEoL p))
      | PxTick d \<Rightarrow> Some (p\<lparr>pxNow := pxNow p + d\<rparr>))"

declare Close.simps [simp del] readingLoop.simps [simp del] writingLoop.simps [simp del]
  px_step.simps [simp del]

end
