(* ===== verification/ProxyProps.thy ===== *)
theory ProxyProps
  imports Proxy "HOL-Library.Multiset"
begin

text \<open>
  Properties of the proxy: concurrent calls of \<open>Close\<close> never close a channel twice and one call
  wins; after it the loops can end; each direction keeps the order of the data, as long as no write
  times out, and loses or doubles none of it in any case; errors reach the end-of-life channel.
\<close>

section \<open>Close\<close>

fun gate_passed :: "close_pc \<Rightarrow> bool" where
  "gate_passed (CloseDone (Some err)) = False"
| "gate_passed _ = True"

fun write_ch_open :: "close_pc \<Rightarrow> bool" where
  "write_ch_open (CloseDone err) = False"
| "write_ch_open CloseReadCh = False"
| "write_ch_open _ = True"

fun read_ch_open :: "close_pc \<Rightarrow> bool" where
  "read_ch_open (CloseDone err) = False"
| "read_ch_open _ = True"

fun conn_open :: "close_pc \<Rightarrow> bool" where
  "conn_open CloseConn = True"
| "conn_open _ = False"

definition sole_holder :: "nat \<Rightarrow> (nat \<rightharpoonup> close_pc) \<Rightarrow> bool" where
  "sole_holder g cl \<longleftrightarrow> (\<forall>h pc. cl h = Some pc \<longrightarrow> gate_passed pc \<longrightarrow> h = g)"

lemma sole_holder_upd:
  "sole_holder g cl \<Longrightarrow> sole_holder g (cl(g \<mapsto> pc))"
  "sole_holder g cl \<Longrightarrow> \<not> gate_passed pc \<Longrightarrow> sole_holder g (cl(h \<mapsto> pc))"
  "\<forall>h pc. cl h = Some pc \<longrightarrow> \<not> gate_passed pc \<Longrightarrow> sole_holder g (cl(g \<mapsto> pc))"
  unfolding sole_holder_def by (auto split: if_splits)

definition gate_holder :: "nat \<Rightarrow> close_pc \<Rightarrow> proxy \<Rightarrow> bool" where
  "gate_holder g pc p \<longleftrightarrow>
     pxClosers p g = Some pc \<and> gate_passed pc \<and> sole_holder g (pxClosers p) \<and>
     chBuf (pxStopped p) \<noteq> [] \<and> chClosed (pxStopWrite p) = (\<not> write_ch_open pc) \<and>
     chClosed (pxStopRead p) = (\<not> read_ch_open pc) \<and> pxConnClosed p = (\<not> conn_open pc)"

definition gate_free :: "proxy \<Rightarrow> bool" where
  "gate_free p \<longleftrightarrow>
     (\<forall>g pc. pxClosers p g = Some pc \<longrightarrow> \<not> gate_passed pc) \<and> chBuf (pxStopped p) = [] \<and>
     \<not> chClosed (pxStopWrite p) \<and> \<not> chClosed (pxStopRead p) \<and> \<not> pxConnClosed p"

definition close_inv :: "proxy \<Rightarrow> bool" where
  "close_inv p \<longleftrightarrow>
     \<not> pxPanicked p \<and> chCap (pxStopped p) = 1 \<and> \<not> chClosed (pxStopped p) \<and>
     (gate_free p \<or> (\<exists>g pc. gate_holder g pc p))"

lemmas close_inv_defs = close_inv_def gate_holder_def gate_free_def

lemma close_inv_holder:
  "close_inv p \<Longrightarrow> pxClosers p g = Some pc \<Longrightarrow> gate_passed pc \<Longrightarrow> gate_holder g pc p"
  unfolding close_inv_defs sole_holder_def by (metis option.inject)

lemma stop_loops_keep [simp]:
  "pxStopped (stop_write_loop p) = pxStopped p" "pxStopped (stop_read_loop p) = pxStopped p"
  "pxStopWrite (stop_write_loop p) = pxStopWrite p" "pxStopWrite (stop_read_loop p) = pxStopWrite p"
  "pxStopRead (stop_write_loop p) = pxStopRead p" "pxStopRead (stop_read_loop p) = pxStopRead p"
  "pxConnClosed (stop_write_loop p) = pxConnClosed p" "pxConnClosed (stop_read_loop p) = pxConnClosed p"
  "pxClosers (stop_write_loop p) = pxClosers p" "pxClosers (stop_read_loop p) = pxClosers p"
  "pxPanicked (stop_write_loop p) = pxPanicked p" "pxPanicked (stop_read_loop p) = pxPanicked p"
  "pxEoL (stop_write_loop p) = pxEoL p" "pxEoL (stop_read_loop p) = pxEoL p"
  "pxBuf (stop_write_loop p) = pxBuf p" "pxBuf (stop_read_loop p) = pxBuf p"
  "pxWrites (stop_write_loop p) = pxWrites p" "pxWrites (stop_read_loop p) = pxWrites p"
  "pxSends (stop_write_loop p) = pxSends p" "pxSends (stop_read_loop p) = pxSends p"
  "pxNow (stop_write_loop p) = pxNow p" "pxNow (stop_read_loop p) = pxNow p"
  "pxReadLoop (stop_write_loop p) = pxReadLoop p"
  "pxWriteLoop (stop_read_loop p) = pxWriteLoop p" "pxOrphans (stop_read_loop p) = pxOrphans p"
  by (simp_all add: stop_write_loop_def stop_read_loop_def)

lemma readingLoop_close_part:
  assumes "readingLoop ev p = Some p'"
  shows "pxStopped p' = pxStopped p" "pxStopWrite p' = pxStopWrite p" "pxStopRead p' = pxStopRead p"
    "pxConnClosed p' = pxConnClosed p" "pxClosers p' = pxClosers p" "pxPanicked p' = pxPanicked p"
    "pxBuf p' = pxBuf p" "pxWriteLoop p' = pxWriteLoop p" "pxOrphans p' = pxOrphans p"
    "pxWrites p' = pxWrites p"
  using assms
  by (cases ev; auto simp: readingLoop.simps Let_def split: if_splits read_worker.splits
      read_loop.splits option.splits)+

lemma writingLoop_close_part:
  assumes "writingLoop ev p = Some p'"
  shows "pxStopped p' = pxStopped p" "pxStopWrite p' = pxStopWrite p" "pxStopRead p' = pxStopRead p"
    "pxConnClosed p' = pxConnClosed p" "pxClosers p' = pxClosers p" "pxPanicked p' = pxPanicked p"
    "pxReadLoop p' = pxReadLoop p" "pxSends p' = pxSends p"
  using assms
  by (cases ev; auto simp: writingLoop.simps Let_def split: if_splits write_worker.splits
      write_loop.splits option.splits prod.splits)+

lemma Close_cases:
  assumes "Close g ev p = Some p'"
  obtains (enter) c where "ev = ClCall" "pxClosers p g = None" "chan_put (pxStopped p) () = Some c"
      "p' = p\<lparr>pxStopped := c, pxClosers := (pxClosers p)(g \<mapsto> CloseConn)\<rparr>"
  | (refuse) "ev = ClCall" "pxClosers p g = None" "chan_put (pxStopped p) () = None"
      "p' = p\<lparr>pxClosers := (pxClosers p)(g \<mapsto> CloseDone (Some errProxyStooping))\<rparr>"
  | (conn) "pxClosers p g = Some CloseConn"
      "p' = p\<lparr>pxConnClosed := True, pxClosers := (pxClosers p)(g \<mapsto> CloseSignalWrite)\<rparr>"
  | (signal_write) q where "pxClosers p g = Some CloseSignalWrite"
      "q = p \<or> q = stop_write_loop p \<and> write_loop_parked p"
      "p' = q\<lparr>pxClosers := (pxClosers p)(g \<mapsto> CloseSignalRead)\<rparr>"
  | (signal_read) q where "pxClosers p g = Some CloseSignalRead"
      "q = p \<or> q = stop_read_loop p \<and> read_loop_parked p"
      "p' = q\<lparr>pxClosers := (pxClosers p)(g \<mapsto> CloseWriteCh)\<rparr>"
  | (write_ch) "pxClosers p g = Some CloseWriteCh" "\<not> chClosed (pxStopWrite p)"
      "p' = p\<lparr>pxStopWrite := (pxStopWrite p)\<lparr>chClosed := True\<rparr>,
             pxClosers := (pxClosers p)(g \<mapsto> CloseReadCh)\<rparr>"
  | (read_ch) "pxClosers p g = Some CloseReadCh" "\<not> chClosed (pxStopRead p)"
      "p' = p\<lparr>pxStopRead := (pxStopRead p)\<lparr>chClosed := True\<rparr>,
             pxClosers := (pxClosers p)(g \<mapsto> CloseDone None)\<rparr>"
  | (panic) "pxClosers p g = Some CloseWriteCh \<and> chClosed (pxStopWrite p) \<or>
       pxClosers p g = Some CloseReadCh \<and> chClosed (pxStopRead p)" "p' = p\<lparr>pxPanicked := True\<rparr>"
proof (cases ev)
  case ClCall
  with assms show thesis
    by (auto simp: Close.simps intro: enter refuse split: option.splits)
next
  case ClConn
  with assms show thesis by (auto simp: Close.simps intro: conn split: option.splits close_pc.splits)
next
  case (ClSignalWrite taken)
  with assms show thesis
    by (auto simp: Close.simps intro: signal_write split: option.splits close_pc.splits if_splits)
next
  case (ClSignalRead taken)
  with assms show thesis
    by (auto simp: Close.simps intro: signal_read split: option.splits close_pc.splits if_splits)
next
  case ClWriteCh
  with assms show thesis
    by (auto simp: Close.simps chan_close_def intro: write_ch panic
        split: option.splits close_pc.splits if_splits)
next
  case ClReadCh
  with assms show thesis
    by (auto simp: Close.simps chan_close_def intro: read_ch panic
        split: option.splits close_pc.splits if_splits)
qed

lemma px_stepE:
  assumes "px_step l p = Some p'"
  obtains (message) d c where "l = Message d" "chan_put (pxBuf p) d = Some c" "p' = p\<lparr>pxBuf := c\<rparr>"
  | (reading) ev where "l = Reading ev" "readingLoop ev p = Some p'"
  | (writing) ev where "l = Writing ev" "writingLoop ev p = Some p'"
  | (closing) g ev where "l = Closing g ev" "Close g ev p = Some p'"
  | (eol_sent) err c where "l = EoLSent err" "chan_put (pxEoL p) err = Some c" "p' = p\<lparr>pxEoL := c\<rparr>"
  | (eol_taken) err c where "l = EoLTaken" "chan_take (pxEoL p) = Some (err, c)" "p' = p\<lparr>pxEoL := c\<rparr>"
  | (tick) d where "l = PxTick d" "p' = p\<lparr>pxNow := pxNow p + d\<rparr>"
proof (cases l)
  case (Message d)
  with assms show thesis by (auto simp: px_step.simps split: if_splits intro: message)
next
  case (Reading ev)
  with assms show thesis by (intro reading) (simp_all add: px_step.simps split: if_splits)
next
  case (Writing ev)
  with assms show thesis by (intro writing) (simp_all add: px_step.simps split: if_splits)
next
  case (Closing g ev)
  with assms show thesis by (intro closing) (simp_all add: px_step.simps split: if_splits)
next
  case (EoLSent err)
  with assms show thesis
    by (auto simp: px_step.simps trySendEoL_def split: if_splits intro: eol_sent)
next
  case EoLTaken
  with assms show thesis by (auto simp: px_step.simps split: if_splits intro: eol_taken)
next
  case (PxTick d)
  with assms show thesis by (intro tick) (auto simp: px_step.simps split: if_splits)
qed

lemma gate_holder_moves:
  assumes "close_inv p" "pxClosers p g = Some pc" "gate_passed pc" "gate_passed pc'"
    and "pxClosers p' = (pxClosers p)(g \<mapsto> pc')" "pxStopped p' = pxStopped p"
    and "pxPanicked p' = pxPanicked p" "chClosed (pxStopWrite p') = (\<not> write_ch_open pc')"
    and "chClosed (pxStopRead p') = (\<not> read_ch_open pc')" "pxConnClosed p' = (\<not> conn_open pc')"
  shows "close_inv p'"
proof -
  have "gate_holder g pc p" by (rule close_inv_holder [OF assms(1-3)])
  then have "gate_holder g pc' p'"
    using assms(4-) by (simp add: gate_holder_def sole_holder_upd(1))
  with assms(1,6,7) show ?thesis by (auto simp: close_inv_def)
qed

lemma close_inv_cong:
  assumes "close_inv p" "pxClosers p' = pxClosers p" "pxStopped p' = pxStopped p"
    and "pxPanicked p' = pxPanicked p" "pxStopWrite p' = pxStopWrite p"
    and "pxStopRead p' = pxStopRead p" "pxConnClosed p' = pxConnClosed p"
  shows "close_inv p'"
  using assms unfolding close_inv_defs by simp

lemma close_inv_step:
  assumes inv: "close_inv p" and step: "px_step l p = Some p'"
  shows "close_inv p'"
  using step
proof (cases rule: px_stepE)
  case (reading ev)
  show ?thesis by (rule close_inv_cong [OF inv]) (simp_all add: readingLoop_close_part [OF reading(2)])
next
  case (writing ev)
  show ?thesis by (rule close_inv_cong [OF inv]) (simp_all add: writingLoop_close_part [OF writing(2)])
next
  case (closing g ev)
  have holder: "gate_holder g pc p" if "pxClosers p g = Some pc" "gate_passed pc" for pc
    by (rule close_inv_holder [OF inv that])
  from closing(2) show ?thesis
  proof (cases rule: Close_cases)
    case (enter c)
    then have put: "chBuf (pxStopped p) = []" "chBuf c \<noteq> []" "chCap c = chCap (pxStopped p)"
        "\<not> chClosed c"
      using inv enter(3) unfolding close_inv_def chan_put_Some_iff by simp_all
    then have free: "gate_free p"
      using inv unfolding close_inv_def gate_holder_def by blast
    have "gate_holder g CloseConn p'"
      using enter(4) free put by (simp add: gate_holder_def gate_free_def sole_holder_upd(3))
    moreover have "\<not> pxPanicked p'" "chCap (pxStopped p') = 1" "\<not> chClosed (pxStopped p')"
      using inv put enter(4) by (simp_all add: close_inv_def)
    ultimately show ?thesis unfolding close_inv_def by blast
  next
    case refuse
    have "gate_free p \<Longrightarrow> gate_free p'" using refuse by (auto simp: gate_free_def)
    moreover have "gate_holder h pc p \<Longrightarrow> gate_holder h pc p'" for h pc
      using refuse by (auto simp: gate_holder_def sole_holder_upd(2))
    ultimately show ?thesis using inv refuse(4) by (auto simp: close_inv_def)
  next
    case conn
    with holder [of CloseConn] show ?thesis
      by (intro gate_holder_moves [OF inv conn(1), of CloseSignalWrite]) (simp_all add: gate_holder_def)
  next
    case (signal_write q)
    with holder [of CloseSignalWrite] show ?thesis
      by (intro gate_holder_moves [OF inv signal_write(1), of CloseSignalRead]) (auto simp: gate_holder_def)
  next
    case (signal_read q)
    with holder [of CloseSignalRead] show ?thesis
      by (intro gate_holder_moves [OF inv signal_read(1), of CloseWriteCh]) (auto simp: gate_holder_def)
  next
    case write_ch
    with holder [of CloseWriteCh] show ?thesis
      by (intro gate_holder_moves [OF inv write_ch(1), of CloseReadCh]) (simp_all add: gate_holder_def)
  next
    case read_ch
    with holder [of CloseReadCh] show ?thesis
      by (intro gate_holder_moves [OF inv read_ch(1), of "CloseDone None"]) (simp_all add: gate_holder_def)
  next
    case panic
    with holder [of CloseWriteCh] holder [of CloseReadCh] show ?thesis
      by (auto simp: gate_holder_def)
  qed
qed (use inv in \<open>simp_all add: close_inv_defs\<close>)

interpretation px_close: machine_invariant px_step "\<lambda>_. True" close_inv "NewProxy e" for e
proof unfold_locales
  show "close_inv (NewProxy e)" by (simp add: close_inv_defs NewProxy_def)
qed (rule close_inv_step)

lemma px_close_run: "exec px_step ls (NewProxy e) = Some p \<Longrightarrow> close_inv p"
  using px_close.exec_inv [of ls e p] by (simp add: list_all_iff)

text \<open>
  C18: \<open>Close\<close> is safe under concurrency. Whatever other goroutines call \<open>Close\<close> at the same time
  and whatever the loops do, no channel is closed twice, so the proxy never panics; at most one call
  returns \<open>nil\<close>, and when it has returned the connection and both stop channels are closed; every
  other call that has returned was refused with \<open>errProxyStooping\<close>.
\<close>

theorem Close_never_panics:
  assumes "reaches px_step (NewProxy e) p"
  shows "\<not> pxPanicked p \<and>
     (\<forall>g h. pxClosers p g = Some (CloseDone None) \<longrightarrow> pxClosers p h = Some (CloseDone None) \<longrightarrow> g = h) \<and>
     (\<forall>g. pxClosers p g = Some (CloseDone None) \<longrightarrow>
        pxConnClosed p \<and> chClosed (pxStopWrite p) \<and> chClosed (pxStopRead p))"
proof -
  have inv: "close_inv p" by (rule px_close.reaches_inv [OF assms]) simp
  have holder: "gate_holder g (CloseDone None) p" if "pxClosers p g = Some (CloseDone None)" for g
    using close_inv_holder [OF inv that] by simp
  have "g = h" if "pxClosers p g = Some (CloseDone None)" "pxClosers p h = Some (CloseDone None)" for g h
    using holder [OF that(1)] that(2) by (simp add: gate_holder_def sole_holder_def)
  moreover have "pxConnClosed p \<and> chClosed (pxStopWrite p) \<and> chClosed (pxStopRead p)"
    if "pxClosers p g = Some (CloseDone None)" for g
    using holder [OF that] by (simp add: gate_holder_def)
  moreover have "\<not> pxPanicked p" using inv by (simp add: close_inv_def)
  ultimately show ?thesis by blast
qed

lemmas px_eval =
  NewProxy_def px_step.simps Close.simps readingLoop.simps writingLoop.simps stop_write_loop_def
  stop_read_loop_def write_loop_parked_def read_loop_parked_def trySendEoL_def after_read_def
  with_read_worker_def read_worker_of_def write_error_def write_result_ok_def errWriteTimeout_def
  writeTimeout_def chan_close_def chan_put_def chan_send_def chan_take_def chan_recv_def make_chan_def

definition close_events :: "nat \<Rightarrow> px_label list" where
  "close_events g =
     [Closing g ClCall, Closing g ClConn, Closing g (ClSignalWrite False), Closing g (ClSignalRead False),
      Closing g ClWriteCh, Closing g ClReadCh]"

theorem Close_never_panics_witness:
  "\<exists>p. exec px_step (close_events 0 @ [Closing 1 ClCall]) (NewProxy (make_chan 1)) = Some p \<and>
     \<not> pxPanicked p \<and> pxConnClosed p"
proof -
  obtain p where p: "exec px_step (close_events 0 @ [Closing 1 ClCall]) (NewProxy (make_chan 1)) = Some p"
    and c: "pxClosers p 0 = Some (CloseDone None)"
    by (simp add: close_events_def px_eval)
  from Close_never_panics [OF exec_reaches [OF p]] p c show ?thesis by blast
qed

text \<open>
  After \<open>Close\<close> the loops can end. Once some call of \<open>Close\<close> has returned \<open>nil\<close>, each of the
  two loops that has not returned yet can take its stop branch at once, whatever it was waiting
  for, and then both have returned.
\<close>

theorem Close_stops_both_loops:
  assumes "exec px_step ls (NewProxy e) = Some p"
    and "pxClosers p g = Some (CloseDone None)"
  shows "\<exists>ls' p'. set ls' \<subseteq> {Writing WrStop, Reading RdStop} \<and> exec px_step ls' p = Some p' \<and>
     pxWriteLoop p' = WLReturned \<and> \<not> read_loop_parked p'"
proof -
  have inv: "close_inv p" by (rule px_close_run [OF assms(1)])
  have closed: "chClosed (pxStopWrite p)" "chClosed (pxStopRead p)" "\<not> pxPanicked p"
    using close_inv_holder [OF inv assms(2)] inv by (simp_all add: gate_holder_def close_inv_def)
  let ?w = "if write_loop_parked p then [Writing WrStop] else []"
  let ?r = "if read_loop_parked p then [Reading RdStop] else []"
  have "\<exists>p'. exec px_step (?w @ ?r) p = Some p' \<and> pxWriteLoop p' = WLReturned \<and> \<not> read_loop_parked p'"
    using closed
    by (auto simp: px_step.simps writingLoop.simps readingLoop.simps write_loop_parked_def
        read_loop_parked_def stop_write_loop_def stop_read_loop_def split: read_loop.splits)
  then obtain p' where "exec px_step (?w @ ?r) p = Some p'" "pxWriteLoop p' = WLReturned"
    "\<not> read_loop_parked p'" by blast
  moreover have "set (?w @ ?r) \<subseteq> {Writing WrStop, Reading RdStop}" by auto
  ultimately show ?thesis by blast
qed

theorem Close_stops_both_loops_witness:
  "\<exists>p ls' p'. exec px_step (close_events 0) (NewProxy (make_chan 1)) = Some p \<and>
     exec px_step ls' p = Some p' \<and> pxWriteLoop p' = WLReturned"
proof -
  obtain p where p: "exec px_step (close_events 0) (NewProxy (make_chan 1)) = Some p"
    and c: "pxClosers p 0 = Some (CloseDone None)"
    by (simp add: close_events_def px_eval)
  from Close_stops_both_loops [OF p c] p show ?thesis by blast
qed

section \<open>The order of the data\<close>

fun messages :: "px_label list \<Rightarrow> bytes list" where
  "messages [] = []"
| "messages (Message d # ls) = d # messages ls"
| "messages (_ # ls) = messages ls"

fun reads :: "px_label list \<Rightarrow> bytes list" where
  "reads [] = []"
| "reads (Reading (RdRead d err) # ls) = (if d = [] then reads ls else d # reads ls)"
| "reads (_ # ls) = reads ls"

lemma messages_append [simp]: "messages (xs @ ys) = messages xs @ messages ys"
  by (induction xs rule: messages.induct) auto

lemma reads_append [simp]: "reads (xs @ ys) = reads xs @ reads ys"
  by (induction xs rule: reads.induct) auto

fun writing_now :: "write_loop \<Rightarrow> bytes list" where
  "writing_now (WLInner (WWWrite d) t) = [d]"
| "writing_now _ = []"

text \<open>Everything the data channel delivered, in order: written, being written, buffered.\<close>

definition write_order :: "bytes list \<Rightarrow> proxy \<Rightarrow> bool" where
  "write_order ms p \<longleftrightarrow>
     ms = map fst (pxWrites p) @ pxOrphans p @ writing_now (pxWriteLoop p) @ chBuf (pxBuf p) \<and>
     (pxOrphans p \<noteq> [] \<longrightarrow> pxWriteLoop p = WLReturned \<and> length (pxOrphans p) = 1)"

fun no_timeout :: "px_label \<Rightarrow> bool" where
  "no_timeout (Writing WrTimeout) = False"
| "no_timeout _ = True"

lemma stop_write_order:
  "write_order ms p \<Longrightarrow> write_loop_parked p \<Longrightarrow> write_order ms (stop_write_loop p)"
  by (cases "pxWriteLoop p" rule: writing_now.cases)
    (auto simp: write_order_def stop_write_loop_def write_loop_parked_def)

lemma writingLoop_order:
  assumes "write_order ms p" "writingLoop ev p = Some p'" "ev \<noteq> WrTimeout"
  shows "write_order ms p'"
proof (cases ev)
  case WrNext
  with assms show ?thesis
    by (auto simp: writingLoop.simps write_order_def dest!: gochan.get_contents
        split: write_loop.splits option.splits)
next
  case (WrWrite n err)
  with assms show ?thesis
    by (auto simp: writingLoop.simps write_order_def
        split: write_loop.splits write_worker.splits if_splits)
next
  case WrTake
  with assms show ?thesis
    by (auto simp: writingLoop.simps write_order_def
        split: write_loop.splits write_worker.splits option.splits)
next
  case WrStop
  with assms stop_write_order show ?thesis by (auto simp: writingLoop.simps split: if_splits)
next
  case (WrOrphan i n err)
  with assms(1,2) obtain d where "pxOrphans p = [d]" "i = 0"
    by (auto simp: writingLoop.simps write_order_def length_Suc_conv split: if_splits)
  with WrOrphan assms(1,2) show ?thesis
    by (auto simp: writingLoop.simps write_order_def split: if_splits)
qed (use assms in simp)

lemma write_order_cong:
  "write_order ms p \<Longrightarrow> pxWrites p' = pxWrites p \<Longrightarrow> pxOrphans p' = pxOrphans p \<Longrightarrow>
     pxWriteLoop p' = pxWriteLoop p \<Longrightarrow> pxBuf p' = pxBuf p \<Longrightarrow> write_order ms p'"
  by (simp add: write_order_def)

lemma write_order_step:
  assumes W: "write_order ms p" and step: "px_step l p = Some p'" and adm: "no_timeout l"
  shows "write_order (ms @ messages [l]) p'"
  using step
proof (cases rule: px_stepE)
  case (message d c)
  with W gochan.put_contents [OF message(2)] show ?thesis by (auto simp: write_order_def)
next
  case (reading ev)
  from W have "write_order ms p'"
    by (rule write_order_cong) (simp_all add: readingLoop_close_part [OF reading(2)])
  with reading(1) show ?thesis by simp
next
  case (writing ev)
  with adm have "ev \<noteq> WrTimeout" by auto
  with writing writingLoop_order [OF W] show ?thesis by simp
next
  case (closing g ev)
  from closing(2) have "write_order ms p'"
  proof (cases rule: Close_cases)
    case (signal_write q)
    have "write_order ms q" using signal_write(2) W stop_write_order by blast
    then show ?thesis by (rule write_order_cong) (simp_all add: signal_write(3))
  next
    case (signal_read q)
    have "write_order ms q" using signal_read(2) W by (auto simp: write_order_def)
    then show ?thesis by (rule write_order_cong) (simp_all add: signal_read(3))
  qed (use W in \<open>simp_all add: write_order_def\<close>)
  with closing(1) show ?thesis by simp
qed (use W in \<open>simp_all add: write_order_def\<close>)

lemma write_order_run:
  "exec px_step ls (NewProxy e) = Some p \<Longrightarrow> list_all no_timeout ls \<Longrightarrow> write_order (messages ls) p"
proof (induction rule: exec_trace_induct)
  case start
  show ?case by (simp add: write_order_def NewProxy_def)
next
  case (step ls l p q)
  from step.prems write_order_step [OF step.IH step.hyps(2)] show ?case by simp
qed

text \<open>
  C19: towards the socket, nothing is lost, doubled or reordered as long as no write times out.
  In every run without the timeout branch, the messages the data channel has delivered are, in
  this order, those passed to \<open>conn.Write\<close>, at most one that is still to be passed, and those in
  the buffer; this holds with concurrent calls of \<open>Close\<close> and with write errors too.
\<close>

theorem writes_keep_the_order:
  assumes "exec px_step ls (NewProxy e) = Some p" and "list_all no_timeout ls"
  shows "\<exists>now. messages ls = map fst (pxWrites p) @ now @ chBuf (pxBuf p) \<and> length now \<le> 1"
proof -
  have W: "write_order (messages ls) p" by (rule write_order_run [OF assms])
  have "length (pxOrphans p @ writing_now (pxWriteLoop p)) \<le> 1"
    using W by (cases "pxWriteLoop p" rule: writing_now.cases) (auto simp: write_order_def)
  with W show ?thesis unfolding write_order_def by (metis append.assoc)
qed

definition copy_run :: "px_label list" where
  "copy_run =
     [Message [1], Message [2], Writing WrNext, Writing (WrWrite 1 None), Writing WrTake, Writing WrNext]"

theorem writes_keep_the_order_witness:
  "\<exists>p now. exec px_step copy_run (NewProxy (make_chan 1)) = Some p \<and> pxWrites p = [([1], 1)] \<and>
     messages copy_run = [1] # now @ chBuf (pxBuf p)"
proof -
  obtain p where p: "exec px_step copy_run (NewProxy (make_chan 1)) = Some p"
    and w: "pxWrites p = [([1], 1)]"
    by (simp add: copy_run_def px_eval)
  have "list_all no_timeout copy_run" by (simp add: copy_run_def)
  from writes_keep_the_order [OF p this] p w show ?thesis by auto
qed

text \<open>
  What is left of this when writes time out: the loop goes on with the next message while the slow write
  still runs, in a goroutine of its own.
\<close>

definition write_account :: "bytes list \<Rightarrow> proxy \<Rightarrow> bool" where
  "write_account ms p \<longleftrightarrow>
     (\<exists>taken. ms = taken @ chBuf (pxBuf p) \<and>
        mset taken = mset (map fst (pxWrites p)) + mset (pxOrphans p) + mset (writing_now (pxWriteLoop p)))"

lemma write_account_cong:
  "write_account ms p \<Longrightarrow> pxWrites p' = pxWrites p \<Longrightarrow> pxOrphans p' = pxOrphans p \<Longrightarrow>
     pxWriteLoop p' = pxWriteLoop p \<Longrightarrow> pxBuf p' = pxBuf p \<Longrightarrow> write_account ms p'"
  by (simp add: write_account_def)

lemma stop_write_account: "write_account ms p \<Longrightarrow> write_account ms (stop_write_loop p)"
  by (cases "pxWriteLoop p" rule: writing_now.cases)
    (auto simp: write_account_def stop_write_loop_def)

lemma mset_take_out: "i < length xs \<Longrightarrow> mset xs = add_mset (xs ! i) (mset (take i xs @ drop (Suc i) xs))"
  by (metis id_take_nth_drop mset.simps(2) mset_append union_mset_add_mset_right)

lemma writingLoop_account:
  assumes "write_account ms p" "writingLoop ev p = Some p'"
  shows "write_account ms p'"
proof (cases ev)
  case WrNext
  with assms(2) obtain d c t where w: "pxWriteLoop p = WLSelect" "chBuf (pxBuf p) = d # chBuf c"
      "p' = p\<lparr>pxBuf := c, pxWriteLoop := WLInner (WWWrite d) t\<rparr>"
    by (auto simp: writingLoop.simps dest!: gochan.get_contents split: write_loop.splits option.splits)
  from assms(1) w(1,2) obtain taken where "ms = (taken @ [d]) @ chBuf c"
      "mset taken = mset (map fst (pxWrites p)) + mset (pxOrphans p)"
    by (auto simp: write_account_def)
  then show ?thesis unfolding write_account_def w(3) by (intro exI [of _ "taken @ [d]"]) simp
next
  case (WrWrite n err)
  with assms show ?thesis
    by (auto simp: writingLoop.simps write_account_def
        split: write_loop.splits write_worker.splits if_splits)
next
  case WrTake
  with assms show ?thesis
    by (auto simp: writingLoop.simps write_account_def
        split: write_loop.splits write_worker.splits option.splits)
next
  case WrTimeout
  with assms show ?thesis
    by (auto simp: writingLoop.simps write_account_def Let_def
        split: write_loop.splits write_worker.splits option.splits if_splits)
next
  case WrStop
  with assms stop_write_account show ?thesis by (auto simp: writingLoop.simps split: if_splits)
next
  case (WrOrphan i n err)
  with assms show ?thesis
    by (auto simp: writingLoop.simps write_account_def mset_take_out split: if_splits)
qed

lemma write_account_step:
  assumes W: "write_account ms p" and step: "px_step l p = Some p'"
  shows "write_account (ms @ messages [l]) p'"
  using step
proof (cases rule: px_stepE)
  case (message d c)
  with W gochan.put_contents [OF message(2)] show ?thesis by (auto simp: write_account_def)
next
  case (reading ev)
  from W have "write_account ms p'"
    by (rule write_account_cong) (simp_all add: readingLoop_close_part [OF reading(2)])
  with reading(1) show ?thesis by simp
next
  case (writing ev)
  with writingLoop_account [OF W] show ?thesis by simp
next
  case (closing g ev)
  from closing(2) have "write_account ms p'"
  proof (cases rule: Close_cases)
    case (signal_write q)
    have "write_account ms q" using signal_write(2) W stop_write_account by blast
    then show ?thesis by (rule write_account_cong) (simp_all add: signal_write(3))
  next
    case (signal_read q)
    have "write_account ms q" using signal_read(2) W by (auto simp: write_account_def)
    then show ?thesis by (rule write_account_cong) (simp_all add: signal_read(3))
  qed (use W in \<open>simp_all add: write_account_def\<close>)
  with closing(1) show ?thesis by simp
qed (use W in \<open>simp_all add: write_account_def\<close>)

text \<open>
  C20: time-outs or not, no message is lost or doubled on the way to the socket. In every run, with
  write errors, time-outs and calls of \<open>Close\<close>, the messages the data channel has delivered are taken
  from the buffer in the order of their arrival, and those taken are, each exactly once, the messages
  \<open>conn.Write\<close> has been called with to the end, those of the calls that the loop has stopped waiting for,
  and the one it waits for.
\<close>

theorem writes_are_conserved:
  assumes "exec px_step ls (NewProxy e) = Some p"
  shows "\<exists>taken. messages ls = taken @ chBuf (pxBuf p) \<and>
     mset taken = mset (map fst (pxWrites p)) + mset (pxOrphans p) + mset (writing_now (pxWriteLoop p))"
proof -
  have "write_account (messages ls) p"
    using assms
  proof (induction rule: exec_trace_induct)
    case start
    show ?case by (simp add: write_account_def NewProxy_def)
  next
    case (step ls l p q)
    from write_account_step [OF step.IH step.hyps(2)] show ?case by simp
  qed
  then show ?thesis by (simp add: write_account_def)
qed

theorem writes_are_conserved_witness:
  "\<exists>p taken. exec px_step [Message [1], Message [2], Message [3], Writing WrNext, PxTick (100 * millisecond),
       Writing WrTimeout, Writing WrNext, Writing (WrWrite 1 None)] (NewProxy (make_chan 1)) = Some p \<and>
     [[1], [2], [3]] = taken @ [[3]] \<and> mset taken = {#[2]#} + {#[1]#}"
proof -
  let ?ls = "[Message [1], Message [2], Message [3], Writing WrNext, PxTick (100 * millisecond),
       Writing WrTimeout, Writing WrNext, Writing (WrWrite 1 None)]"
  obtain p where p: "exec px_step ?ls (NewProxy (make_chan 1)) = Some p"
    and w: "pxWrites p = [([2], 1)]" "pxOrphans p = [[1]]" "chBuf (pxBuf p) = [[3]]"
      "writing_now (pxWriteLoop p) = []"
    by (simp add: px_eval)
  from writes_are_conserved [OF p] p w show ?thesis by auto
qed

fun sending_now :: "read_worker \<Rightarrow> bytes list" where
  "sending_now (RWSend d) = [d]"
| "sending_now _ = []"

lemma worker_simps [simp]:
  "read_worker_of (with_read_worker f l) = f (read_worker_of l)"
  "read_worker_of (RLSelect w) = w" "read_worker_of (RLReturned w) = w"
  by (simp_all add: read_worker_of_def with_read_worker_def split: read_loop.splits)

lemma stop_read_worker [simp]:
  "read_worker_of (pxReadLoop (stop_read_loop p)) = read_worker_of (pxReadLoop p)"
  by (simp add: stop_read_loop_def read_worker_of_def split: read_loop.splits)

definition read_order :: "bytes list \<Rightarrow> proxy \<Rightarrow> bool" where
  "read_order rs p \<longleftrightarrow> rs = map fst (pxSends p) @ sending_now (read_worker_of (pxReadLoop p))"

lemma readingLoop_order:
  assumes "read_order rs p" "readingLoop ev p = Some p'"
  shows "read_order (rs @ reads [Reading ev]) p'"
proof (cases ev)
  case (RdRead d err)
  with assms show ?thesis
    by (auto simp: readingLoop.simps read_order_def after_read_def split: if_splits)
next
  case (RdSend err)
  with assms show ?thesis
    by (auto simp: readingLoop.simps read_order_def split: read_worker.splits)
next
  case RdTake
  with assms show ?thesis
    by (auto simp: readingLoop.simps read_order_def Let_def
        split: read_loop.splits read_worker.splits option.splits)
next
  case RdStop
  with assms show ?thesis by (auto simp: readingLoop.simps read_order_def split: if_splits)
qed

lemma read_order_step:
  assumes R: "read_order rs p" and step: "px_step l p = Some p'"
  shows "read_order (rs @ reads [l]) p'"
  using step
proof (cases rule: px_stepE)
  case (reading ev)
  with readingLoop_order [OF R] show ?thesis by simp
next
  case (writing ev)
  with R writingLoop_close_part [OF writing(2)] show ?thesis by (simp add: read_order_def)
next
  case (closing g ev)
  from closing(2) R closing(1) show ?thesis
    by (cases rule: Close_cases) (auto simp: read_order_def)
qed (use R in \<open>simp_all add: read_order_def\<close>)

lemma read_order_run:
  "exec px_step ls (NewProxy e) = Some p \<Longrightarrow> read_order (reads ls) p"
proof (induction rule: exec_trace_induct)
  case start
  show ?case by (simp add: read_order_def NewProxy_def)
next
  case (step ls l p q)
  from read_order_step [OF step.IH step.hyps(2)] show ?case by simp
qed

text \<open>
  towards the data channel, the order is always kept. In every run, the chunks that
  \<open>conn.Read\<close> has returned are, in this order, those given to \<open>dataChannel.Send\<close> and at most
  one that is about to be; stopping the loop does not change this.
\<close>

theorem sends_keep_the_order:
  assumes "exec px_step ls (NewProxy e) = Some p"
  shows "\<exists>now. reads ls = map fst (pxSends p) @ now \<and> length now \<le> 1"
proof -
  have "length (sending_now (read_worker_of (pxReadLoop p))) \<le> 1"
    by (cases "read_worker_of (pxReadLoop p)") simp_all
  with read_order_run [OF assms] show ?thesis unfolding read_order_def by blast
qed

theorem sends_keep_the_order_witness:
  "\<exists>p now. exec px_step [Reading (RdRead [7] None), Reading (RdSend None), Reading RdTake,
      Reading (RdRead [8] None)] (NewProxy (make_chan 1)) = Some p \<and>
     [[7], [8]] = map fst (pxSends p) @ now \<and> pxSends p = [([7], None)]"
proof -
  let ?ls = "[Reading (RdRead [7] None), Reading (RdSend None), Reading RdTake, Reading (RdRead [8] None)]"
  obtain p where p: "exec px_step ?ls (NewProxy (make_chan 1)) = Some p" and s: "pxSends p = [([7], None)]"
    by (simp add: px_eval)
  from sends_keep_the_order [OF p] p s show ?thesis by auto
qed

section \<open>Errors\<close>

definition eol_wf :: "proxy \<Rightarrow> bool" where
  "eol_wf p \<longleftrightarrow> chCap (pxEoL p) = 1 \<and> \<not> chClosed (pxEoL p)"

lemma eol_wf_step:
  assumes "eol_wf p" "px_step l p = Some p'"
  shows "eol_wf p'"
  using assms(2)
proof (cases rule: px_stepE)
  case (reading ev)
  with assms(1) show ?thesis
    by (cases ev) (auto simp: eol_wf_def readingLoop.simps Let_def trySendEoL_def chan_put_Some_iff
        split: if_splits read_worker.splits read_loop.splits option.splits)
next
  case (writing ev)
  with assms(1) show ?thesis
    by (cases ev) (auto simp: eol_wf_def writingLoop.simps Let_def trySendEoL_def chan_put_Some_iff
        split: if_splits write_worker.splits write_loop.splits option.splits prod.splits)
next
  case (closing g ev)
  from closing(2) assms(1) show ?thesis by (cases rule: Close_cases) (auto simp: eol_wf_def)
next
  case (eol_taken err c)
  with assms(1) show ?thesis by (auto simp: eol_wf_def chan_take_Some_iff)
qed (use assms(1) in \<open>auto simp: eol_wf_def chan_put_Some_iff\<close>)

interpretation px_eol: machine_invariant px_step "\<lambda>_. True" eol_wf "NewProxy (make_chan 1)"
  by unfold_locales (erule (1) eol_wf_step, simp add: eol_wf_def NewProxy_def)

lemma trySendEoL_leaves_signal:
  assumes "eol_wf p"
  obtains (sent) c where "trySendEoL (pxEoL p) err = Some c" "chBuf c \<noteq> []"
  | (pending) "trySendEoL (pxEoL p) err = None" "chBuf (pxEoL p) \<noteq> []"
  using assms
  by (cases "chBuf (pxEoL p) = []")
    (auto simp: eol_wf_def trySendEoL_def chan_put_def chan_send_def)

text \<open>The branches of the loops that have an error in hand.\<close>

fun handles_error :: "px_label \<Rightarrow> proxy \<Rightarrow> bool" where
  "handles_error (Reading RdTake) p = (\<exists>err. pxReadLoop p = RLSelect (RWResolved (Some err)))"
| "handles_error (Writing WrTake) p = (\<exists>err t. pxWriteLoop p = WLInner (WWResolved (Some err)) t)"
| "handles_error (Writing WrTimeout) p = True"
| "handles_error _ p = False"

text \<open>
  No error is swallowed. Whenever a loop handles an error of a read, a write or a send, or a
  write timeout, a signal is pending on the end-of-life channel right after, so the proxy's owner
  learns that the proxy has to be closed; a loop gives up only when a signal was already there.
\<close>

theorem errors_reach_the_owner:
  assumes "exec px_step ls (NewProxy (make_chan 1)) = Some p"
    and "handles_error l p" and "px_step l p = Some p'"
  shows "chBuf (pxEoL p') \<noteq> []"
proof -
  have wf: "eol_wf p" using px_eol.exec_inv [OF assms(1)] by (simp add: list_all_iff)
  have live: "\<not> pxPanicked p" using assms(3) by (simp add: px_step.simps split: if_splits)
  consider (rd) err where "l = Reading RdTake" "pxReadLoop p = RLSelect (RWResolved (Some err))"
    | (wr) err t where "l = Writing WrTake" "pxWriteLoop p = WLInner (WWResolved (Some err)) t"
    | (time) "l = Writing WrTimeout"
    using assms(2) by (cases "(l, p)" rule: handles_error.cases) auto
  then show ?thesis
  proof cases
    case rd
    then show ?thesis
      using assms(3) live
      by (cases rule: trySendEoL_leaves_signal [OF wf, of "Some (if err = ErrNetClosed \<or> err = ErrClosedPipe then EOF else err)"])
        (auto simp: px_step.simps readingLoop.simps Let_def)
  next
    case wr
    then show ?thesis
      using assms(3) live
      by (cases rule: trySendEoL_leaves_signal [OF wf, of "Some err"])
        (auto simp: px_step.simps writingLoop.simps)
  next
    case time
    then show ?thesis
      using assms(3) live
      by (cases rule: trySendEoL_leaves_signal [OF wf, of "Some errWriteTimeout"])
        (auto simp: px_step.simps writingLoop.simps Let_def split: write_loop.splits if_splits)
  qed
qed

theorem errors_reach_the_owner_witness:
  "\<exists>p p'. exec px_step [Reading (RdRead [] (Some ErrNetClosed))] (NewProxy (make_chan 1)) = Some p \<and>
     px_step (Reading RdTake) p = Some p' \<and> chBuf (pxEoL p') \<noteq> []"
proof -
  obtain p p' where p: "exec px_step [Reading (RdRead [] (Some ErrNetClosed))] (NewProxy (make_chan 1)) = Some p"
    and h: "handles_error (Reading RdTake) p" and s: "px_step (Reading RdTake) p = Some p'"
    by (simp add: px_eval)
  from errors_reach_the_owner [OF p h s] p s show ?thesis by blast
qed

end
