(* ===== verification/Tunnel.thy ===== *)
theory Tunnel
  imports ProxyProps "HOL-Library.Sublist"
begin

text \<open>
  One tunnelled connection from end to end: the proxy on the client's side, the data channel, and the
  proxy on the host's side. The data channel belongs to the WebRTC library; it is made by
  \<open>CreateDataChannel(id, nil)\<close>, whose default is ordered and reliable. This documented behaviour is the
  named hypothesis \<open>ordered_delivery\<close>, between what one proxy has sent and what the other has received.
\<close>

section \<open>What goes in and what comes out\<close>

definition sent :: "proxy \<Rightarrow> bytes list" where
  "sent p = map fst (filter (\<lambda>(d, err). err = None) (pxSends p))"

definition written :: "proxy \<Rightarrow> bytes list" where
  "written q = map (\<lambda>(d, n). take n d) (pxWrites q)"

definition ordered_delivery :: "px_label list \<Rightarrow> proxy \<Rightarrow> bool" where
  "ordered_delivery ls p \<longleftrightarrow> prefix (messages ls) (sent p)"

lemma map_filter_subseq: "subseq (map f (filter P xs)) (map f xs)"
  by (intro subseq_map subseq_filter_left)

lemma sent_subseq: "subseq (sent p) (map fst (pxSends p))"
  by (simp add: sent_def map_filter_subseq)

lemma sent_all: "\<forall>(d, err) \<in> set (pxSends p). err = None \<Longrightarrow> sent p = map fst (pxSends p)"
  by (auto simp: sent_def intro!: arg_cong [where f = "map fst"] filter_True)

lemma written_all: "\<forall>(d, n) \<in> set (pxWrites q). n = length d \<Longrightarrow> written q = map fst (pxWrites q)"
  by (auto simp: written_def)

lemma sends_prefix_of_reads:
  "exec px_step ls (NewProxy e) = Some p \<Longrightarrow> prefix (map fst (pxSends p)) (reads ls)"
  using read_order_run [of ls e p] by (auto simp: read_order_def)

lemma writes_prefix_of_messages:
  "exec px_step ls (NewProxy e) = Some q \<Longrightarrow> list_all no_timeout ls \<Longrightarrow>
     prefix (map fst (pxWrites q)) (messages ls)"
  using write_order_run [of ls e q] by (auto simp: write_order_def)

lemma prefix_concat: "prefix xs ys \<Longrightarrow> prefix (concat xs) (concat ys)"
  by (auto simp: prefix_def)

section \<open>The stream of bytes\<close>

text \<open>
  C2: the tunnel is a stream. Take any run of the proxy at one end and any run of the proxy at the
  other end of an ordered, reliable data channel. While no write has timed out, the chunks passed
  to the far socket are among those read from the near socket, in the same order and none twice. If
  moreover no \<open>Send\<close> has failed and no \<open>Write\<close> was cut short, then the bytes written to the far
  socket are a prefix of the bytes read from the near one: nothing is lost in between.
\<close>

theorem tunnel_is_a_stream:
  assumes "exec px_step ls (NewProxy e) = Some p" and "exec px_step ls' (NewProxy e') = Some q"
    and "ordered_delivery ls' p" and "list_all no_timeout ls'"
  shows "subseq (map fst (pxWrites q)) (reads ls) \<and>
     ((\<forall>(d, err) \<in> set (pxSends p). err = None) \<longrightarrow>
      (\<forall>(d, n) \<in> set (pxWrites q). n = length d) \<longrightarrow>
      prefix (concat (written q)) (concat (reads ls)))"
proof -
  have near: "prefix (map fst (pxSends p)) (reads ls)" by (rule sends_prefix_of_reads [OF assms(1)])
  have far: "prefix (map fst (pxWrites q)) (sent p)"
    using writes_prefix_of_messages [OF assms(2,4)] assms(3)
    unfolding ordered_delivery_def by (rule prefix_order.trans)
  have "subseq (map fst (pxWrites q)) (reads ls)"
    using prefix_imp_subseq [OF far] sent_subseq prefix_imp_subseq [OF near]
    by (blast intro: subseq_order.trans)
  moreover have "prefix (concat (written q)) (concat (reads ls))"
    if "\<forall>(d, err) \<in> set (pxSends p). err = None" "\<forall>(d, n) \<in> set (pxWrites q). n = length d"
    using far near unfolding written_all [OF that(2)] sent_all [OF that(1)]
    by (blast intro: prefix_concat prefix_order.trans)
  ultimately show ?thesis by blast
qed

definition near_run :: "px_label list" where
  "near_run = [Reading (RdRead [1, 2] None), Reading (RdSend None), Reading RdTake,
     Reading (RdRead [3] None), Reading (RdSend None)]"

definition far_run :: "px_label list" where
  "far_run = [Message [1, 2], Message [3], Writing WrNext, Writing (WrWrite 2 None), Writing WrTake]"

theorem tunnel_is_a_stream_witness:
  "\<exists>p q. exec px_step near_run (NewProxy (make_chan 1)) = Some p \<and>
     exec px_step far_run (NewProxy (make_chan 1)) = Some q \<and> concat (written q) = [1, 2] \<and>
     prefix (concat (written q)) [1, 2, 3]"
proof -
  obtain p where p: "exec px_step near_run (NewProxy (make_chan 1)) = Some p"
    and s: "pxSends p = [([1, 2], None), ([3], None)]"
    by (simp add: near_run_def px_eval)
  obtain q where q: "exec px_step far_run (NewProxy (make_chan 1)) = Some q"
    and w: "pxWrites q = [([1, 2], 2)]"
    by (simp add: far_run_def px_eval)
  have o: "ordered_delivery far_run p" and n: "list_all no_timeout far_run"
    by (simp_all add: ordered_delivery_def sent_def s far_run_def)
  from tunnel_is_a_stream [OF p q o n] p q s w show ?thesis by (simp add: near_run_def written_def)
qed

text \<open>
  A failed \<open>Send\<close> leaves a gap. There are a run of the near proxy in which \<open>Send\<close> fails for the
  first of two chunks and succeeds for the second, because the reading loop goes on after it has
  signalled the error, and a run of the far proxy over an ordered, reliable channel in which the
  far socket gets the second chunk only, so that the bytes it gets are no prefix of those read.
\<close>

theorem failed_send_leaves_a_gap:
  "\<exists>ls ls' p q. exec px_step ls (NewProxy (make_chan 1)) = Some p \<and>
     exec px_step ls' (NewProxy (make_chan 1)) = Some q \<and> ordered_delivery ls' p \<and>
     list_all no_timeout ls' \<and> reads ls = [[1], [2]] \<and> written q = [[2]]"
proof -
  let ?ls = "[Reading (RdRead [1] None), Reading (RdSend (Some ErrClosedPipe)), Reading RdTake,
     Reading (RdRead [2] None), Reading (RdSend None)]"
  let ?ls' = "[Message [2], Writing WrNext, Writing (WrWrite 1 None)]"
  obtain p where p: "exec px_step ?ls (NewProxy (make_chan 1)) = Some p"
    and s: "pxSends p = [([1], Some ErrClosedPipe), ([2], None)]"
    by (simp add: px_eval)
  obtain q where q: "exec px_step ?ls' (NewProxy (make_chan 1)) = Some q" and w: "pxWrites q = [([2], 1)]"
    by (simp add: px_eval)
  have "ordered_delivery ?ls' p" "written q = [[2]]"
    by (simp_all add: ordered_delivery_def sent_def s written_def w)
  with p q show ?thesis by (intro exI [of _ ?ls] exI [of _ ?ls'] exI [of _ p] exI [of _ q]) simp
qed

end
