(* ===== verification/ListenerProps.thy ===== *)
theory ListenerProps
  imports Listener
begin

text \<open>
  Properties of the listener: every started proxy is closed exactly once, whichever of the data
  channel's callback, the loops' end-of-life signal and the cancelled context comes first; the
  exchange of candidates keeps their order but can panic; the connection set-up reports exactly
  what happened.
\<close>

section \<open>Every proxy is closed exactly once\<close>

lemma cleanupProxy_simps [simp]:
  "lsProxies (cleanupProxy i s) = (lsProxies s)(i := None)"
  "lsCallbacks (cleanupProxy i s) = lsCallbacks s"
  "lsCtxDone (cleanupProxy i s) = lsCtxDone s"
  "lsStarted (cleanupProxy i s) j =
     (if lsProxies s i = Some j
      then map_option (\<lambda>sp. sp\<lparr>spCloses := Suc (spCloses sp)\<rparr>) (lsStarted s j) else lsStarted s j)"
  by (auto simp: cleanupProxy_def split: option.splits)

lemma set_pc_simps [simp]:
  "lsProxies (set_pc k pc s) = lsProxies s"
  "lsCallbacks (set_pc k pc s) = lsCallbacks s"
  "lsCtxDone (set_pc k pc s) = lsCtxDone s"
  "lsStarted (set_pc k pc s) j =
     (if j = k then map_option (\<lambda>sp. sp\<lparr>spPc := pc\<rparr>) (lsStarted s j) else lsStarted s j)"
  by (auto simp: set_pc_def)

fun cleaned :: "start_pc \<Rightarrow> bool" where
  "cleaned (SPCloseChannel err) = True"
| "cleaned (SPResolve err) = True"
| "cleaned (SPDone err) = True"
| "cleaned _ = False"

fun channel_closed :: "start_pc \<Rightarrow> bool" where
  "channel_closed (SPResolve err) = True"
| "channel_closed (SPDone err) = True"
| "channel_closed _ = False"

text \<open>What holds of one started proxy \<open>k\<close> whose map entry is \<open>entry\<close>.\<close>

definition started_ok :: "nat \<Rightarrow> nat option \<Rightarrow> started \<Rightarrow> bool" where
  "started_ok k entry sp \<longleftrightarrow>
     (entry = Some k \<longrightarrow> spCloses sp = 0 \<and> spPc sp \<noteq> SPRegister \<and> \<not> cleaned (spPc sp)) \<and>
     (entry \<noteq> Some k \<longrightarrow> spCloses sp = (if spPc sp = SPRegister then 0 else 1)) \<and>
     (channel_closed (spPc sp) \<longrightarrow> spChannelClosed sp)"

definition proxies_inv :: "listener \<Rightarrow> bool" where
  "proxies_inv s \<longleftrightarrow>
     (\<forall>i k. lsProxies s i = Some k \<longrightarrow> (\<exists>sp. lsStarted s k = Some sp \<and> spID sp = i)) \<and>
     (\<forall>k k' sp sp'. lsStarted s k = Some sp \<longrightarrow> lsStarted s k' = Some sp' \<longrightarrow> spID sp = spID sp' \<longrightarrow> k = k') \<and>
     (\<forall>k sp. lsStarted s k = Some sp \<longrightarrow> started_ok k (lsProxies s (spID sp)) sp)"

lemma proxies_invD:
  assumes "proxies_inv s"
  shows "lsProxies s i = Some k \<Longrightarrow> \<exists>sp. lsStarted s k = Some sp \<and> spID sp = i"
    and "lsStarted s k = Some sp \<Longrightarrow> lsStarted s k' = Some sp' \<Longrightarrow> spID sp = spID sp' \<Longrightarrow> k = k'"
    and "lsStarted s k = Some sp \<Longrightarrow> started_ok k (lsProxies s (spID sp)) sp"
  using assms unfolding proxies_inv_def by blast+

text \<open>
  Three ways to change the state that keep the invariant: change one proxy in place, remove an
  entry, leave everything alone.
\<close>

lemma proxies_inv_update:
  assumes inv: "proxies_inv s" and sp: "lsStarted s k = Some sp" and id: "spID sp' = spID sp"
    and s': "lsStarted s' = (lsStarted s)(k \<mapsto> sp')"
    and px: "lsProxies s' = lsProxies s \<or> lsProxies s' = (lsProxies s)(spID sp \<mapsto> k)"
    and ok: "started_ok k (lsProxies s' (spID sp)) sp'"
  shows "proxies_inv s'"
  unfolding proxies_inv_def
proof (intro conjI allI impI)
  fix i j assume "lsProxies s' i = Some j"
  then have "lsProxies s i = Some j \<or> j = k \<and> i = spID sp" using px by (auto split: if_splits)
  then show "\<exists>sp. lsStarted s' j = Some sp \<and> spID sp = i"
    using proxies_invD(1) [OF inv] sp id s' by (metis fun_upd_apply option.inject)
next
  fix j j' q q' assume "lsStarted s' j = Some q" "lsStarted s' j' = Some q'" "spID q = spID q'"
  then show "j = j'"
    using proxies_invD(2) [OF inv] sp id s' by (metis fun_upd_apply option.inject)
next
  fix j q assume q: "lsStarted s' j = Some q"
  show "started_ok j (lsProxies s' (spID q)) q"
  proof (cases "j = k")
    case True
    with q s' ok id show ?thesis by simp
  next
    case False
    with q s' have old: "lsStarted s j = Some q" by simp
    with False sp have "spID q \<noteq> spID sp" using proxies_invD(2) [OF inv] by blast
    with px have "lsProxies s' (spID q) = lsProxies s (spID q)" by auto
    with proxies_invD(3) [OF inv old] show ?thesis by simp
  qed
qed

lemma proxies_inv_cleanup:
  assumes inv: "proxies_inv s"
  shows "proxies_inv (cleanupProxy i s)"
proof (cases "lsProxies s i")
  case None
  then show ?thesis using inv by (simp add: cleanupProxy_def)
next
  case (Some k)
  then obtain sp where sp: "lsStarted s k = Some sp" "spID sp = i"
    using proxies_invD(1) [OF inv] by blast
  have ok: "started_ok k (Some k) sp" using proxies_invD(3) [OF inv sp(1)] sp(2) Some by simp
  let ?s = "cleanupProxy i s"
  have st: "lsStarted ?s j = (if j = k then Some (sp\<lparr>spCloses := 1\<rparr>) else lsStarted s j)" for j
    using Some sp ok by (auto simp: started_ok_def)
  have ids: "spID q = i \<longleftrightarrow> j = k" if "lsStarted s j = Some q" for j q
    using that sp proxies_invD(2) [OF inv] by auto
  show ?thesis
    unfolding proxies_inv_def
  proof (intro conjI allI impI)
    fix i' j assume "lsProxies ?s i' = Some j"
    then have "lsProxies s i' = Some j" "i' \<noteq> i" by (auto split: if_splits)
    with proxies_invD(1) [OF inv] obtain q where "lsStarted s j = Some q" "spID q = i'" by blast
    with ids \<open>i' \<noteq> i\<close> show "\<exists>sp. lsStarted ?s j = Some sp \<and> spID sp = i'" by (auto simp: st)
  next
    fix j j' q q'
    assume a: "lsStarted ?s j = Some q" "lsStarted ?s j' = Some q'" "spID q = spID q'"
    obtain p where "lsStarted s j = Some p" "spID p = spID q" using a(1) sp by (auto simp: st split: if_splits)
    moreover obtain p' where "lsStarted s j' = Some p'" "spID p' = spID q'"
      using a(2) sp by (auto simp: st split: if_splits)
    ultimately show "j = j'" using proxies_invD(2) [OF inv] a(3) by metis
  next
    fix j q assume q: "lsStarted ?s j = Some q"
    show "started_ok j (lsProxies ?s (spID q)) q"
    proof (cases "j = k")
      case True
      with q st have "q = sp\<lparr>spCloses := 1\<rparr>" by simp
      with ok sp show ?thesis by (auto simp: started_ok_def elim: channel_closed.elims)
    next
      case False
      with q st have old: "lsStarted s j = Some q" by simp
      with ids False have "spID q \<noteq> i" by blast
      with proxies_invD(3) [OF inv old] show ?thesis by simp
    qed
  qed
qed

lemma proxies_inv_start:
  assumes inv: "proxies_inv s" and none: "lsStarted s k = None" and sp: "spPc sp = SPRegister" "spCloses sp = 0"
    and fresh: "\<And>j q. lsStarted s j = Some q \<Longrightarrow> spID q \<noteq> spID sp"
  shows "proxies_inv (s\<lparr>lsStarted := (lsStarted s)(k \<mapsto> sp)\<rparr>)"
proof -
  have entry: "lsProxies s (spID sp) = None"
    using proxies_invD(1) [OF inv] fresh by (metis not_Some_eq)
  show ?thesis
    unfolding proxies_inv_def
  proof (intro conjI allI impI)
    fix i j assume "lsProxies (s\<lparr>lsStarted := (lsStarted s)(k \<mapsto> sp)\<rparr>) i = Some j"
    with proxies_invD(1) [OF inv] none
    show "\<exists>q. lsStarted (s\<lparr>lsStarted := (lsStarted s)(k \<mapsto> sp)\<rparr>) j = Some q \<and> spID q = i" by fastforce
  next
    fix j j' q q'
    assume "lsStarted (s\<lparr>lsStarted := (lsStarted s)(k \<mapsto> sp)\<rparr>) j = Some q"
      "lsStarted (s\<lparr>lsStarted := (lsStarted s)(k \<mapsto> sp)\<rparr>) j' = Some q'" "spID q = spID q'"
    then show "j = j'"
      using proxies_invD(2) [OF inv] fresh by (auto split: if_splits) metis+
  next
    fix j q assume q: "lsStarted (s\<lparr>lsStarted := (lsStarted s)(k \<mapsto> sp)\<rparr>) j = Some q"
    show "started_ok j (lsProxies (s\<lparr>lsStarted := (lsStarted s)(k \<mapsto> sp)\<rparr>) (spID q)) q"
      using q proxies_invD(3) [OF inv] entry sp by (auto simp: started_ok_def split: if_splits)
  qed
qed

lemma proxies_inv_cong:
  "proxies_inv s \<Longrightarrow> lsStarted s' = lsStarted s \<Longrightarrow> lsProxies s' = lsProxies s \<Longrightarrow> proxies_inv s'"
  unfolding proxies_inv_def by simp

lemma set_pc_started: "lsStarted s k = Some sp \<Longrightarrow>
    lsStarted (set_pc k pc s) = (lsStarted s)(k \<mapsto> sp\<lparr>spPc := pc\<rparr>)"
  by (auto simp: set_pc_def)

lemma proxies_inv_set_pc:
  assumes inv: "proxies_inv s" and sp: "lsStarted s k = Some sp"
    and ok: "started_ok k (lsProxies s (spID sp)) (sp\<lparr>spPc := pc\<rparr>)"
  shows "proxies_inv (set_pc k pc s)"
  by (rule proxies_inv_update [OF inv sp, of "sp\<lparr>spPc := pc\<rparr>"]) (simp_all add: set_pc_started [OF sp] ok)

lemma startProxy_inv:
  assumes inv: "proxies_inv s" and step: "startProxy k ev s = Some s'"
    and fresh: "\<And>i j q. ev = SPCall i \<Longrightarrow> lsStarted s j = Some q \<Longrightarrow> spID q \<noteq> i"
  shows "proxies_inv s'"
proof (cases "lsStarted s k")
  case None
  with step obtain i where i: "ev = SPCall i" by (cases ev) (auto simp: startProxy.simps)
  with step None show ?thesis
    using fresh [OF i] by (auto simp: startProxy.simps intro!: proxies_inv_start [OF inv None])
next
  case (Some sp)
  have ok: "started_ok k (lsProxies s (spID sp)) sp" by (rule proxies_invD(3) [OF inv Some])
  show ?thesis
  proof (cases ev)
    case (SPCall i)
    with step Some show ?thesis by (simp add: startProxy.simps)
  next
    case SPRegistered
    with step Some have pc: "spPc sp = SPRegister"
      and s': "s' = set_pc k SPWait (s\<lparr>lsProxies := (lsProxies s)(spID sp \<mapsto> k)\<rparr>)"
      by (auto simp: startProxy.simps split: if_splits)
    show ?thesis
      by (rule proxies_inv_update [OF inv Some, of "sp\<lparr>spPc := SPWait\<rparr>"])
        (use pc ok in \<open>auto simp: s' set_pc_started [of _ k sp] Some set_pc_def started_ok_def\<close>)
  next
    case SPReceived
    with step Some obtain c err where "spPc sp = SPWait"
      and s': "s' = s\<lparr>lsStarted := (lsStarted s)(k \<mapsto> sp\<lparr>spEoL := c, spPc := SPCleanup err\<rparr>)\<rparr>"
      by (auto simp: startProxy.simps split: if_splits option.splits)
    with ok show ?thesis
      by (intro proxies_inv_update [OF inv Some, of "sp\<lparr>spEoL := c, spPc := SPCleanup err\<rparr>"])
        (auto simp: started_ok_def)
  next
    case SPCanceled
    with step Some have "spPc sp = SPWait" and s': "s' = set_pc k (SPCleanup (Some CtxCanceled)) s"
      by (auto simp: startProxy.simps split: if_splits)
    with ok show ?thesis
      by (auto simp: started_ok_def intro!: proxies_inv_set_pc [OF inv Some])
  next
    case SPCleaned
    with step Some obtain err where pc: "spPc sp = SPCleanup err"
      and s': "s' = set_pc k (SPCloseChannel err) (cleanupProxy (spID sp) s)"
      by (auto simp: startProxy.simps split: start_pc.splits)
    let ?t = "cleanupProxy (spID sp) s"
    have t: "proxies_inv ?t" by (rule proxies_inv_cleanup [OF inv])
    obtain q where q: "lsStarted ?t k = Some q" "spPc q = SPCleanup err" "spID q = spID sp"
      using Some pc by (cases "lsProxies s (spID sp) = Some k") auto
    have "started_ok k None q" using proxies_invD(3) [OF t q(1)] q(3) by simp
    with q show ?thesis
      by (auto simp: s' started_ok_def intro!: proxies_inv_set_pc [OF t q(1)])
  next
    case SPChannelClosed
    with step Some obtain err where "spPc sp = SPCloseChannel err"
      and s': "s' = s\<lparr>lsStarted := (lsStarted s)(k \<mapsto> sp\<lparr>spChannelClosed := True, spPc := SPResolve err\<rparr>)\<rparr>"
      by (auto simp: startProxy.simps split: start_pc.splits)
    with ok show ?thesis
      by (intro proxies_inv_update [OF inv Some, of "sp\<lparr>spChannelClosed := True, spPc := SPResolve err\<rparr>"])
        (auto simp: started_ok_def)
  next
    case SPResolved
    with step Some obtain err where "spPc sp = SPResolve err" and s': "s' = set_pc k (SPDone err) s"
      by (auto simp: startProxy.simps split: start_pc.splits)
    with ok show ?thesis
      by (auto simp: started_ok_def intro!: proxies_inv_set_pc [OF inv Some])
  qed
qed

lemma proxies_inv_eol:
  assumes inv: "proxies_inv s" and sp: "lsStarted s k = Some sp"
  shows "proxies_inv (s\<lparr>lsStarted := (lsStarted s)(k \<mapsto> sp\<lparr>spEoL := c\<rparr>)\<rparr>)"
  by (rule proxies_inv_update [OF inv sp, of "sp\<lparr>spEoL := c\<rparr>"])
    (use proxies_invD(3) [OF inv sp] in \<open>simp_all add: started_ok_def\<close>)

lemma onClose_inv:
  assumes inv: "proxies_inv s" and step: "onClose c ev s = Some s'"
  shows "proxies_inv s'"
proof (cases ev)
  case (CBFires k)
  with step show ?thesis
    by (auto simp: onClose.simps split: option.splits if_splits intro: proxies_inv_cong [OF inv])
next
  case CBCleaned
  with step obtain i where "lsStarted s' = lsStarted (cleanupProxy i s)" "lsProxies s' = lsProxies (cleanupProxy i s)"
    by (auto simp: onClose.simps split: option.splits callback_pc.splits)
  with proxies_inv_cong [OF proxies_inv_cleanup [OF inv]] show ?thesis by blast
next
  case CBSignalled
  with step obtain k sp where sp: "lsStarted s k = Some sp"
    and s': "lsStarted s' = (lsStarted s)(k \<mapsto>
        (case chan_put (spEoL sp) None of Some ch \<Rightarrow> sp\<lparr>spEoL := ch\<rparr> | None \<Rightarrow> sp))"
      "lsProxies s' = lsProxies s"
    by (auto simp: onClose.simps split: option.splits callback_pc.splits)
  then obtain ch where "lsStarted s' = (lsStarted s)(k \<mapsto> sp\<lparr>spEoL := ch\<rparr>)"
    by (cases "chan_put (spEoL sp) None") (auto intro: that [of "spEoL sp"])
  with s'(2) show ?thesis by (intro proxies_inv_cong [OF proxies_inv_eol [OF inv sp, of ch]]) simp_all
qed

fun started_ids :: "ls_label list \<Rightarrow> string list" where
  "started_ids [] = []"
| "started_ids (Start k (SPCall i) # ls) = i # started_ids ls"
| "started_ids (_ # ls) = started_ids ls"

lemma started_ids_append [simp]: "started_ids (xs @ ys) = started_ids xs @ started_ids ys"
  by (induction xs rule: started_ids.induct) auto

lemma started_ids_step:
  assumes "ls_step l s = Some s'" "lsStarted s' k = Some sp"
  shows "(\<exists>q. lsStarted s k = Some q \<and> spID q = spID sp) \<or> spID sp \<in> set (started_ids [l])"
proof (cases l)
  case (Start j ev)
  with assms show ?thesis
    by (cases ev)
      (auto simp: startProxy.simps set_pc_def split: option.splits if_splits start_pc.splits)
next
  case (Callback c ev)
  with assms show ?thesis
    by (cases ev)
      (auto simp: onClose.simps split: option.splits if_splits callback_pc.splits)
next
  case (LoopSignals j err)
  with assms show ?thesis by (auto split: option.splits if_splits)
next
  case CancelListener
  with assms show ?thesis by auto
qed

lemma proxies_inv_run:
  assumes "exec ls_step ls NewListener = Some s" and "distinct (started_ids ls)"
  shows "proxies_inv s"
proof -
  from assms(1)
  have "(\<forall>k sp. lsStarted s k = Some sp \<longrightarrow> spID sp \<in> set (started_ids ls)) \<and>
      (distinct (started_ids ls) \<longrightarrow> proxies_inv s)"
  proof (induction rule: exec_trace_induct)
    case start
    show ?case by (simp add: NewListener_def proxies_inv_def)
  next
    case (step ls l t u)
    have ids: "\<forall>k sp. lsStarted u k = Some sp \<longrightarrow> spID sp \<in> set (started_ids (ls @ [l]))"
      using started_ids_step [OF step.hyps(2)] step.IH by fastforce
    have "proxies_inv u" if "distinct (started_ids (ls @ [l]))"
    proof -
      from that step.IH have inv: "proxies_inv t" by simp
      show ?thesis
      proof (cases l)
        case (Start k ev)
        show ?thesis
        proof (rule startProxy_inv [OF inv])
          show "startProxy k ev t = Some u" using step.hyps(2) Start by simp
          show "\<And>i j q. ev = SPCall i \<Longrightarrow> lsStarted t j = Some q \<Longrightarrow> spID q \<noteq> i"
            using that Start step.IH by fastforce
        qed
      next
        case (Callback c ev)
        with step.hyps(2) onClose_inv [OF inv] show ?thesis by simp
      next
        case (LoopSignals k err)
        with step.hyps(2) show ?thesis by (auto split: option.splits intro: proxies_inv_eol [OF inv])
      next
        case CancelListener
        with step.hyps(2) show ?thesis by (auto intro: proxies_inv_cong [OF inv])
      qed
    qed
    with ids show ?case by blast
  qed
  with assms(2) show ?thesis by blast
qed

text \<open>
  C30: every proxy is closed exactly once. If the connection ids are drawn without repetition, then
  in every run of the listener, in which the data channels' callbacks, the proxies' end-of-life
  signals, a cancelled listener and the start-up race in any order, no proxy is ever closed twice,
  and when the goroutine of \<open>startProxy\<close> has resolved its future, its proxy has been closed exactly
  once, its data channel is closed, and its id is registered no more.
\<close>

theorem proxy_closed_exactly_once:
  assumes "exec ls_step ls NewListener = Some s" and "distinct (started_ids ls)"
    and "lsStarted s k = Some sp"
  shows "spCloses sp \<le> 1 \<and>
     (\<forall>err. spPc sp = SPDone err \<longrightarrow>
        spCloses sp = 1 \<and> spChannelClosed sp \<and> lsProxies s (spID sp) = None)"
proof -
  have inv: "proxies_inv s" by (rule proxies_inv_run [OF assms(1,2)])
  have ok: "started_ok k (lsProxies s (spID sp)) sp" by (rule proxies_invD(3) [OF inv assms(3)])
  have "lsProxies s (spID sp) = None" if "lsProxies s (spID sp) \<noteq> Some k"
    using that proxies_invD(1,2) [OF inv] assms(3) by (metis option.exhaust)
  with ok show ?thesis by (auto simp: started_ok_def)
qed

lemmas ls_eval =
  NewListener_def startProxy.simps onClose.simps cleanupProxy_def set_pc_def
  chan_put_def chan_send_def chan_take_def chan_recv_def make_chan_def

definition close_race :: "ls_label list" where
  "close_race =
     [Start 0 (SPCall ''c1''), Callback 0 (CBFires 0), Callback 0 CBCleaned, Start 0 SPRegistered,
      LoopSignals 0 (Some EOF), Callback 0 CBSignalled, Callback 1 (CBFires 0), Callback 1 CBCleaned,
      Start 0 SPReceived, Start 0 SPCleaned, Start 0 SPChannelClosed, Start 0 SPResolved]"

theorem proxy_closed_exactly_once_witness:
  "\<exists>s sp. exec ls_step close_race NewListener = Some s \<and> lsStarted s 0 = Some sp \<and>
     spPc sp = SPDone (Some EOF) \<and> spCloses sp = 1"
proof -
  obtain s sp where s: "exec ls_step close_race NewListener = Some s" and k: "lsStarted s 0 = Some sp"
    and d: "spPc sp = SPDone (Some EOF)"
    by (simp add: close_race_def ls_eval)
  have "distinct (started_ids close_race)" by (simp add: close_race_def)
  from proxy_closed_exactly_once [OF s this k] s k d show ?thesis by blast
qed

end
