(* ===== verification/Cli.thy ===== *)
theory Cli
  imports Agent
begin

text \<open>
  The command line tools. Of \<^verbatim>\<open>cmd/yamcli\<close>: its flags, the parsing of the arguments as Go's package
  \<open>flag\<close> does it with \<open>ExitOnError\<close>, the checks of \<open>mainHost\<close> and \<open>mainClient\<close>, and how the two
  commands go on. What dialling the server and the two APIs return are arguments.
\<close>

section \<open>Flags\<close>











section \<open>The commands\<close>







text \<open>
  How the two commands end: a panic, \<open>log.Fatal\<close>, a set-up that never ends, or waiting for the
  interrupt. A host that cannot log in panics; so does a client that cannot open its port, while
  one that cannot connect stops with \<open>log.Fatal\<close>.
\<close>

datatype command_end = PanicsWith "go_error option" | Fatal go_error | NeverReady | ServesUntilInterrupt

definition startHost ::
  "go_error option \<Rightarrow> (InitHostRequest \<Rightarrow> go_error + InitHostResponse) \<Rightarrow>
     (WaitForOfferRequest \<Rightarrow> go_error option) \<Rightarrow> string \<Rightarrow> string \<Rightarrow> string \<Rightarrow> command_end"
where
  "startHost dialErr loginHost listenNewOffer addr username password =
     (if dialErr \<noteq> None then PanicsWith dialErr
      else case HostLogin username password loginHost listenNewOffer addr of
        Panics \<Rightarrow> PanicsWith None
      | Returns (Inl err) \<Rightarrow> PanicsWith (Some err)
      | Returns (Inr host) \<Rightarrow> ServesUntilInterrupt)"

definition startClient :: "go_error option \<Rightarrow> setup_outcome \<Rightarrow> go_error option \<Rightarrow> command_end" where
  "startClient dialErr setup listenErr =
     (if dialErr \<noteq> None then PanicsWith dialErr
      else if setup = SetupPanics then PanicsWith None
      else case Connect_results setup False of
        [] \<Rightarrow> NeverReady
      | Some err # _ \<Rightarrow> Fatal err
      | None # _ \<Rightarrow>
          (case Bind listenErr of Some err \<Rightarrow> PanicsWith (Some err) | None \<Rightarrow> ServesUntilInterrupt))"

section \<open>The server's command\<close>

text \<open>
  \<^verbatim>\<open>cmd/yamsrv\<close>: the address from the environment, if it is set to something, and then \<open>server.Serve\<close> on
  it, which is the theory \<open>SignalServer\<close>, or a panic when the port cannot be opened.
\<close>

datatype server_end = ServerPanics go_error | ServesOn string

definition server_grpcURL :: string where "server_grpcURL = ''0.0.0.0:6666''"

definition main_server :: "(string \<rightharpoonup> string) \<Rightarrow> (string \<Rightarrow> go_error option) \<Rightarrow> server_end" where
  "main_server env listen =
     (let url = (case env ''GRPC_URL'' of
            None \<Rightarrow> server_grpcURL | Some u \<Rightarrow> if u = [] then server_grpcURL else u)
      in case listen url of Some err \<Rightarrow> ServerPanics err | None \<Rightarrow> ServesOn url)"

section \<open>Rendering and parsing\<close>










section \<open>Properties\<close>







end
