(* ===== verification/Spec2Isabelle.thy ===== *)
theory Spec2Isabelle
  imports CandidatePath Switchboard HostOffers Prototype Tunnel ListenerProps ListenerSetupProps Agent Cli
begin

text \<open>
  YAMRP tunnels TCP connections over WebRTC data channels. A host behind a NAT logs in at a
  signalling server and listens for offers; a client asks the server to pass an offer to the host,
  the host's agent answers, both exchange ICE candidates through the server, and then every TCP
  connection the client's listener accepts becomes a data channel with a proxy at each end.

  \<^bold>\<open>The parts and their theories.\<close> Each theory names the Go functions its definitions translate,
  which keep their names where HOL allows it.

  \<^item> \<open>Prelude\<close>: errors, durations, labelled machines with their runs (\<open>exec\<close>), and the contracts:
    a property every step keeps (\<open>stable_property\<close>), an invariant (\<open>machine_invariant\<close>), a counter
    that never decreases, the ownership of channel references (\<open>channel_ownership\<close>) and the
    functional simulation of an abstract machine (\<open>simulation\<close>).
  \<^item> \<open>GoChan\<close>: Go channels as values with send, receive and close, and the contract \<open>fifo\<close>.
  \<^item> \<open>Async\<close>: the futures of \<^verbatim>\<open>utils/async/future.go\<close>, one-slot channels in a store.
  \<^item> \<open>ProtoMsg\<close>: the messages of \<^verbatim>\<open>proto/yampr.pb.go\<close> with their getters, which accept \<open>nil\<close>.
  \<^item> \<open>Auth\<close>, \<open>HostServer\<close>, \<open>Offerer\<close>, \<open>Answerer\<close>: the four services under \<^verbatim>\<open>server/\<close>
    (\<^verbatim>\<open>auth.go\<close>, \<^verbatim>\<open>host.go\<close>, \<^verbatim>\<open>offerer.go\<close>, \<^verbatim>\<open>anserer.go\<close>).
  \<^item> \<open>SignalServer\<close>: their composition in \<^verbatim>\<open>server/server.go\<close>; the unbuffered channels between two
    services are joint steps of the two machines.
  \<^item> \<open>Proxy\<close>: the two loops that copy between a socket and a data channel, and \<open>Close\<close>, of
    \<^verbatim>\<open>client/proxy.go\<close>. \<open>Tunnel\<close> puts the proxies of the two ends together.
  \<^item> \<open>Listener\<close>, \<open>ListenerSetup\<close>: \<^verbatim>\<open>client/listener.go\<close>, its registry of proxies, the exchange of
    candidates and the set-up of the connection.
  \<^item> \<open>Agent\<close>: the host's side, \<^verbatim>\<open>client/agent.go\<close>, \<^verbatim>\<open>client/host.go\<close> and the small types they use.
  \<^item> \<open>Cli\<close>: the command line tools \<^verbatim>\<open>cmd/yamcli\<close> and \<^verbatim>\<open>cmd/yamsrv\<close>.
  \<^item> \<open>Base64\<close>, \<open>Prototype\<close>: the prototypes under \<^verbatim>\<open>cmd/_bak\<close>, which exchange descriptions and
    candidates in base64 through a terminal, and the encoding of Go's library that they use.

  The theories \<open>HostServerProps\<close>, \<open>OffererProps\<close>, \<open>AnswererProps\<close>, \<open>SignalServerProps\<close>,
  \<open>ProxyProps\<close>, \<open>ListenerProps\<close> and \<open>ListenerSetupProps\<close> hold the invariants and properties of
  the theory they are named after; the small components have theirs in their own theory. \<open>HostOffers\<close>
  counts offers and wake-ups in the host registry. \<open>Mailbox\<close>
  and \<open>Relay\<close> hold the refinements of the answerer and the offerer service, \<open>Switchboard\<close> that of the whole
  server; \<open>Candidates\<close>,
  \<open>CandidateOrder\<close>, \<open>ClientCandidates\<close> and \<open>CandidatePath\<close> follow the candidates: where they come from,
  their order from the host to the client and back through the server, and from client to client.

  \<^bold>\<open>How concurrent code is modelled.\<close> The state of a service is a record of its maps, its channels
  and, for every handler or goroutine, a program counter (a datatype whose constructors carry the
  local variables that are still needed). A label names the goroutine that moves, the branch of a
  \<open>select\<close> it takes and what the environment supplies (a message, an error, a fresh id, the passing
  of time). The step function \<open>hs_step\<close>, \<open>off_step\<close>, \<open>ans_step\<close>, \<open>sig_step\<close>, \<open>px_step\<close>,
  \<open>ls_step\<close> or \<open>ix_step\<close> is partial: \<open>None\<close> says that the goroutine cannot move. A statement about
  every run of labels is one about every interleaving. A panic is a value: a flag of the state, after
  which nothing moves, or a constructor of the result. Access to a map that the code guards by a
  mutex is one step; everything between two such accesses can be interleaved.

  \<^bold>\<open>What is shown.\<close>
  \<^item> The server delivers to the right party: offers, answers and candidates reach only the host id or
    answerer id they are for, in every interleaving of the composed server (\<open>offers_end_to_end\<close>,
    \<open>answers_end_to_end\<close>, and in the theory \<open>Candidates\<close> \<open>host_candidates_end_to_end\<close> and
    \<open>client_candidates_end_to_end\<close>), and the whole signalling is possible (\<open>signalling_completes\<close>). The central
    lemmas are the interpretations of \<open>channel_ownership\<close>: a channel never serves two identities.
  \<^item> The whole server implements one abstract switchboard (\<open>server_refines_switchboard\<close>), a machine with a
    registry of hosts, one mailbox of offers for each host and queues of answers and of candidates. It is put
    together from refinements of the services by the contract \<open>simulation\<close>: the host manager is the registry of
    idle and active hosts (\<open>host_server_refines_registry\<close>), the answerer service the post office
    (\<open>answerer_refines_mailboxes\<close>), so that no offering is lost or delivered twice inside it, and the offerer
    service two first-in first-out relays (\<open>offerer_refines_relay\<close>, \<open>candidate_relay\<close>).
  \<^item> Every reference of the server's maps and goroutines is valid (\<open>references_are_valid\<close>).
  \<^item> The balance of offers and wake-ups (\<open>accounted\<close>, in \<open>HostOffers\<close>): a listener is only woken by offers
    for its own host, and the manager's unchecked map access cannot panic before 1025 offers have been
    announced for one host, which is also enough (\<open>crash_takes_1025_offers\<close>).
  \<^item> Client and server together: a listener is answered by an agent of the host it called
    (\<open>listener_is_answered_by_its_host\<close>, in this theory), the candidates each side adds are, in
    order, among those the other gathered (\<open>host_candidates_reach_the_listener\<close>,
    \<open>client_candidates_reach_the_agent\<close>), and the two proxies of a connection are a stream
    (\<open>tunnel_is_a_stream\<close>).
  \<^item> The order of candidates through the server, in both directions: the contract \<open>candidate_stream\<close> for
    what a client streams, a relay (\<open>candidate_relay\<close>) or the queue of one call (\<open>in_order\<close>) inside the services.
  \<^item> What the proxy keeps: no double close, the order of the bytes in both directions as long as no
    write times out, every message exactly once also when writes do (\<open>writes_are_conserved\<close>), errors
    reach the owner; and the listener closes no proxy twice.
  \<^item> Liveness in the form of enabled steps: which call can always go on, and in how many steps.
  \<^item> What goes wrong: the runs in which a crash, a lost wake-up, a blocked router or an error that is
    swallowed happens are given explicitly, and where possible the exact condition.
  \<^item> The futures: \<open>AwaitUnordered\<close> is \<open>AwaitAll\<close>, and when the calls return.
  \<^item> The client's functions around the libraries: when \<open>Connect\<close> reports success, what a lost
    answer does, that login agrees with the server, and with which values the tools start.
  \<^item> The prototypes: pasted candidates are added in order, and exactly
    which candidates the client never prints.

  \<^bold>\<open>Bounds.\<close> The capacities (1, 1024) and time-outs (the host's idle time-out, ten seconds, 100 ms) are
  those of the code. Time is a number of nanoseconds that only explicit steps advance, and a timer is a
  deadline that may fire at any time after it has passed. No function uses fuel: the loops that may
  not end are steps of a machine, or functions of the finite list of events they have consumed,
  with a result for "has not returned".

  \<^bold>\<open>What is a parameter.\<close> Random ids, the signing of JWTs, MD5, JSON, and what the WebRTC library, the
  sockets, the gRPC client and the operating system return. No property assumes anything of them
  except where it says so: ids are drawn without repetition, the data channel is ordered and
  reliable (\<open>ordered_delivery\<close>), and a gRPC stream delivers in order (\<open>grpc_delivers\<close>).

  \<^bold>\<open>Not modelled.\<close> The generated gRPC and protobuf transport code and the generated mocks; logging; the
  text printed by the tools except the base64 of the prototypes; the interfaces without code
  (\<^verbatim>\<open>proxy.go\<close>, the unused types of \<^verbatim>\<open>client/agent_proxy.go\<close>, \<^verbatim>\<open>server/services.go\<close>).
  Where the model is not exact it has more runs than the program: goroutines may be delayed for any
  time, a write that has timed out may end after later ones (no order of concurrent writes is
  documented), a \<open>LoginHost\<close> that panics leaves the server as it was, and after a crash of the host
  manager the other services may still move. Statements about all runs hold for the program all the
  same, and the runs that are given explicitly use nothing of this but delays. A time-out of a \<open>select\<close> that has a ready send is excluded where it matters (\<open>notify_timeout\<close>).
  The terminal's input is ASCII. The memory model is sequentially consistent: data races, such as the unguarded write of
  the listener's \<open>peerConn\<close>, are outside it.
\<close>

section \<open>Client and server together\<close>

text \<open>
  An answer made by a host's agent: the agent of the host \<open>h\<close> has got an offer from this server's
  \<open>WaitForOffer\<close> and prepared the answer \<open>r\<close> to it, whatever its WebRTC library does.
\<close>

definition agent_answer :: "signal_server \<Rightarrow> string \<Rightarrow> ReplyToRequest \<Rightarrow> bool" where
  "agent_answer S h r \<longleftrightarrow>
     (\<exists>(env :: unit agent_env) ag g offer.
        Agent_hostID ag = h \<and>
        offerWaits (sigAns S) g = Some (WODone (agent_offer_request ag) (Inr offer)) \<and>
        aeWaitForOffer env (agent_offer_request ag) = (Some offer, None) \<and>
        prepared env ag = Some r)"

lemma agent_answers_a_call:
  assumes "exec sig_step ls Serve = Some S" and "agent_answer S h r"
  shows "\<exists>g call offID. OffDoes (SendOfferBy g (SOCall call (ReplyToRequest_AnswererId r) offID)) \<in> set ls \<and>
     SendOfferRequest_HostId call = h"
proof -
  from assms(2) obtain env :: "unit agent_env" and ag g offer
    where ag: "Agent_hostID ag = h"
      and got: "offerWaits (sigAns S) g = Some (WODone (agent_offer_request ag) (Inr offer))"
      and env: "aeWaitForOffer env (agent_offer_request ag) = (Some offer, None)" "prepared env ag = Some r"
    unfolding agent_answer_def by blast
  from offer_origin [OF assms(1) got] prepared_answers_the_offer [OF env(2,1)] ag show ?thesis
    by (auto simp: agent_offer_request_def)
qed

text \<open>
  C1: a listener is answered by the host it called. Let the answerer id of a \<open>SendOffer\<close> call be drawn
  for this call only, and let all answers the server gets be made by agents of hosts. In every run of the
  server, the answer that \<open>WaitForAnswer\<close> returns for this id was made by an agent of the host the
  call named, on an offer the server gave it: no interleaving of offers, answers, time-outs and
  routers connects a listener with an agent of another host.
\<close>

theorem listener_is_answered_by_its_host:
  assumes "exec sig_step ls Serve = Some S"
    and "\<forall>g' call' offID'. OffDoes (SendOfferBy g' (SOCall call' a offID')) \<in> set ls \<longrightarrow> call' = call"
    and "\<forall>g' r. AnsDoes (SendAnswerBy g' (SACall r)) \<in> set ls \<longrightarrow> (\<exists>h. agent_answer S h r)"
    and "answerWaits (sigOff S) g = Some (WASelect ch req)" and "WaitForAnswerRequest_AnswererId req = a"
    and "sig_step (OffDoes (AnswerDelivered g)) S = Some S'"
  shows "\<exists>r. agent_answer S (SendOfferRequest_HostId call) r \<and>
     answerWaits (sigOff S') g = Some (WADone (Inr \<lparr>AnswerResponse_Answer = ReplyToRequest_Body r\<rparr>))"
proof -
  from answer_origin [OF assms(1,4,6)] assms(5) obtain g' r
    where r: "AnsDoes (SendAnswerBy g' (SACall r)) \<in> set ls" "ReplyToRequest_AnswererId r = a"
      and out: "answerWaits (sigOff S') g = Some (WADone (Inr \<lparr>AnswerResponse_Answer = ReplyToRequest_Body r\<rparr>))"
    by blast
  from assms(3) r(1) obtain h where h: "agent_answer S h r" by blast
  from agent_answers_a_call [OF assms(1) h] r(2) assms(2) have "SendOfferRequest_HostId call = h" by blast
  with h out show ?thesis by blast
qed

definition demo_agent :: AgentNetConn where
  "demo_agent = NewAgent ''addr'' ''tcp'' \<lparr>UserData_token = ''t'', UserData_id = ''h''\<rparr> ''h''"

definition demo_call :: SendOfferRequest where
  "demo_call = \<lparr>SendOfferRequest_Token = None, SendOfferRequest_HostId = ''h'', SendOfferRequest_Offer = ''sdp''\<rparr>"

definition demo_offer :: OfferResponse where
  "demo_offer = \<lparr>OfferResponse_OffererId = '''', OfferResponse_AnswererId = ''a1'', OfferResponse_Body = ''sdp''\<rparr>"

definition demo_env :: "unit agent_env" where
  "demo_env =
     \<lparr>aeNewPeerConnection = (Some (), None), aeWaitForOffer = (\<lambda>_. (Some demo_offer, None)),
      aeSendIceCandidate = None, aeUnmarshal = (\<lambda>_. ((), None)), aeSetRemoteDescription = (\<lambda>_. None),
      aeCreateAnswer = (''answer'', None), aeSetLocalDescription = (\<lambda>_. None),
      aeSendAnswer = (\<lambda>_. None)\<rparr>"

definition demo_run :: "sig_label list" where
  "demo_run =
     [OffDoes (SendOfferBy 0 (SOCall demo_call ''a1'' ''o1'')), NotifyManager 0,
      AnsDoes (WaitOfferBy 0 (WOCall (agent_offer_request demo_agent))),
      HandOffer 0, AnsDoes OfferRouted, AnsDoes (WaitOfferBy 0 WOTake), AnsDoes (WaitOfferBy 0 WORegister),
      OffDoes (WaitAnswerBy 0 (WACall \<lparr>WaitForAnswerRequest_Token = None, WaitForAnswerRequest_AnswererId = ''a1''\<rparr>)),
      AnsDoes (SendAnswerBy 0 (SACall (answer_request ''t'' ''a1'' ''answer''))),
      AnsDoes (SendAnswerBy 0 SAPut), OffDoes AnswerRouted]"

theorem listener_is_answered_by_its_host_witness:
  "\<exists>S S' r. exec sig_step demo_run Serve = Some S \<and> sig_step (OffDoes (AnswerDelivered 0)) S = Some S' \<and>
     agent_answer S ''h'' r \<and>
     answerWaits (sigOff S') 0 = Some (WADone (Inr \<lparr>AnswerResponse_Answer = ReplyToRequest_Body r\<rparr>))"
proof -
  obtain S S' ch where S: "exec sig_step demo_run Serve = Some S"
    and o: "offerWaits (sigAns S) 0 = Some (WODone (agent_offer_request demo_agent) (Inr demo_offer))"
    and w: "answerWaits (sigOff S) 0 = Some (WASelect ch \<lparr>WaitForAnswerRequest_Token = None,
        WaitForAnswerRequest_AnswererId = ''a1''\<rparr>)"
    and d: "sig_step (OffDoes (AnswerDelivered 0)) S = Some S'"
    by (simp add: demo_run_def demo_call_def demo_offer_def agent_offer_request_def demo_agent_def
        NewAgent_def answer_request_def sig_eval)
  have calls: "\<forall>g' call' offID'. OffDoes (SendOfferBy g' (SOCall call' ''a1'' offID')) \<in> set demo_run \<longrightarrow>
      call' = demo_call"
    by (simp add: demo_run_def)
  have "prepared demo_env demo_agent = Some (answer_request ''t'' ''a1'' ''answer'')"
    by (simp add: prepared_def demo_env_def demo_offer_def demo_agent_def NewAgent_def failed_def
        UserData_Token_def)
  with o have "agent_answer S ''h'' (answer_request ''t'' ''a1'' ''answer'')"
    unfolding agent_answer_def
    by (intro exI [of _ demo_env] exI [of _ demo_agent] exI [of _ 0] exI [of _ demo_offer])
      (simp add: demo_env_def demo_agent_def NewAgent_def)
  then have honest: "\<forall>g' r. AnsDoes (SendAnswerBy g' (SACall r)) \<in> set demo_run \<longrightarrow> (\<exists>h. agent_answer S h r)"
    by (auto simp: demo_run_def)
  from listener_is_answered_by_its_host [OF S calls honest w _ d] S d show ?thesis
    by (auto simp: demo_call_def)
qed

end
